(* ===== verification/Prelude.thy ===== *)
theory Prelude
  imports Main "HOL-Library.Word" "HOL-Library.Multiset" "HOL-Library.Monad_Syntax"
begin

unbundle bit_operations_syntax

text \<open>
  Shared vocabulary of the development: the error codes that the C functions return in a
  \<open>DWORD\<close>, the machine integers and byte strings of the model, unsigned wrap-around on
  natural numbers, and the generic lemmas on lists that several components use.

  A C function that returns \<open>DWORD dwError\<close> is modelled with a result of type
  \<open>vmdir_error option\<close>: \<open>None\<close> is 0 (success). A C function that can hit an
  \<open>assert\<close> or would read or write outside an object returns an \<open>option\<close> whose
  \<open>None\<close> is the aborted run.
\<close>

section \<open>Error codes and machine integers\<close>

datatype vmdir_error =
    ERROR_INVALID_PARAMETER
  | ERROR_NO_MEMORY
  | ERROR_NO_MORE_ITEMS
  | ERROR_INVALID_ENTRY
  | ERROR_INVALID_ATTRIBUTETYPES
  | VMDIR_ERROR_INVALID_PARAMETER
  | VMDIR_ERROR_NOT_FOUND
  | VMDIR_ERROR_SIZELIMIT_EXCEEDED
  | VMDIR_ERROR_INVALID_ENTRY
  | VMDIR_ERROR_INVALID_ATTRIBUTETYPES
  | VMDIR_ERROR_UNWILLING_TO_PERFORM
  | VMDIR_ERROR_BACKEND_ENTRY_NOTFOUND
  | VMDIR_ERROR_BACKEND_ENTRY_EXISTS
  | VMDIR_ERROR_BACKEND_ERROR
  | LDAP_OPERATIONS_ERROR
  | LDAP_INSUFFICIENT_ACCESS
  | VMDIR_ERROR_SERVER_DOWN
  | VMDIR_ERROR_CANNOT_CONNECT_VMDIR
  | MDB_ERROR
  | MDB_NOTFOUND
  | MDB_KEYEXIST
  | VMDIR_ERROR_BACKEND_OPERATIONS
  | VMDIR_ERROR_DATA_CONSTRAINT_VIOLATION
  | LDAP_UNWILLING_TO_PERFORM
  | VMDIR_ERROR_INSUFFICIENT_ACCESS
  | VMDIR_ERROR_UNAVAILABLE
  | VMDIR_ERROR_INTERNAL_SEARCH_LIMIT

type_synonym rc = "vmdir_error option"
type_synonym byte = "8 word"
type_synonym bytes = "byte list"

text \<open>Unsigned 32-bit and 64-bit arithmetic on \<open>nat\<close>, with the wrap-around written out.\<close>

definition wrap32 :: "nat \<Rightarrow> nat" where
  "wrap32 n = n mod 2 ^ 32"

definition wrap64 :: "nat \<Rightarrow> nat" where
  "wrap64 n = n mod 2 ^ 64"

named_theorems wrap_simps \<open>unsigned wrap-around below the bound\<close>

lemma wrap32_id [wrap_simps]: "n < 2 ^ 32 \<Longrightarrow> wrap32 n = n"
  by (simp add: wrap32_def)

lemma wrap64_id [wrap_simps]: "n < 2 ^ 64 \<Longrightarrow> wrap64 n = n"
  by (simp add: wrap64_def)

lemma wrap32_less [simp]: "wrap32 n < 2 ^ 32"
  by (simp add: wrap32_def)

lemma wrap64_less [simp]: "wrap64 n < 2 ^ 64"
  by (simp add: wrap64_def)

section \<open>Strings\<close>

definition to_lower :: "char \<Rightarrow> char" where
  "to_lower c = (if 65 \<le> (of_char c :: nat) \<and> (of_char c :: nat) \<le> 90 then char_of ((of_char c :: nat) + 32) else c)"

text \<open>Two strings compare as equal.\<close>

definition VmDirStringCompareA :: "string \<Rightarrow> string \<Rightarrow> bool \<Rightarrow> bool" where
  "VmDirStringCompareA a b bIsCaseSensitive \<longleftrightarrow> (if bIsCaseSensitive then a = b else map to_lower a = map to_lower b)"

section \<open>Lists\<close>

lemma drop_tl_snoc:
  assumes "xs \<noteq> []"
  shows "tl xs @ [x] = drop 1 (xs @ [x])"
  using assms by (cases xs) auto

lemma drop_append_le: "n \<le> length xs \<Longrightarrow> drop n xs @ ys = drop n (xs @ ys)"
  by simp

text \<open>Reading a block after \<open>length x\<close> bytes were stored at offset \<open>k\<close>.\<close>

lemma splice_before:
  "p + m \<le> k \<Longrightarrow> k \<le> length b \<Longrightarrow> take m (drop p (take k b @ r)) = take m (drop p b)"
  by (simp add: drop_take)

lemma splice_at: "k \<le> length b \<Longrightarrow> take (length x) (drop k (take k b @ x @ r)) = x"
  by simp

lemma splice_after:
  "k + length x \<le> p \<Longrightarrow> k \<le> length b \<Longrightarrow>
     drop p (take k b @ x @ drop (k + length x) b) = drop p b"
  by simp

lemma fold_snoc: "fold (\<lambda>x acc. acc @ [x]) xs ys = ys @ xs"
  by (induction xs arbitrary: ys) auto

lemma fold_last: "xs \<noteq> [] \<Longrightarrow> fold f xs s = f (last xs) (fold f (butlast xs) s)"
  by (induction xs arbitrary: s) auto

end
