(* ===== verification/Memory.thy ===== *)
theory Memory
  imports Prelude
begin

text \<open>
  The allocation wrappers of \<open>lwraft/common/memory.c\<close>. The C library's allocator is the
  parameter \<open>mem\<close>: \<open>mem n\<close> says that \<open>calloc\<close> or \<open>realloc\<close> of \<open>n\<close> bytes returns
  memory. The wrappers decide which error code a caller sees; the contents of a fresh block
  (zero bytes, since \<open>calloc\<close> clears it) are written out by the callers that use them.
\<close>

definition VmDirAllocateMemory :: "(nat \<Rightarrow> bool) \<Rightarrow> nat \<Rightarrow> rc" where
  "VmDirAllocateMemory mem dwSize =
     (if dwSize = 0 then Some ERROR_INVALID_PARAMETER
      else if \<not> mem dwSize then Some ERROR_NO_MEMORY
      else None)"

definition VmDirReallocateMemory :: "(nat \<Rightarrow> bool) \<Rightarrow> bool \<Rightarrow> nat \<Rightarrow> rc" where
  "VmDirReallocateMemory mem notnull dwSize =
     (if notnull then (if mem dwSize then None else Some ERROR_NO_MEMORY)
      else VmDirAllocateMemory mem dwSize)"

definition VmDirReallocateMemoryWithInit ::
  "(nat \<Rightarrow> bool) \<Rightarrow> bool \<Rightarrow> nat \<Rightarrow> nat \<Rightarrow> rc" where
  "VmDirReallocateMemoryWithInit mem notnull dwNewSize dwOldSize =
     (if dwNewSize < dwOldSize then Some ERROR_INVALID_PARAMETER
      else VmDirReallocateMemory mem notnull dwNewSize)"

definition VmDirAllocateAndCopyMemory :: "(nat \<Rightarrow> bool) \<Rightarrow> bytes \<Rightarrow> rc" where
  "VmDirAllocateAndCopyMemory mem blob =
     (if length blob < 1 then Some ERROR_INVALID_PARAMETER
      else VmDirAllocateMemory mem (length blob + 1))"

lemmas memory_defs =
  VmDirAllocateAndCopyMemory_def
  VmDirAllocateMemory_def VmDirReallocateMemory_def VmDirReallocateMemoryWithInit_def

lemma VmDirAllocateMemory_None:
  "VmDirAllocateMemory mem n = None \<longleftrightarrow> 0 < n \<and> mem n"
  by (auto simp: VmDirAllocateMemory_def)

end
