(* ===== verification/Circular_Buffer.thy ===== *)
theory Circular_Buffer
  imports Memory
begin

text \<open>
  The pre-allocated ring buffer of \<open>lwraft/common/circularbuffer.c\<close>. The record keeps the
  C structure's fields; the block behind \<open>CircularBuffer\<close> is a byte list, \<open>None\<close> for the
  null pointer. \<open>DWORD\<close> arithmetic wraps at 32 bits. The mutex has no field:
  reset, resizing and visiting hold it from their first access to their last, and the
  others leave locking to the caller, so one model step is one critical section.
\<close>

section \<open>The buffer and its operations\<close>

record circular_buffer =
  dwCapacity :: nat
  dwHead :: nat
  dwSize :: nat
  dwElementSize :: nat
  CircularBuffer :: "bytes option"

definition sizeof_circular_buffer :: nat where
  "sizeof_circular_buffer = 32"

text \<open>
  Creation. \<open>mtx\<close> is the result of allocating the mutex. When the size check or the
  allocation of the block fails, the code does not take its error path: it returns the error
  and the structure, with a null block.
\<close>

definition VmDirCircularBufferCreate ::
  "(nat \<Rightarrow> bool) \<Rightarrow> rc \<Rightarrow> nat \<Rightarrow> nat \<Rightarrow> rc \<times> circular_buffer option" where
  "VmDirCircularBufferCreate mem mtx cap esz =
     (case VmDirAllocateMemory mem sizeof_circular_buffer of
        Some e \<Rightarrow> (Some e, None)
      | None \<Rightarrow>
          (case mtx of
             Some e \<Rightarrow> (Some e, None)
           | None \<Rightarrow>
               (let dwBufferSize = wrap32 (cap * esz);
                    (err, buf) =
                      (if dwBufferSize \<noteq> 0 \<and> cap < dwBufferSize
                       then (case VmDirAllocateMemory mem dwBufferSize of
                               Some e \<Rightarrow> (Some e, None)
                             | None \<Rightarrow> (None, Some (replicate dwBufferSize 0)))
                       else (Some ERROR_INVALID_PARAMETER, None))
                in (err, Some \<lparr>dwCapacity = cap, dwHead = 0, dwSize = 0,
                               dwElementSize = esz, CircularBuffer = buf\<rparr>))))"

definition VmDirCircularBufferReset :: "circular_buffer \<Rightarrow> circular_buffer" where
  "VmDirCircularBufferReset cb = cb\<lparr>dwHead := 0, dwSize := 0\<rparr>"

definition VmDirCircularBufferGetSize :: "circular_buffer \<Rightarrow> nat" where
  "VmDirCircularBufferGetSize cb = dwSize cb"

definition VmDirCircularBufferGetCapacity :: "circular_buffer \<Rightarrow> nat" where
  "VmDirCircularBufferGetCapacity cb = dwCapacity cb"

text \<open>
  A new capacity. \<open>realloc\<close> keeps the old bytes up to the smaller size; the bytes past them
  are unspecified, so they are the parameter \<open>junk\<close>.
\<close>

definition VmDirCircularBufferSetCapacity ::
  "(nat \<Rightarrow> bool) \<Rightarrow> (nat \<Rightarrow> byte) \<Rightarrow> nat \<Rightarrow> circular_buffer \<Rightarrow> rc \<times> circular_buffer" where
  "VmDirCircularBufferSetCapacity mem junk cap cb =
     (let dwBufferSize = wrap32 (cap * dwElementSize cb) in
      if cap < dwBufferSize then
        (case VmDirReallocateMemory mem (CircularBuffer cb \<noteq> None) dwBufferSize of
           Some e \<Rightarrow> (Some e, cb)
         | None \<Rightarrow>
             (let old = (case CircularBuffer cb of None \<Rightarrow> replicate dwBufferSize 0 | Some b \<Rightarrow> b);
                  new = take dwBufferSize (old @ map junk [length old..<dwBufferSize])
              in (None, cb\<lparr>dwCapacity := cap, dwHead := 0, dwSize := 0,
                          CircularBuffer := Some new\<rparr>)))
      else (Some ERROR_INVALID_PARAMETER, cb))"

definition VmDirCircularBufferGetElementAtIndex :: "circular_buffer \<Rightarrow> nat \<Rightarrow> nat" where
  "VmDirCircularBufferGetElementAtIndex cb dwIndex = wrap32 (dwIndex * dwElementSize cb)"

text \<open>The slot for the next entry, as an offset into the block; \<open>None\<close> is a failed assertion.\<close>

definition VmDirCircularBufferGetNextEntry ::
  "circular_buffer \<Rightarrow> (nat \<times> circular_buffer) option" where
  "VmDirCircularBufferGetNextEntry cb =
     (if dwHead cb < dwCapacity cb \<and> dwSize cb \<le> dwCapacity cb then
        (let dwIndex = dwHead cb;
             cb' = cb\<lparr>dwHead := wrap32 (dwHead cb + 1) mod dwCapacity cb,
                      dwSize := min (wrap32 (dwSize cb + 1)) (dwCapacity cb)\<rparr>
         in if dwHead cb' < dwCapacity cb' \<and> dwSize cb' \<le> dwCapacity cb' \<and>
               dwIndex < dwCapacity cb' \<and> dwIndex < dwSize cb'
            then Some (VmDirCircularBufferGetElementAtIndex cb' dwIndex, cb')
            else None)
      else None)"

definition VmDirCircularBufferGetStartIndex :: "circular_buffer \<Rightarrow> nat" where
  "VmDirCircularBufferGetStartIndex cb =
     (if dwSize cb < dwCapacity cb then 0 else dwHead cb)"

text \<open>
  The bytes of the element at an offset, and the caller's store into the slot it was given:
  \<open>None\<close> when the access leaves the block.
\<close>

definition cb_load :: "circular_buffer \<Rightarrow> nat \<Rightarrow> bytes option" where
  "cb_load cb off =
     (case CircularBuffer cb of
        None \<Rightarrow> None
      | Some b \<Rightarrow> if off + dwElementSize cb \<le> length b
                  then Some (take (dwElementSize cb) (drop off b)) else None)"

definition cb_store :: "circular_buffer \<Rightarrow> nat \<Rightarrow> bytes \<Rightarrow> circular_buffer option" where
  "cb_store cb off x =
     (case CircularBuffer cb of
        None \<Rightarrow> None
      | Some b \<Rightarrow> if off + length x \<le> length b
                  then Some (cb\<lparr>CircularBuffer := Some (take off b @ x @ drop (off + length x) b)\<rparr>)
                  else None)"

text \<open>
  Visiting the stored elements. The callback gets the element's bytes and its context, and
  returns whether to go on together with the context it leaves.
\<close>

fun cb_select_loop ::
  "circular_buffer \<Rightarrow> (bytes \<Rightarrow> 'c \<Rightarrow> bool \<times> 'c) \<Rightarrow> nat \<Rightarrow> nat \<Rightarrow> 'c \<Rightarrow> 'c option" where
  "cb_select_loop cb f 0 i ctx = Some ctx"
| "cb_select_loop cb f (Suc n) i ctx =
     (case cb_load cb (VmDirCircularBufferGetElementAtIndex cb i) of
        None \<Rightarrow> None
      | Some x \<Rightarrow>
          (let i' = (if i + 1 = dwCapacity cb then 0 else i + 1);
               (go, ctx') = f x ctx
           in if go then cb_select_loop cb f n i' ctx' else Some ctx'))"

definition VmDirCircularBufferSelectElements ::
  "circular_buffer \<Rightarrow> nat \<Rightarrow> (bytes \<Rightarrow> 'c \<Rightarrow> bool \<times> 'c) \<Rightarrow> 'c \<Rightarrow> 'c option" where
  "VmDirCircularBufferSelectElements cb dwCount f ctx =
     (let n = (if dwCount = 0 then dwSize cb else min dwCount (dwSize cb))
      in cb_select_loop cb f n (VmDirCircularBufferGetStartIndex cb) ctx)"

text \<open>How a caller appends an entry: it asks for the next slot and fills it.\<close>

definition cb_append :: "bytes \<Rightarrow> circular_buffer \<Rightarrow> circular_buffer option" where
  "cb_append x cb =
     (case VmDirCircularBufferGetNextEntry cb of
        None \<Rightarrow> None
      | Some (off, cb') \<Rightarrow> cb_store cb' off x)"

fun cb_append_all :: "bytes list \<Rightarrow> circular_buffer \<Rightarrow> circular_buffer option" where
  "cb_append_all [] cb = Some cb"
| "cb_append_all (x # xs) cb =
     (case cb_append x cb of None \<Rightarrow> None | Some cb' \<Rightarrow> cb_append_all xs cb')"

section \<open>Invariant and abstraction\<close>

text \<open>
  A usable buffer: the block holds exactly \<open>dwCapacity\<close> elements, the product does not
  wrap, and until the buffer has filled once the head is the number of stored elements.
\<close>

definition cb_inv :: "circular_buffer \<Rightarrow> bool" where
  "cb_inv cb \<longleftrightarrow>
     1 < dwElementSize cb \<and> dwCapacity cb * dwElementSize cb < 2 ^ 32 \<and>
     (\<exists>b. CircularBuffer cb = Some b \<and> length b = dwCapacity cb * dwElementSize cb) \<and>
     dwHead cb < dwCapacity cb \<and> dwSize cb \<le> dwCapacity cb \<and>
     (dwSize cb < dwCapacity cb \<longrightarrow> dwHead cb = dwSize cb)"

definition cb_slot :: "circular_buffer \<Rightarrow> nat \<Rightarrow> bytes" where
  "cb_slot cb i = take (dwElementSize cb) (drop (i * dwElementSize cb) (the (CircularBuffer cb)))"

text \<open>The stored elements, oldest first.\<close>

definition cb_elems :: "circular_buffer \<Rightarrow> bytes list" where
  "cb_elems cb =
     map (\<lambda>k. cb_slot cb ((VmDirCircularBufferGetStartIndex cb + k) mod dwCapacity cb))
       [0..<dwSize cb]"

lemma slot_end_le: "i < (c::nat) \<Longrightarrow> i * e + e \<le> c * e"
  by (metis Suc_leI add.commute mult_Suc mult_le_mono1)

lemma cb_inv_offset:
  assumes "cb_inv cb" and "i < dwCapacity cb"
  shows "VmDirCircularBufferGetElementAtIndex cb i = i * dwElementSize cb"
proof -
  have "i * dwElementSize cb + dwElementSize cb \<le> dwCapacity cb * dwElementSize cb"
    using assms(2) by (rule slot_end_le)
  with assms(1) have "i * dwElementSize cb < 2 ^ 32"
    by (auto simp: cb_inv_def)
  then show ?thesis
    by (simp add: VmDirCircularBufferGetElementAtIndex_def wrap_simps)
qed

lemma cb_inv_load:
  assumes "cb_inv cb" and "i < dwCapacity cb"
  shows "cb_load cb (VmDirCircularBufferGetElementAtIndex cb i) = Some (cb_slot cb i)"
  using assms slot_end_le [OF assms(2), of "dwElementSize cb"]
  by (auto simp: cb_inv_offset cb_load_def cb_slot_def cb_inv_def)

lemma cb_inv_capacity_bound: "cb_inv cb \<Longrightarrow> dwCapacity cb < 2 ^ 31"
proof -
  assume inv: "cb_inv cb"
  then have "dwCapacity cb * 2 \<le> dwCapacity cb * dwElementSize cb"
    by (intro mult_le_mono2) (auto simp: cb_inv_def)
  also have "\<dots> < 2 ^ 32"
    using inv by (simp add: cb_inv_def)
  finally show ?thesis
    by simp
qed

text \<open>The next entry never trips an assertion, and its slot is the one at the old head.\<close>

lemma cb_next_entry:
  assumes "cb_inv cb"
  shows "VmDirCircularBufferGetNextEntry cb =
           Some (dwHead cb * dwElementSize cb,
                 cb\<lparr>dwHead := (dwHead cb + 1) mod dwCapacity cb,
                    dwSize := min (dwSize cb + 1) (dwCapacity cb)\<rparr>)"
proof -
  note bound = cb_inv_capacity_bound [OF assms]
  have h: "wrap32 (dwHead cb + 1) = dwHead cb + 1" "wrap32 (dwSize cb + 1) = dwSize cb + 1"
    using assms bound by (auto simp: cb_inv_def wrap_simps)
  have idx: "VmDirCircularBufferGetElementAtIndex cb (dwHead cb) = dwHead cb * dwElementSize cb"
    using assms by (auto intro: cb_inv_offset simp: cb_inv_def)
  have lt: "dwHead cb < min (dwSize cb + 1) (dwCapacity cb)"
    using assms by (auto simp: cb_inv_def)
  have facts: "dwHead cb < dwCapacity cb" "dwSize cb \<le> dwCapacity cb"
    using assms by (auto simp: cb_inv_def)
  have idx': "VmDirCircularBufferGetElementAtIndex
                (cb\<lparr>dwHead := a, dwSize := b\<rparr>) (dwHead cb) = dwHead cb * dwElementSize cb" for a b
    using idx by (simp add: VmDirCircularBufferGetElementAtIndex_def)
  have "(dwHead cb + 1) mod dwCapacity cb < dwCapacity cb"
    using facts by (intro mod_less_divisor) auto
  then show ?thesis
    using lt facts
    by (simp add: VmDirCircularBufferGetNextEntry_def h [simplified] idx' Let_def)
qed

section \<open>Appending refines the list of the newest entries\<close>

lemma cb_append_some:
  assumes "cb_inv cb" and "length x = dwElementSize cb"
  shows "cb_append x cb =
           Some (cb\<lparr>dwHead := (dwHead cb + 1) mod dwCapacity cb,
                    dwSize := min (dwSize cb + 1) (dwCapacity cb),
                    CircularBuffer := Some (take (dwHead cb * dwElementSize cb) (the (CircularBuffer cb)) @ x @
                       drop (dwHead cb * dwElementSize cb + dwElementSize cb) (the (CircularBuffer cb)))\<rparr>)"
proof -
  have "dwHead cb * dwElementSize cb + dwElementSize cb \<le> dwCapacity cb * dwElementSize cb"
    using assms(1) by (intro slot_end_le) (simp add: cb_inv_def)
  then show ?thesis
    using assms by (auto simp: cb_append_def cb_next_entry cb_store_def cb_inv_def)
qed

lemma cb_append_inv:
  assumes "cb_inv cb" and "length x = dwElementSize cb" and "cb_append x cb = Some cb'"
  shows "cb_inv cb'" and "dwCapacity cb' = dwCapacity cb" and "dwElementSize cb' = dwElementSize cb"
proof -
  have le: "dwHead cb * dwElementSize cb + dwElementSize cb \<le> dwCapacity cb * dwElementSize cb"
    using assms(1) by (intro slot_end_le) (simp add: cb_inv_def)
  note eq = assms(3) [unfolded cb_append_some [OF assms(1,2)], simplified, symmetric]
  show "dwCapacity cb' = dwCapacity cb" and "dwElementSize cb' = dwElementSize cb"
    by (simp_all add: eq)
  from assms(1) have "(dwHead cb + 1) mod dwCapacity cb < dwCapacity cb"
    by (intro mod_less_divisor) (auto simp: cb_inv_def)
  then show "cb_inv cb'"
    using assms(1,2) le by (auto simp: eq cb_inv_def min_def)
qed

lemma cb_append_slot:
  assumes "cb_inv cb" and "length x = dwElementSize cb" and "cb_append x cb = Some cb'"
    and "i < dwCapacity cb"
  shows "cb_slot cb' i = (if i = dwHead cb then x else cb_slot cb i)"
proof -
  let ?e = "dwElementSize cb" and ?h = "dwHead cb"
  obtain b where b: "CircularBuffer cb = Some b" "length b = dwCapacity cb * ?e"
    using assms(1) by (auto simp: cb_inv_def)
  have he: "?h * ?e + ?e \<le> length b"
    using assms(1) b by (auto simp: cb_inv_def intro: slot_end_le)
  have hb: "?h * ?e \<le> length b"
    using he by simp
  have slot: "cb_slot cb' i = take ?e (drop (i * ?e) (take (?h * ?e) b @ x @ drop (?h * ?e + length x) b))"
    using assms(3) [unfolded cb_append_some [OF assms(1,2)]]
    by (auto simp: cb_slot_def b(1) assms(2))
  consider "i < ?h" | "i = ?h" | "?h < i" by linarith
  then show ?thesis
  proof cases
    case 1
    then show ?thesis
      unfolding slot cb_slot_def [of cb] b(1) by (subst splice_before [OF slot_end_le hb]) simp_all
  next
    case 2
    then show ?thesis
      using splice_at [OF hb, of x] unfolding slot by (simp add: assms(2) [symmetric] del: drop_append)
  next
    case 3
    then show ?thesis
      unfolding slot cb_slot_def [of cb] b(1) assms(2) [symmetric]
      by (subst splice_after) (use hb in \<open>simp_all add: assms(2) slot_end_le\<close>)
  qed
qed

lemma cb_elems_partial:
  assumes "cb_inv cb" and "dwSize cb < dwCapacity cb"
  shows "cb_elems cb = map (cb_slot cb) [0..<dwSize cb]"
  using assms by (auto simp: cb_elems_def VmDirCircularBufferGetStartIndex_def)

lemma cb_elems_full:
  assumes "dwSize cb = dwCapacity cb"
  shows "cb_elems cb = map (\<lambda>k. cb_slot cb ((dwHead cb + k) mod dwCapacity cb)) [0..<dwCapacity cb]"
  using assms by (simp add: cb_elems_def VmDirCircularBufferGetStartIndex_def)

lemma length_cb_elems [simp]: "length (cb_elems cb) = dwSize cb"
  by (simp add: cb_elems_def)

lemma ring_succ_ne: "Suc k < (c::nat) \<Longrightarrow> h < c \<Longrightarrow> (h + Suc k) mod c \<noteq> h"
  by (auto simp: mod_if)

lemma cb_append_elems_partial:
  assumes inv: "cb_inv cb" and x: "length x = dwElementSize cb"
    and app: "cb_append x cb = Some cb'" and part: "dwSize cb < dwCapacity cb"
  shows "cb_elems cb' = cb_elems cb @ [x]"
proof -
  let ?s = "dwSize cb" and ?c = "dwCapacity cb"
  have h: "dwHead cb = ?s"
    using inv part by (simp add: cb_inv_def)
  note slot = cb_append_slot [OF inv x app]
  note eq = app [unfolded cb_append_some [OF inv x], simplified, symmetric]
  have slots: "map (cb_slot cb') [0..<Suc ?s] = cb_elems cb @ [x]"
    using part by (auto simp: cb_elems_partial [OF inv part] slot h)
  have size: "dwSize cb' = Suc ?s" "dwCapacity cb' = ?c"
    using part by (simp_all add: eq)
  show ?thesis
  proof (cases "Suc ?s < ?c")
    case True
    then show ?thesis
      using cb_elems_partial [OF cb_append_inv(1) [OF inv x app]] slots size by simp
  next
    case False
    then have "Suc ?s = ?c" using part by simp
    then have "dwHead cb' = 0" by (simp add: eq h)
    then have "cb_elems cb' = map (cb_slot cb') [0..<?c]"
      using size \<open>Suc ?s = ?c\<close> by (auto simp: cb_elems_full)
    then show ?thesis
      using slots \<open>Suc ?s = ?c\<close> by simp
  qed
qed

lemma cb_append_elems_full:
  assumes inv: "cb_inv cb" and x: "length x = dwElementSize cb"
    and app: "cb_append x cb = Some cb'" and full: "dwSize cb = dwCapacity cb"
  shows "cb_elems cb' = tl (cb_elems cb) @ [x]"
proof -
  let ?c = "dwCapacity cb" and ?h = "dwHead cb"
  have h: "?h < ?c"
    using inv by (simp add: cb_inv_def)
  note slot = cb_append_slot [OF inv x app]
  note eq = app [unfolded cb_append_some [OF inv x], simplified, symmetric]
  have size: "dwSize cb' = ?c" "dwCapacity cb' = ?c" "dwHead cb' = Suc ?h mod ?c"
    using full h by (simp_all add: eq)
  have lt: "(?h + k) mod ?c < ?c" for k
    using h by simp
  have cb': "cb_elems cb' = map (\<lambda>k. cb_slot cb' ((?h + Suc k) mod ?c)) [0..<?c]"
    using size by (simp add: cb_elems_full mod_simps)
  obtain d where d: "?c = Suc d"
    using h by (cases ?c) auto
  have new: "cb_slot cb' ((?h + Suc d) mod ?c) = x"
    using slot [of ?h] h by (simp add: d [symmetric])
  have old: "cb_slot cb' ((?h + Suc k) mod ?c) = cb_slot cb ((?h + Suc k) mod ?c)" if "k < d" for k
    using slot [OF lt, of "Suc k"] ring_succ_ne [of k ?c ?h] that d h by simp
  have "cb_elems cb' = map (\<lambda>k. cb_slot cb ((?h + Suc k) mod ?c)) [0..<d] @ [x]"
    unfolding cb' using new old d by simp
  moreover have "tl (cb_elems cb) = map (\<lambda>k. cb_slot cb ((?h + Suc k) mod ?c)) [0..<d]"
    unfolding cb_elems_full [OF full] d
    by (simp only: map_tl [symmetric] tl_upt map_Suc_upt [symmetric] map_map o_def)
  ultimately show ?thesis by simp
qed

text \<open>One append: the stored list keeps its last \<open>dwCapacity\<close> elements.\<close>

lemma cb_append_refines:
  assumes inv: "cb_inv cb" and x: "length x = dwElementSize cb"
  obtains cb' where "cb_append x cb = Some cb'" and "cb_inv cb'"
    and "dwCapacity cb' = dwCapacity cb" and "dwElementSize cb' = dwElementSize cb"
    and "cb_elems cb' = drop (Suc (dwSize cb) - dwCapacity cb) (cb_elems cb @ [x])"
    and "dwSize cb' = min (Suc (dwSize cb)) (dwCapacity cb)"
proof -
  obtain cb' where app: "cb_append x cb = Some cb'" and
      sz: "dwSize cb' = min (Suc (dwSize cb)) (dwCapacity cb)"
    using cb_append_some [OF inv x] by simp
  have "dwSize cb \<le> dwCapacity cb" "0 < dwCapacity cb"
    using inv by (auto simp: cb_inv_def)
  then consider "dwSize cb < dwCapacity cb" | "dwSize cb = dwCapacity cb" "cb_elems cb \<noteq> []"
    by (cases "dwSize cb < dwCapacity cb") (auto simp flip: length_greater_0_conv)
  then have "cb_elems cb' = drop (Suc (dwSize cb) - dwCapacity cb) (cb_elems cb @ [x])"
  proof cases
    case 1
    then show ?thesis
      using cb_append_elems_partial [OF inv x app] by simp
  next
    case 2
    then show ?thesis
      using cb_append_elems_full [OF inv x app] drop_tl_snoc [of "cb_elems cb" x] by simp
  qed
  then show thesis
    using that [OF app] cb_append_inv [OF inv x app] sz by blast
qed

lemma cb_append_all_refines:
  assumes "cb_inv cb" and "\<forall>x \<in> set xs. length x = dwElementSize cb"
  shows "\<exists>cb'. cb_append_all xs cb = Some cb' \<and> cb_inv cb' \<and> dwCapacity cb' = dwCapacity cb \<and>
           cb_elems cb' = drop (dwSize cb + length xs - dwCapacity cb) (cb_elems cb @ xs)"
  using assms
proof (induction xs arbitrary: cb)
  case Nil
  then show ?case by (simp add: cb_inv_def)
next
  case (Cons x xs)
  from Cons.prems have x: "length x = dwElementSize cb" by simp
  obtain cb1 where one: "cb_append x cb = Some cb1" "cb_inv cb1" "dwCapacity cb1 = dwCapacity cb"
      "dwElementSize cb1 = dwElementSize cb"
      "cb_elems cb1 = drop (Suc (dwSize cb) - dwCapacity cb) (cb_elems cb @ [x])"
      "dwSize cb1 = min (Suc (dwSize cb)) (dwCapacity cb)"
    by (rule cb_append_refines [OF Cons.prems(1) x])
  have "\<forall>x \<in> set xs. length x = dwElementSize cb1"
    using Cons.prems(2) one(4) by simp
  from Cons.IH [OF one(2) this] obtain cb' where rest: "cb_append_all xs cb1 = Some cb'" "cb_inv cb'"
      "dwCapacity cb' = dwCapacity cb1"
      "cb_elems cb' = drop (dwSize cb1 + length xs - dwCapacity cb1) (cb_elems cb1 @ xs)"
    by blast
  have "cb_elems cb1 @ xs = drop (Suc (dwSize cb) - dwCapacity cb) ((cb_elems cb @ [x]) @ xs)"
    unfolding one(5) by (rule drop_append_le) simp
  then have "cb_elems cb1 @ xs = drop (Suc (dwSize cb) - dwCapacity cb) (cb_elems cb @ x # xs)"
    by (simp only: append.assoc append_Cons append_Nil)
  moreover have "dwSize cb1 + length xs - dwCapacity cb1 + (Suc (dwSize cb) - dwCapacity cb) =
      dwSize cb + length (x # xs) - dwCapacity cb"
    by (auto simp: one(3,6) min_def)
  ultimately have "cb_elems cb' = drop (dwSize cb + length (x # xs) - dwCapacity cb) (cb_elems cb @ x # xs)"
    unfolding rest(4) by (simp only: drop_drop)
  then show ?case
    using one(1,3) rest(1-3) by simp
qed

section \<open>Creation and visiting\<close>

lemma cb_create_inv:
  assumes "VmDirCircularBufferCreate mem mtx cap esz = (None, Some cb)" and "cap * esz < 2 ^ 32"
  shows "cb_inv cb" and "cb_elems cb = []" and "dwCapacity cb = cap" and "dwElementSize cb = esz"
proof -
  have w: "wrap32 (cap * esz) = cap * esz"
    using assms(2) by (rule wrap32_id)
  have cb: "cb = \<lparr>dwCapacity = cap, dwHead = 0, dwSize = 0, dwElementSize = esz,
                   CircularBuffer = Some (replicate (cap * esz) 0)\<rparr>" and lt: "cap < cap * esz"
    using assms(1)
    by (auto simp: VmDirCircularBufferCreate_def w Let_def split: option.splits if_splits)
  from lt have "0 < cap" and "1 < esz"
    by (simp_all add: less_Suc_eq_0_disj)
  then show "cb_inv cb"
    using assms(2) by (simp add: cb_inv_def cb)
  show "cb_elems cb = []" and "dwCapacity cb = cap" and "dwElementSize cb = esz"
    by (simp_all add: cb cb_elems_def)
qed

lemma cb_create_ok:
  assumes "cap < wrap32 (cap * esz)"
  shows "VmDirCircularBufferCreate (\<lambda>_. True) None cap esz =
           (None, Some \<lparr>dwCapacity = cap, dwHead = 0, dwSize = 0, dwElementSize = esz,
                        CircularBuffer = Some (replicate (wrap32 (cap * esz)) 0)\<rparr>)"
  using assms by (auto simp: VmDirCircularBufferCreate_def memory_defs sizeof_circular_buffer_def Let_def)

text \<open>What a visit computes on a list of elements: the callback runs until it says stop.\<close>

fun select_spec :: "(bytes \<Rightarrow> 'c \<Rightarrow> bool \<times> 'c) \<Rightarrow> bytes list \<Rightarrow> 'c \<Rightarrow> 'c" where
  "select_spec f [] ctx = ctx"
| "select_spec f (x # xs) ctx = (case f x ctx of (go, ctx') \<Rightarrow> if go then select_spec f xs ctx' else ctx')"

lemma cb_select_loop_spec:
  assumes "cb_inv cb" and "i < dwCapacity cb"
  shows "cb_select_loop cb f n i ctx =
           Some (select_spec f (map (\<lambda>k. cb_slot cb ((i + k) mod dwCapacity cb)) [0..<n]) ctx)"
  using assms(2)
proof (induction n arbitrary: i ctx)
  case 0
  then show ?case by simp
next
  case (Suc n)
  let ?c = "dwCapacity cb"
  define j where "j = (if i + 1 = ?c then 0 else i + 1)"
  have j: "j < ?c" "(j + k) mod ?c = (i + Suc k) mod ?c" for k
    using Suc.prems by (auto simp: j_def add_Suc [symmetric] simp del: add_Suc)
  have "map (\<lambda>k. cb_slot cb ((i + k) mod ?c)) [0..<Suc n] =
          cb_slot cb i # map (\<lambda>k. cb_slot cb ((j + k) mod ?c)) [0..<n]"
    using Suc.prems unfolding j(2) by (simp add: map_upt_Suc del: upt_Suc)
  moreover have "cb_select_loop cb f (Suc n) i ctx =
      (case f (cb_slot cb i) ctx of
         (go, ctx') \<Rightarrow> if go then cb_select_loop cb f n j ctx' else Some ctx')"
    unfolding j_def using Suc.prems by (simp add: cb_inv_load [OF assms(1)] Let_def)
  ultimately show ?case
    using Suc.IH [OF j(1)] by (simp split: prod.split)
qed

text \<open>
  C13. Appending to a ring buffer never trips an assertion or leaves the block, and the stored
  elements, oldest first, are then the last \<open>dwCapacity\<close> elements of what was stored
  followed by what was appended.
\<close>

theorem circular_buffer_keeps_newest:
  assumes "VmDirCircularBufferCreate mem mtx cap esz = (None, Some cb)" and "cap * esz < 2 ^ 32"
    and "\<forall>x \<in> set xs. length x = esz"
  shows "\<exists>cb'. cb_append_all xs cb = Some cb' \<and> cb_elems cb' = drop (length xs - cap) xs"
proof -
  note new = cb_create_inv [OF assms(1,2)]
  have "dwSize cb = 0"
    using new(2) length_cb_elems [of cb] by simp
  then show ?thesis
    using cb_append_all_refines [OF new(1)] assms(3) new by fastforce
qed

theorem circular_buffer_keeps_newest_witness:
  "let cb = \<lparr>dwCapacity = 2, dwHead = 0, dwSize = 0, dwElementSize = 2,
             CircularBuffer = Some [0, 0, 0, 0]\<rparr>
   in VmDirCircularBufferCreate (\<lambda>_. True) None 2 2 = (None, Some cb) \<and>
      (\<exists>cb'. cb_append_all [[1, 1], [2, 2], [3, 3]] cb = Some cb' \<and>
             cb_elems cb' = [[2, 2], [3, 3]])"
proof -
  let ?cb = "\<lparr>dwCapacity = 2, dwHead = 0, dwSize = 0, dwElementSize = 2,
              CircularBuffer = Some [0, 0, 0, 0]\<rparr>"
  have w: "wrap32 (2 * 2) = 4" and r: "replicate 4 (0 :: byte) = [0, 0, 0, 0]"
    by (simp add: wrap32_def) (simp add: numeral_eq_Suc)
  have "VmDirCircularBufferCreate (\<lambda>_. True) None 2 2 = (None, Some ?cb)"
    using cb_create_ok [of 2 2] unfolding w r by simp
  then show ?thesis
    using circular_buffer_keeps_newest [of "\<lambda>_. True" None 2 2 ?cb "[[1, 1], [2, 2], [3, 3]]"]
    by simp
qed



text \<open>
  The guard against an overflowing size is not sufficient: a creation whose product
  wraps modulo \<open>2 ^ 32\<close> can succeed, and its block is then too short for the capacity that
  is recorded.
\<close>

theorem create_overflow_accepted:
  "\<exists>cap esz cb. VmDirCircularBufferCreate (\<lambda>_. True) None cap esz = (None, Some cb) \<and>
     dwCapacity cb = cap \<and> length (the (CircularBuffer cb)) < cap * esz"
proof -
  have w: "wrap32 (0x10001 * 0x10001) = 0x20001"
    by (simp add: wrap32_def)
  then show ?thesis
    using cb_create_ok [of "0x10001" "0x10001", unfolded w]
    by (intro exI [of _ "0x10001"] exI conjI)
       (simp_all only: circular_buffer.simps option.sel length_replicate, simp_all)
qed

end
