(* ===== verification/Dl_Segment.thy ===== *)
theory Dl_Segment
  imports Memory
begin

text \<open>
  Doubly linked nodes in an explicit heap, as \<open>common/deque.c\<close> and \<open>common/linkedlist.c\<close>
  build them: the node record, the predicate that a list of address and element pairs is laid
  out as a doubly linked segment, and how a store or a free changes it. Addresses are numbers,
  \<open>None\<close> is the null pointer, and an address outside the domain of the heap is not allocated.
\<close>

type_synonym addr = nat

text \<open>\<open>size_t\<close> decrement, which wraps at zero.\<close>

definition size_dec :: "nat \<Rightarrow> nat" where
  "size_dec n = wrap64 (n + (2 ^ 64 - 1))"

lemma size_dec_Suc: "size_dec (wrap64 (Suc n)) = wrap64 n"
proof -
  have "(Suc n + (2 ^ 64 - 1)) mod 2 ^ 64 = n mod (2 ^ 64 :: nat)"
    by (simp add: mod_if)
  then show ?thesis
    by (simp add: size_dec_def wrap64_def mod_simps del: add_Suc)
qed

lemma wrap64_Suc: "wrap64 (Suc (wrap64 n)) = wrap64 (Suc n)"
  by (simp add: wrap64_def mod_simps)

record 'a dl_node =
  pElement :: 'a
  pPrev :: "addr option"
  pNext :: "addr option"

type_synonym ('a, 'z) dl_heap = "addr \<rightharpoonup> ('a, 'z) dl_node_scheme"

fun seg_first :: "(addr \<times> 'a) list \<Rightarrow> addr option \<Rightarrow> addr option" where
  "seg_first [] q = q"
| "seg_first ((a, x) # ps) q = Some a"

definition seg_last :: "addr option \<Rightarrow> (addr \<times> 'a) list \<Rightarrow> addr option" where
  "seg_last p ps = (if ps = [] then p else Some (fst (last ps)))"

fun dlseg ::
  "('a, 'z) dl_heap \<Rightarrow> addr option \<Rightarrow> (addr \<times> 'a) list \<Rightarrow> addr option \<Rightarrow> bool" where
  "dlseg h p [] q \<longleftrightarrow> True"
| "dlseg h p ((a, x) # ps) q \<longleftrightarrow>
     (\<exists>n. h a = Some n \<and> pElement n = x \<and> pPrev n = p \<and> pNext n = seg_first ps q) \<and>
     dlseg h (Some a) ps q"

lemma seg_last_simps [simp]:
  "seg_last p [] = p"
  "seg_last p (ps @ [(a, x)]) = Some a"
  "seg_last p ((a, x) # ps) = seg_last (Some a) ps"
  by (auto simp: seg_last_def)

lemma seg_last_append [simp]: "seg_last p (ps @ rs) = seg_last (seg_last p ps) rs"
  by (induction ps arbitrary: p) auto

lemma seg_first_append [simp]: "seg_first (ps @ rs) q = seg_first ps (seg_first rs q)"
  by (cases ps) auto

lemma seg_first_None [simp]: "seg_first ps None = None \<longleftrightarrow> ps = []"
  by (cases ps) auto

lemma seg_last_None [simp]: "seg_last None ps = None \<longleftrightarrow> ps = []"
  by (simp add: seg_last_def)

lemma seg_first_Some: "seg_first ps None = Some a \<longleftrightarrow> (\<exists>x rs. ps = (a, x) # rs)"
  by (cases ps) auto

lemma seg_last_Some: "seg_last None ps = Some a \<longleftrightarrow> (\<exists>x rs. ps = rs @ [(a, x)])"
  by (cases ps rule: rev_cases) auto

lemma dlseg_append [simp]:
  "dlseg h p (ps @ rs) q \<longleftrightarrow> dlseg h p ps (seg_first rs q) \<and> dlseg h (seg_last p ps) rs q"
  by (induction ps arbitrary: p) auto

lemma dlseg_frame [simp]:
  "a \<notin> fst ` set ps \<Longrightarrow> dlseg (h(a := n)) p ps q = dlseg h p ps q"
  by (induction ps arbitrary: p) auto

lemma dlseg_dom: "dlseg h p ps q \<Longrightarrow> fst ` set ps \<subseteq> dom h"
  by (induction ps arbitrary: p) fastforce+

text \<open>The heap without the cells of a segment.\<close>

definition heap_minus :: "('a, 'z) dl_heap \<Rightarrow> addr set \<Rightarrow> ('a, 'z) dl_heap" where
  "heap_minus h A = h |` (- A)"

lemma heap_minus_upd_in [simp]: "a \<in> A \<Longrightarrow> heap_minus (h(a := n)) A = heap_minus h A"
  by (auto simp: heap_minus_def restrict_map_def)

lemma heap_minus_free [simp]: "heap_minus (h(a := None)) A = heap_minus h (insert a A)"
  by (auto simp: heap_minus_def restrict_map_def)

lemma heap_minus_fresh: "h a = None \<Longrightarrow> heap_minus h (insert a A) = heap_minus h A"
  by (auto simp: heap_minus_def restrict_map_def fun_eq_iff)

lemma heap_minus_single: "heap_minus h {a} = h(a := None)"
  by (auto simp: heap_minus_def restrict_map_def)

lemma heap_minus_empty [simp]: "heap_minus h {} = h"
  by (simp add: heap_minus_def restrict_map_def)

end
