(* ===== verification/Linked_List.thy ===== *)
theory Linked_List
  imports Dl_Segment
begin

text \<open>
  The linked list of \<open>lwraft/common/linkedlist.c\<close>, on the heap of nodes of \<open>Dl_Segment\<close>. A
  node's \<open>pNext\<close> leads towards the head and its \<open>pPrev\<close> towards the tail, so the segment that
  represents a list starts at the tail. \<open>self\<close> is the address of the list structure, which
  every node records; the allocator is the parameter \<open>ma\<close>, and the outer \<open>None\<close> of a result is
  an access to memory that is not allocated.
\<close>

section \<open>The structure and its operations\<close>

record 'a ll_node = "'a dl_node" +
  pList :: addr

record linked_list =
  ll_pHead :: "addr option"
  ll_pTail :: "addr option"
  ll_iSize :: nat

type_synonym 'a ll_heap = "addr \<rightharpoonup> 'a ll_node"

definition VmDirLinkedListCreate :: "bool \<Rightarrow> bool \<Rightarrow> rc \<times> linked_list option" where
  "VmDirLinkedListCreate ppLinkedList mem_ok =
     (if \<not> ppLinkedList then (Some ERROR_INVALID_PARAMETER, None)
      else case VmDirAllocateMemory (\<lambda>_. mem_ok) 24 of
             Some e \<Rightarrow> (Some e, None)
           | None \<Rightarrow> (None, Some \<lparr>ll_pHead = None, ll_pTail = None, ll_iSize = 0\<rparr>))"

definition VmDirLinkedListGetHead :: "bool \<Rightarrow> linked_list option \<Rightarrow> rc \<times> addr option" where
  "VmDirLinkedListGetHead pp l =
     (case (pp, l) of
        (True, Some q) \<Rightarrow> (None, ll_pHead q)
      | _ \<Rightarrow> (Some ERROR_INVALID_PARAMETER, None))"

definition VmDirLinkedListGetTail :: "bool \<Rightarrow> linked_list option \<Rightarrow> rc \<times> addr option" where
  "VmDirLinkedListGetTail pp l =
     (case (pp, l) of
        (True, Some q) \<Rightarrow> (None, ll_pTail q)
      | _ \<Rightarrow> (Some ERROR_INVALID_PARAMETER, None))"

text \<open>The node an insertion hands back is the third component, \<open>None\<close> on the error paths.\<close>

definition VmDirLinkedListInsertHead ::
  "addr \<Rightarrow> addr option \<Rightarrow> 'a option \<Rightarrow> 'a ll_heap \<Rightarrow> linked_list option \<Rightarrow>
     (rc \<times> addr option \<times> 'a ll_heap \<times> linked_list option) option" where
  "VmDirLinkedListInsertHead self ma e h l =
     (case (l, e) of
        (Some q, Some x) \<Rightarrow>
          (case ma of
             None \<Rightarrow> Some (Some ERROR_NO_MEMORY, None, h, l)
           | Some a \<Rightarrow>
               (let nd = \<lparr>pElement = x, pPrev = None, pNext = None, pList = self\<rparr>;
                    sz = wrap64 (ll_iSize q + 1)
                in case ll_pHead q of
                     Some t \<Rightarrow>
                       (case h t of
                          None \<Rightarrow> None
                        | Some n \<Rightarrow>
                            Some (None, Some a,
                              h(a \<mapsto> nd\<lparr>pPrev := Some t\<rparr>, t \<mapsto> n\<lparr>pNext := Some a\<rparr>),
                              Some (q\<lparr>ll_pHead := Some a, ll_iSize := sz\<rparr>)))
                   | None \<Rightarrow>
                       Some (None, Some a, h(a \<mapsto> nd),
                         Some (q\<lparr>ll_pTail := Some a, ll_pHead := Some a, ll_iSize := sz\<rparr>))))
      | _ \<Rightarrow> Some (Some ERROR_INVALID_PARAMETER, None, h, l))"

definition VmDirLinkedListInsertTail ::
  "addr \<Rightarrow> addr option \<Rightarrow> 'a option \<Rightarrow> 'a ll_heap \<Rightarrow> linked_list option \<Rightarrow>
     (rc \<times> addr option \<times> 'a ll_heap \<times> linked_list option) option" where
  "VmDirLinkedListInsertTail self ma e h l =
     (case (l, e) of
        (Some q, Some x) \<Rightarrow>
          (case ma of
             None \<Rightarrow> Some (Some ERROR_NO_MEMORY, None, h, l)
           | Some a \<Rightarrow>
               (let nd = \<lparr>pElement = x, pPrev = None, pNext = None, pList = self\<rparr>;
                    sz = wrap64 (ll_iSize q + 1)
                in case ll_pTail q of
                     Some t \<Rightarrow>
                       (case h t of
                          None \<Rightarrow> None
                        | Some n \<Rightarrow>
                            Some (None, Some a,
                              h(a \<mapsto> nd\<lparr>pNext := Some t\<rparr>, t \<mapsto> n\<lparr>pPrev := Some a\<rparr>),
                              Some (q\<lparr>ll_pTail := Some a, ll_iSize := sz\<rparr>)))
                   | None \<Rightarrow>
                       Some (None, Some a, h(a \<mapsto> nd),
                         Some (q\<lparr>ll_pHead := Some a, ll_pTail := Some a, ll_iSize := sz\<rparr>))))
      | _ \<Rightarrow> Some (Some ERROR_INVALID_PARAMETER, None, h, l))"

text \<open>
  Unlinking. The four conditionals of the code run in order; \<open>set_prev_of\<close> and \<open>set_next_of\<close>
  are the guarded stores through \<open>pNode->pNext\<close> and \<open>pNode->pPrev\<close>.
\<close>

definition set_prev_of :: "addr option \<Rightarrow> addr option \<Rightarrow> 'a ll_heap \<Rightarrow> 'a ll_heap option" where
  "set_prev_of target v h =
     (case target of
        None \<Rightarrow> Some h
      | Some b \<Rightarrow> map_option (\<lambda>m. h(b \<mapsto> m\<lparr>pPrev := v\<rparr>)) (h b))"

definition set_next_of :: "addr option \<Rightarrow> addr option \<Rightarrow> 'a ll_heap \<Rightarrow> 'a ll_heap option" where
  "set_next_of target v h =
     (case target of
        None \<Rightarrow> Some h
      | Some b \<Rightarrow> map_option (\<lambda>m. h(b \<mapsto> m\<lparr>pNext := v\<rparr>)) (h b))"

definition VmDirLinkedListRemove ::
  "addr option \<Rightarrow> 'a ll_heap \<Rightarrow> linked_list option \<Rightarrow> (rc \<times> 'a ll_heap \<times> linked_list option) option" where
  "VmDirLinkedListRemove pNode h l =
     (case (l, pNode) of
        (Some q, Some a) \<Rightarrow>
          do {
            n \<leftarrow> h a;
            h1 \<leftarrow> set_prev_of (pNext n) (pPrev n) h;
            n1 \<leftarrow> h1 a;
            h2 \<leftarrow> set_next_of (pPrev n1) (pNext n1) h1;
            n2 \<leftarrow> h2 a;
            let hd' = (if ll_pHead q = Some a then pPrev n2 else ll_pHead q);
            let tl' = (if ll_pTail q = Some a then pNext n2 else ll_pTail q);
            Some (None, h2(a := None),
                  Some (q\<lparr>ll_pHead := hd', ll_pTail := tl', ll_iSize := size_dec (ll_iSize q)\<rparr>))
          }
      | _ \<Rightarrow> Some (Some ERROR_INVALID_PARAMETER, h, l))"

definition VmDirLinkedListGetSize :: "linked_list option \<Rightarrow> nat" where
  "VmDirLinkedListGetSize l = (case l of None \<Rightarrow> 0 | Some q \<Rightarrow> ll_iSize q)"

definition VmDirLinkedListIsEmpty :: "linked_list option \<Rightarrow> bool" where
  "VmDirLinkedListIsEmpty l = (case l of None \<Rightarrow> True | Some q \<Rightarrow> ll_pHead q = None)"

text \<open>Freeing removes the head until the list is empty; the structure itself is freed last.\<close>

partial_function (option) VmDirFreeLinkedList ::
  "'a ll_heap \<Rightarrow> linked_list option \<Rightarrow> 'a ll_heap option" where
  "VmDirFreeLinkedList h l =
     (if VmDirLinkedListIsEmpty l then Some h
      else case VmDirLinkedListRemove (case l of None \<Rightarrow> None | Some q \<Rightarrow> ll_pHead q) h l of
             None \<Rightarrow> None
           | Some (_, h', l') \<Rightarrow> VmDirFreeLinkedList h' l')"

section \<open>The list that is represented\<close>

text \<open>
  \<open>ll_rep h\<^sub>0 h l ps\<close>: the cells of \<open>l\<close> are \<open>ps\<close>, from the tail to the head, and \<open>h\<^sub>0\<close> is
  the heap without them.
\<close>

definition ll_rep ::
  "'a ll_heap \<Rightarrow> 'a ll_heap \<Rightarrow> linked_list option \<Rightarrow> (addr \<times> 'a) list \<Rightarrow> bool" where
  "ll_rep h\<^sub>0 h l ps \<longleftrightarrow>
     (\<exists>q. l = Some q \<and> distinct (map fst ps) \<and> dlseg h None ps None \<and>
        ll_pTail q = seg_first ps None \<and> ll_pHead q = seg_last None ps \<and>
        ll_iSize q = wrap64 (length ps) \<and> h\<^sub>0 = heap_minus h (fst ` set ps))"

lemma ll_insert_head:
  assumes rep: "ll_rep h\<^sub>0 h l ps" and fresh: "h a = None"
  shows "\<exists>h' l'. VmDirLinkedListInsertHead self (Some a) (Some x) h l = Some (None, Some a, h', l') \<and>
           ll_rep h\<^sub>0 h' l' (ps @ [(a, x)])"
proof -
  have new: "a \<notin> fst ` set ps"
    using rep fresh dlseg_dom [of h None ps None] by (auto simp: ll_rep_def)
  show ?thesis
  proof (cases ps rule: rev_cases)
    case Nil
    then show ?thesis
      using rep fresh new
      by (auto simp: VmDirLinkedListInsertHead_def ll_rep_def Let_def heap_minus_fresh wrap64_Suc)
  next
    case (snoc rs r)
    obtain t y where r: "r = (t, y)" by (cases r)
    show ?thesis
      using rep fresh new snoc r
      by (auto simp: VmDirLinkedListInsertHead_def ll_rep_def Let_def heap_minus_fresh wrap64_Suc
          insert_commute)
  qed
qed

lemma ll_insert_tail:
  assumes rep: "ll_rep h\<^sub>0 h l ps" and fresh: "h a = None"
  shows "\<exists>h' l'. VmDirLinkedListInsertTail self (Some a) (Some x) h l = Some (None, Some a, h', l') \<and>
           ll_rep h\<^sub>0 h' l' ((a, x) # ps)"
proof -
  have new: "a \<notin> fst ` set ps"
    using rep fresh dlseg_dom [of h None ps None] by (auto simp: ll_rep_def)
  show ?thesis
  proof (cases ps)
    case Nil
    then show ?thesis
      using rep fresh new
      by (auto simp: VmDirLinkedListInsertTail_def ll_rep_def Let_def heap_minus_fresh wrap64_Suc)
  next
    case (Cons r rs)
    obtain t y where r: "r = (t, y)" by (cases r)
    show ?thesis
      using rep fresh new Cons r
      by (auto simp: VmDirLinkedListInsertTail_def ll_rep_def Let_def heap_minus_fresh wrap64_Suc
          insert_commute)
  qed
qed

text \<open>Unlinking a cell anywhere in the list, one lemma for what each guarded store does.\<close>

lemma set_prev_of_seg:
  assumes "dlseg h (Some a) rs None" and "distinct (map fst rs)"
  shows "\<exists>h'. set_prev_of (seg_first rs None) v h = Some h' \<and> dlseg h' v rs None \<and>
           (\<forall>b. b \<notin> fst ` set rs \<longrightarrow> h' b = h b)"
proof (cases rs)
  case Nil
  then show ?thesis by (simp add: set_prev_of_def)
next
  case (Cons r ss)
  then show ?thesis
    using assms by (cases r) (auto simp: set_prev_of_def)
qed

lemma set_next_of_seg:
  assumes "dlseg h None ls (Some a)" and "distinct (map fst ls)"
  shows "\<exists>h'. set_next_of (seg_last None ls) v h = Some h' \<and> dlseg h' None ls v \<and>
           (\<forall>b. b \<notin> fst ` set ls \<longrightarrow> h' b = h b)"
proof (cases ls rule: rev_cases)
  case Nil
  then show ?thesis by (simp add: set_next_of_def)
next
  case (snoc ss r)
  then show ?thesis
    using assms by (cases r) (auto simp: set_next_of_def)
qed

lemma dlseg_cong:
  "(\<And>b. b \<in> fst ` set ps \<Longrightarrow> h' b = h b) \<Longrightarrow> dlseg h' p ps q = dlseg h p ps q"
  by (induction ps arbitrary: p) auto

lemma ll_remove:
  assumes rep: "ll_rep h\<^sub>0 h l (ls @ (a, x) # rs)"
  shows "\<exists>h' l'. VmDirLinkedListRemove (Some a) h l = Some (None, h', l') \<and> ll_rep h\<^sub>0 h' l' (ls @ rs)"
proof -
  obtain q where q: "l = Some q" "ll_pTail q = seg_first (ls @ (a, x) # rs) None"
      "ll_pHead q = seg_last (Some a) rs" "ll_iSize q = wrap64 (Suc (length ls + length rs))"
      "h\<^sub>0 = heap_minus h (insert a (fst ` set (ls @ rs)))"
    and dist: "distinct (map fst ls)" "distinct (map fst rs)" "a \<notin> fst ` set ls" "a \<notin> fst ` set rs"
      "fst ` set ls \<inter> fst ` set rs = {}"
    and seg: "dlseg h None ls (Some a)" "dlseg h (Some a) rs None"
    using rep by (auto simp: ll_rep_def)
  obtain n where n: "h a = Some n" "pPrev n = seg_last None ls" "pNext n = seg_first rs None"
    using rep by (auto simp: ll_rep_def)
  obtain h1 where h1: "set_prev_of (pNext n) (pPrev n) h = Some h1"
      "dlseg h1 (seg_last None ls) rs None" "\<forall>b. b \<notin> fst ` set rs \<longrightarrow> h1 b = h b"
    using set_prev_of_seg [OF seg(2) dist(2)] unfolding n by blast
  have "dlseg h1 None ls (Some a)"
    using seg(1) h1(3) dist(5) by (subst dlseg_cong [of _ _ h]) auto
  then obtain h2 where h2: "set_next_of (seg_last None ls) (seg_first rs None) h1 = Some h2"
      "dlseg h2 None ls (seg_first rs None)" "\<forall>b. b \<notin> fst ` set ls \<longrightarrow> h2 b = h1 b"
    using set_next_of_seg dist(1) by blast
  have rs2: "dlseg h2 (seg_last None ls) rs None"
    using h1(2) h2(3) dist(5) by (subst dlseg_cong [of _ _ h1]) auto
  have same: "h1 a = Some n" "h2 a = Some n"
    using h1(3) h2(3) n(1) dist by auto
  have minus: "heap_minus h2 (insert a (fst ` set (ls @ rs))) = h\<^sub>0"
    using h1(3) h2(3) by (auto simp: q(5) heap_minus_def restrict_map_def fun_eq_iff image_Un)
  have hd: "(if ll_pHead q = Some a then pPrev n else ll_pHead q) = seg_last (seg_last None ls) rs"
    using dist(4) q(3) n(2) by (cases rs rule: rev_cases) (auto simp: seg_last_def)
  have tl: "(if ll_pTail q = Some a then pNext n else ll_pTail q) = seg_first ls (seg_first rs None)"
    using dist(3) q(2) n(3) by (cases ls) auto
  have "VmDirLinkedListRemove (Some a) h l = Some (None, h2(a := None),
      Some (q\<lparr>ll_pHead := seg_last (seg_last None ls) rs, ll_pTail := seg_first ls (seg_first rs None),
              ll_iSize := wrap64 (length ls + length rs)\<rparr>))"
    by (simp add: VmDirLinkedListRemove_def q(1,4) n h1(1) [unfolded n] same h2(1) hd tl size_dec_Suc
        split del: if_split)
  then show ?thesis
    using dist rs2 h2(2) minus by (auto simp: ll_rep_def)
qed

text \<open>
  C18. Removing a node, wherever it stands in the list, unlinks exactly that node: the
  remaining elements keep their order, head, tail and size are those of the shorter list, the
  node is freed, and no other cell of the heap changes.
\<close>

theorem linked_list_remove:
  assumes "ll_rep h\<^sub>0 h l (ls @ (a, x) # rs)"
  shows "\<exists>h' l'. VmDirLinkedListRemove (Some a) h l = Some (None, h', l') \<and> ll_rep h\<^sub>0 h' l' (ls @ rs) \<and>
           h' a = None"
proof -
  obtain h' l' where rem: "VmDirLinkedListRemove (Some a) h l = Some (None, h', l')"
      "ll_rep h\<^sub>0 h' l' (ls @ rs)"
    using ll_remove [OF assms] by blast
  then have "h' a = None"
    by (cases l) (auto simp: VmDirLinkedListRemove_def split: bind_splits)
  with rem show ?thesis by blast
qed

theorem linked_list_remove_witness:
  "\<exists>h' l'. VmDirLinkedListRemove (Some 2)
      [1 \<mapsto> \<lparr>pElement = ''x'', pPrev = None, pNext = Some 2, pList = 9\<rparr>,
       2 \<mapsto> \<lparr>pElement = ''y'', pPrev = Some 1, pNext = Some 3, pList = 9\<rparr>,
       3 \<mapsto> \<lparr>pElement = ''z'', pPrev = Some 2, pNext = None, pList = 9\<rparr>]
      (Some \<lparr>ll_pHead = Some 3, ll_pTail = Some 1, ll_iSize = 3\<rparr>) = Some (None, h', l') \<and>
     ll_rep Map.empty h' l' [(1, ''x''), (3, ''z'')]"
proof -
  have "ll_rep Map.empty
      [1 \<mapsto> \<lparr>pElement = ''x'', pPrev = None, pNext = Some 2, pList = 9\<rparr>,
       2 \<mapsto> \<lparr>pElement = ''y'', pPrev = Some 1, pNext = Some 3, pList = 9\<rparr>,
       3 \<mapsto> \<lparr>pElement = ''z'', pPrev = Some 2, pNext = None, pList = 9\<rparr>]
      (Some \<lparr>ll_pHead = Some 3, ll_pTail = Some 1, ll_iSize = 3\<rparr>) ([(1, ''x'')] @ (2, ''y'') # [(3, ''z'')])"
    by (auto simp: ll_rep_def seg_last_def wrap64_def heap_minus_def restrict_map_def fun_eq_iff)
  from linked_list_remove [OF this] show ?thesis by auto
qed

lemma ll_free: "ll_rep h\<^sub>0 h l ps \<Longrightarrow> VmDirFreeLinkedList h l = Some h\<^sub>0"
proof (induction ps arbitrary: h l rule: rev_induct)
  case Nil
  then show ?case
    by (subst VmDirFreeLinkedList.simps) (auto simp: ll_rep_def VmDirLinkedListIsEmpty_def)
next
  case (snoc p ps)
  obtain a x where p: "p = (a, x)" by (cases p)
  obtain h' l' where rem: "VmDirLinkedListRemove (Some a) h l = Some (None, h', l')" "ll_rep h\<^sub>0 h' l' ps"
    using ll_remove [of h\<^sub>0 h l ps a x "[]"] snoc.prems p by auto
  obtain q where "l = Some q" "ll_pHead q = Some a"
    using snoc.prems p by (auto simp: ll_rep_def)
  then show ?case
    using snoc.IH [OF rem(2)] rem(1)
    by (subst VmDirFreeLinkedList.simps) (simp add: VmDirLinkedListIsEmpty_def)
qed

text \<open>
  C19. Inserting at either end and then freeing the list: every operation succeeds, the
  element is at the end it was inserted at, and freeing terminates and returns the heap to what
  it was without the list, so that no node is leaked and none is freed twice.
\<close>

theorem linked_list_insert_free:
  assumes "ll_rep h\<^sub>0 h l ps" and "h a = None"
  shows "\<exists>h1 l1 h2 l2.
           VmDirLinkedListInsertHead self (Some a) (Some x) h l = Some (None, Some a, h1, l1) \<and>
           ll_rep h\<^sub>0 h1 l1 (ps @ [(a, x)]) \<and> VmDirFreeLinkedList h1 l1 = Some h\<^sub>0 \<and>
           VmDirLinkedListInsertTail self (Some a) (Some x) h l = Some (None, Some a, h2, l2) \<and>
           ll_rep h\<^sub>0 h2 l2 ((a, x) # ps) \<and> VmDirFreeLinkedList h2 l2 = Some h\<^sub>0"
  using ll_insert_head [OF assms, of self x] ll_insert_tail [OF assms, of self x] ll_free by blast

theorem linked_list_insert_free_witness:
  "\<exists>h1 l1. VmDirLinkedListInsertHead 9 (Some 1) (Some ''x'') Map.empty
      (Some \<lparr>ll_pHead = None, ll_pTail = None, ll_iSize = 0\<rparr>) = Some (None, Some 1, h1, l1) \<and>
     VmDirFreeLinkedList h1 l1 = Some Map.empty"
proof -
  have "ll_rep Map.empty Map.empty (Some \<lparr>ll_pHead = None, ll_pTail = None, ll_iSize = 0\<rparr>) []"
    by (simp add: ll_rep_def wrap64_def)
  from linked_list_insert_free [OF this, where a = 1 and self = 9 and x = "''x''"]
  show ?thesis by auto
qed

end
