(* ===== verification/Deque.thy ===== *)
theory Deque
  imports Dl_Segment
begin

text \<open>
  The double-ended queue of \<open>lwraft/common/deque.c\<close> on an explicit heap of nodes. Every
  operation takes and returns the heap; a deque argument of \<open>None\<close> is the null pointer and the
  outer \<open>None\<close> of a result is an access to memory that is not allocated. The allocator is a
  parameter: \<open>ma\<close> is the address \<open>calloc\<close> returns for the node, \<open>None\<close> when it fails.
\<close>

section \<open>The structure and its operations\<close>

record deque =
  pHead :: "addr option"
  pTail :: "addr option"
  iSize :: nat

type_synonym 'a deque_heap = "('a, unit) dl_heap"

definition dequeCreate :: "bool \<Rightarrow> bool \<Rightarrow> rc \<times> deque option" where
  "dequeCreate ppDeque mem_ok =
     (if \<not> ppDeque then (Some ERROR_INVALID_PARAMETER, None)
      else case VmDirAllocateMemory (\<lambda>_. mem_ok) 24 of
             Some e \<Rightarrow> (Some e, None)
           | None \<Rightarrow> (None, Some \<lparr>pHead = None, pTail = None, iSize = 0\<rparr>))"

definition dequeHeadNode :: "deque option \<Rightarrow> addr option" where
  "dequeHeadNode d = (case d of None \<Rightarrow> None | Some q \<Rightarrow> pHead q)"

definition dequeHead :: "'a deque_heap \<Rightarrow> deque option \<Rightarrow> 'a option option" where
  "dequeHead h d =
     (case d of
        None \<Rightarrow> Some None
      | Some q \<Rightarrow> (case pHead q of
                     None \<Rightarrow> Some None
                   | Some a \<Rightarrow> map_option (\<lambda>n. Some (pElement n)) (h a)))"

definition dequeTail :: "'a deque_heap \<Rightarrow> deque option \<Rightarrow> 'a option option" where
  "dequeTail h d =
     (case d of
        None \<Rightarrow> Some None
      | Some q \<Rightarrow> (case pTail q of
                     None \<Rightarrow> Some None
                   | Some a \<Rightarrow> map_option (\<lambda>n. Some (pElement n)) (h a)))"

definition dequePush ::
  "addr option \<Rightarrow> 'a option \<Rightarrow> 'a deque_heap \<Rightarrow> deque option \<Rightarrow>
     (rc \<times> 'a deque_heap \<times> deque option) option" where
  "dequePush ma e h d =
     (case (d, e) of
        (Some q, Some x) \<Rightarrow>
          (case ma of
             None \<Rightarrow> Some (Some ERROR_NO_MEMORY, h, d)
           | Some a \<Rightarrow>
               (let pNode = \<lparr>pElement = x, pPrev = None, pNext = None\<rparr>;
                    sz = wrap64 (iSize q + 1)
                in case pHead q of
                     None \<Rightarrow> Some (None, h(a \<mapsto> pNode),
                               Some (q\<lparr>pHead := Some a, pTail := Some a, iSize := sz\<rparr>))
                   | Some _ \<Rightarrow>
                       (case pTail q of
                          None \<Rightarrow> None
                        | Some t \<Rightarrow>
                            (case h t of
                               None \<Rightarrow> None
                             | Some n \<Rightarrow>
                                 Some (None,
                                   h(t \<mapsto> n\<lparr>pNext := Some a\<rparr>, a \<mapsto> pNode\<lparr>pPrev := Some t\<rparr>),
                                   Some (q\<lparr>pTail := Some a, iSize := sz\<rparr>))))))
      | _ \<Rightarrow> Some (Some ERROR_INVALID_PARAMETER, h, d))"

text \<open>\<open>pp\<close> is whether the caller's result pointer is not null.\<close>

definition dequePop ::
  "bool \<Rightarrow> 'a deque_heap \<Rightarrow> deque option \<Rightarrow>
     (rc \<times> 'a option \<times> 'a deque_heap \<times> deque option) option" where
  "dequePop pp h d =
     (case (pp, d) of
        (True, Some q) \<Rightarrow>
          (case pTail q of
             None \<Rightarrow> Some (Some ERROR_NO_MORE_ITEMS, None, h, d)
           | Some t \<Rightarrow>
               (case h t of
                  None \<Rightarrow> None
                | Some n \<Rightarrow>
                    (if pHead q = pTail q then
                       Some (None, Some (pElement n), h(t := None),
                         Some (q\<lparr>pHead := None, pTail := None, iSize := size_dec (iSize q)\<rparr>))
                     else
                       (case pPrev n of
                          None \<Rightarrow> None
                        | Some b \<Rightarrow>
                            (case h b of
                               None \<Rightarrow> None
                             | Some m \<Rightarrow>
                                 Some (None, Some (pElement n), (h(b \<mapsto> m\<lparr>pNext := None\<rparr>))(t := None),
                                   Some (q\<lparr>pTail := Some b, iSize := size_dec (iSize q)\<rparr>)))))))
      | _ \<Rightarrow> Some (Some ERROR_INVALID_PARAMETER, None, h, d))"

definition dequePopLeft ::
  "bool \<Rightarrow> 'a deque_heap \<Rightarrow> deque option \<Rightarrow>
     (rc \<times> 'a option \<times> 'a deque_heap \<times> deque option) option" where
  "dequePopLeft pp h d =
     (case (pp, d) of
        (True, Some q) \<Rightarrow>
          (case pHead q of
             None \<Rightarrow> Some (Some ERROR_NO_MORE_ITEMS, None, h, d)
           | Some t \<Rightarrow>
               (case h t of
                  None \<Rightarrow> None
                | Some n \<Rightarrow>
                    (if pHead q = pTail q then
                       Some (None, Some (pElement n), h(t := None),
                         Some (q\<lparr>pHead := None, pTail := None, iSize := size_dec (iSize q)\<rparr>))
                     else
                       (case pNext n of
                          None \<Rightarrow> None
                        | Some b \<Rightarrow>
                            (case h b of
                               None \<Rightarrow> None
                             | Some m \<Rightarrow>
                                 Some (None, Some (pElement n), (h(b \<mapsto> m\<lparr>pPrev := None\<rparr>))(t := None),
                                   Some (q\<lparr>pHead := Some b, iSize := size_dec (iSize q)\<rparr>)))))))
      | _ \<Rightarrow> Some (Some ERROR_INVALID_PARAMETER, None, h, d))"

definition dequeGetSize :: "deque option \<Rightarrow> nat" where
  "dequeGetSize d = (case d of None \<Rightarrow> 0 | Some q \<Rightarrow> iSize q)"

definition dequeIsEmpty :: "deque option \<Rightarrow> bool" where
  "dequeIsEmpty d = (case d of None \<Rightarrow> True | Some q \<Rightarrow> pHead q = None)"

text \<open>
  Freeing the contents: the loop pops on the left until the deque is empty and frees each
  string; the second component collects the strings freed, in order.
\<close>

partial_function (option) dequeFreeStringContents ::
  "'a deque_heap \<Rightarrow> deque option \<Rightarrow> 'a list \<Rightarrow> (('a deque_heap \<times> deque option) \<times> 'a list) option" where
  "dequeFreeStringContents h d freed =
     (if dequeIsEmpty d then Some ((h, d), freed)
      else case dequePopLeft True h d of
             None \<Rightarrow> None
           | Some (_, pItem, h', d') \<Rightarrow>
               dequeFreeStringContents h' d' (case pItem of None \<Rightarrow> freed | Some x \<Rightarrow> freed @ [x]))"

lemmas deque_defs = dequeHeadNode_def dequeHead_def dequeTail_def dequePush_def dequePop_def
  dequePopLeft_def dequeGetSize_def dequeIsEmpty_def

section \<open>The list a deque holds\<close>

text \<open>
  \<open>deque_rep h\<^sub>0 (h, d) xs\<close>: the deque \<open>d\<close> holds \<open>xs\<close>, head first, in distinct cells, and
  \<open>h\<^sub>0\<close> is the heap without them, so that an equal \<open>h\<^sub>0\<close> before and after says that an
  operation neither touches a foreign cell nor leaks one of its own.
\<close>

definition deque_rep ::
  "'a deque_heap \<Rightarrow> 'a deque_heap \<times> deque option \<Rightarrow> 'a list \<Rightarrow> bool" where
  "deque_rep h\<^sub>0 s xs \<longleftrightarrow>
     (case s of (h, d) \<Rightarrow>
       \<exists>q ps. d = Some q \<and> xs = map snd ps \<and> distinct (map fst ps) \<and> dlseg h None ps None \<and>
         pHead q = seg_first ps None \<and> pTail q = seg_last None ps \<and> iSize q = wrap64 (length ps) \<and>
         h\<^sub>0 = heap_minus h (fst ` set ps))"

lemma deque_repI:
  assumes "distinct (map fst ps)" and "dlseg h None ps None"
    and "pHead q = seg_first ps None" and "pTail q = seg_last None ps"
    and "iSize q = wrap64 (length ps)" and "h\<^sub>0 = heap_minus h (fst ` set ps)" and "xs = map snd ps"
  shows "deque_rep h\<^sub>0 (h, Some q) xs"
  unfolding deque_rep_def using assms by auto

lemma deque_repE:
  assumes "deque_rep h\<^sub>0 (h, d) xs"
  obtains q ps where "d = Some q" and "xs = map snd ps" and "distinct (map fst ps)"
    and "dlseg h None ps None" and "pHead q = seg_first ps None" and "pTail q = seg_last None ps"
    and "iSize q = wrap64 (length ps)" and "h\<^sub>0 = heap_minus h (fst ` set ps)"
  using assms unfolding deque_rep_def by auto

lemma deque_new: "dequeCreate True True = (None, Some d) \<Longrightarrow> deque_rep h (h, Some d) []"
  by (auto simp: dequeCreate_def memory_defs wrap64_def intro!: deque_repI [of "[]"])

lemma deque_push:
  assumes rep: "deque_rep h\<^sub>0 (h, d) xs" and fresh: "a \<notin> dom h"
  shows "\<exists>h' d'. dequePush (Some a) (Some x) h d = Some (None, h', d') \<and> deque_rep h\<^sub>0 (h', d') (xs @ [x])"
proof -
  obtain q ps where q: "d = Some q" "xs = map snd ps" "distinct (map fst ps)" "dlseg h None ps None"
      "pHead q = seg_first ps None" "pTail q = seg_last None ps" "iSize q = wrap64 (length ps)"
      "h\<^sub>0 = heap_minus h (fst ` set ps)"
    using rep by (rule deque_repE)
  have new: "a \<notin> fst ` set ps"
    using dlseg_dom [OF q(4)] fresh by blast
  show ?thesis
  proof (cases ps rule: rev_cases)
    case Nil
    then show ?thesis
      using q new fresh
      by (auto simp: dequePush_def Let_def heap_minus_fresh wrap64_Suc wrap64_def
          intro!: deque_repI [of "[(a, x)]"])
  next
    case (snoc rs r)
    obtain t y where r: "r = (t, y)" by (cases r)
    have "pHead q \<noteq> None"
      using q(5) snoc by (simp add: seg_first_None [of "rs @ [r]", unfolded seg_first_append])
    then show ?thesis
      using q new fresh snoc r
      by (auto simp: dequePush_def Let_def heap_minus_fresh wrap64_Suc insert_commute
          intro!: deque_repI [of "ps @ [(a, x)]"])
  qed
qed

lemma deque_popleft:
  assumes rep: "deque_rep h\<^sub>0 (h, d) (x # xs)"
  shows "\<exists>h' d'. dequePopLeft True h d = Some (None, Some x, h', d') \<and> deque_rep h\<^sub>0 (h', d') xs"
proof -
  obtain q ps where q: "d = Some q" "x # xs = map snd ps" "distinct (map fst ps)" "dlseg h None ps None"
      "pHead q = seg_first ps None" "pTail q = seg_last None ps" "iSize q = wrap64 (length ps)"
      "h\<^sub>0 = heap_minus h (fst ` set ps)"
    using rep by (rule deque_repE)
  obtain t rs where ps: "ps = (t, x) # rs" "xs = map snd rs"
    using q(2) by (cases ps) auto
  show ?thesis
  proof (cases rs)
    case Nil
    then show ?thesis
      using q ps
      by (auto simp: dequePopLeft_def size_dec_Suc heap_minus_single intro!: deque_repI [of "[]"])
  next
    case (Cons r ss)
    obtain b y where r: "r = (b, y)" by (cases r)
    have ne: "pHead q \<noteq> pTail q"
      using q(3,5,6) ps Cons r by (auto simp: seg_last_def)
    then show ?thesis
      using q ps Cons r
      by (auto simp: dequePopLeft_def insert_commute size_dec_Suc intro!: deque_repI [of rs])
  qed
qed

lemma deque_pop:
  assumes rep: "deque_rep h\<^sub>0 (h, d) (xs @ [x])"
  shows "\<exists>h' d'. dequePop True h d = Some (None, Some x, h', d') \<and> deque_rep h\<^sub>0 (h', d') xs"
proof -
  obtain q ps where q: "d = Some q" "xs @ [x] = map snd ps" "distinct (map fst ps)" "dlseg h None ps None"
      "pHead q = seg_first ps None" "pTail q = seg_last None ps" "iSize q = wrap64 (length ps)"
      "h\<^sub>0 = heap_minus h (fst ` set ps)"
    using rep by (rule deque_repE)
  obtain t rs where ps: "ps = rs @ [(t, x)]" "xs = map snd rs"
    using q(2) by (cases ps rule: rev_cases) auto
  show ?thesis
  proof (cases rs rule: rev_cases)
    case Nil
    then show ?thesis
      using q ps
      by (auto simp: dequePop_def size_dec_Suc heap_minus_single intro!: deque_repI [of "[]"])
  next
    case (snoc ss r)
    obtain b y where r: "r = (b, y)" by (cases r)
    have ne: "pHead q \<noteq> pTail q"
      using q(3,5,6) ps snoc r by (cases ss) auto
    then show ?thesis
      using q ps snoc r
      by (auto simp: dequePop_def size_dec_Suc insert_commute intro!: deque_repI [of rs])
  qed
qed

lemma deque_is_empty: "deque_rep h\<^sub>0 (h, d) xs \<Longrightarrow> dequeIsEmpty d \<longleftrightarrow> xs = []"
  by (erule deque_repE) (simp add: dequeIsEmpty_def)

lemma deque_rep_empty: "deque_rep h\<^sub>0 (h, d) [] \<Longrightarrow> h = h\<^sub>0"
  by (erule deque_repE) simp

section \<open>The queue contract\<close>

text \<open>
  What a client of a first-in first-out queue relies on: \<open>rep s xs\<close> relates a state to the
  list it holds. \<open>fifo_drain\<close> is a client loop that pops until the queue is empty and feeds
  every element to \<open>g\<close>; its contract gives that the loop returns.
\<close>

locale fifo_queue =
  fixes rep :: "'s \<Rightarrow> 'a list \<Rightarrow> bool"
    and isempty :: "'s \<Rightarrow> bool"
    and popl :: "'s \<Rightarrow> ('a option \<times> 's) option"
    and push :: "addr \<Rightarrow> 'a \<Rightarrow> 's \<Rightarrow> 's option"
    and free_addr :: "addr \<Rightarrow> 's \<Rightarrow> bool"
  assumes isempty_rep: "rep s xs \<Longrightarrow> isempty s \<longleftrightarrow> xs = []"
    and popl_rep: "rep s (x # xs) \<Longrightarrow> \<exists>s'. popl s = Some (Some x, s') \<and> rep s' xs"
    and push_rep: "rep s xs \<Longrightarrow> free_addr a s \<Longrightarrow> \<exists>s'. push a x s = Some s' \<and> rep s' (xs @ [x])"
begin

text \<open>An element pushed behind \<open>xs\<close> comes out after exactly the elements of \<open>xs\<close>.\<close>

lemma push_then_pop:
  assumes "rep s (y # ys)" and "free_addr a s"
  shows "\<exists>s' s''. push a x s = Some s' \<and> popl s' = Some (Some y, s'') \<and> rep s'' (ys @ [x])"
proof -
  obtain s' where push: "push a x s = Some s'" and s': "rep s' ((y # ys) @ [x])"
    using push_rep [OF assms] by blast
  then obtain s'' where "popl s' = Some (Some y, s'')" "rep s'' (ys @ [x])"
    using popl_rep [of s' y "ys @ [x]"] by auto
  with push show ?thesis by blast
qed

end

locale fifo_drain = fifo_queue +
  fixes loop :: "'s \<Rightarrow> 'b \<Rightarrow> ('s \<times> 'b) option"
    and g :: "'a \<Rightarrow> 'b \<Rightarrow> 'b"
  assumes loop_done: "isempty s \<Longrightarrow> loop s acc = Some (s, acc)"
    and loop_step: "\<not> isempty s \<Longrightarrow> popl s = Some (Some x, s') \<Longrightarrow> loop s acc = loop s' (g x acc)"
begin

lemma drain: "rep s xs \<Longrightarrow> \<exists>s'. loop s acc = Some (s', fold g xs acc) \<and> rep s' []"
proof (induction xs arbitrary: s acc)
  case Nil
  then show ?case
    using isempty_rep [OF Nil] loop_done [of s acc] by simp
next
  case (Cons x xs)
  obtain s' where s': "popl s = Some (Some x, s')" "rep s' xs"
    using popl_rep [OF Cons.prems] by blast
  then have "loop s acc = loop s' (g x acc)"
    using isempty_rep [OF Cons.prems] by (intro loop_step) simp_all
  with Cons.IH [OF s'(2), of "g x acc"] show ?case by simp
qed

end

text \<open>The deque's operations as functions of one state.\<close>

definition dq_isempty :: "'a deque_heap \<times> deque option \<Rightarrow> bool" where
  "dq_isempty s = dequeIsEmpty (snd s)"

definition dq_popl ::
  "'a deque_heap \<times> deque option \<Rightarrow> ('a option \<times> ('a deque_heap \<times> deque option)) option" where
  "dq_popl s = map_option snd (dequePopLeft True (fst s) (snd s))"

definition dq_push ::
  "addr \<Rightarrow> 'a \<Rightarrow> 'a deque_heap \<times> deque option \<Rightarrow> ('a deque_heap \<times> deque option) option" where
  "dq_push a x s = map_option snd (dequePush (Some a) (Some x) (fst s) (snd s))"

lemmas dq_defs = dq_isempty_def dq_popl_def dq_push_def

interpretation dq: fifo_queue "deque_rep h\<^sub>0" dq_isempty dq_popl dq_push "\<lambda>a s. a \<notin> dom (fst s)"
  for h\<^sub>0 :: "'a deque_heap"
proof (unfold_locales, goal_cases)
  case (1 s xs)
  then show ?case
    by (cases s) (simp add: dq_defs deque_is_empty)
next
  case (2 s x xs)
  then show ?case
    using deque_popleft [of h\<^sub>0 "fst s" "snd s" x xs] by (auto simp: dq_defs)
next
  case (3 s xs a x)
  then show ?case
    using deque_push [of h\<^sub>0 "fst s" "snd s" xs a x] by (auto simp: dq_defs)
qed

definition dq_free_strings ::
  "'a deque_heap \<times> deque option \<Rightarrow> 'a list \<Rightarrow> (('a deque_heap \<times> deque option) \<times> 'a list) option" where
  "dq_free_strings s freed = dequeFreeStringContents (fst s) (snd s) freed"

interpretation dq_free: fifo_drain "deque_rep h\<^sub>0" dq_isempty dq_popl dq_push "\<lambda>a s. a \<notin> dom (fst s)"
    dq_free_strings "\<lambda>x freed. freed @ [x]"
  for h\<^sub>0 :: "'a deque_heap"
proof (unfold_locales, goal_cases)
  case (1 s acc)
  then show ?case
    by (cases s) (simp add: dq_defs dq_free_strings_def dequeFreeStringContents.simps)
next
  case (2 s x s' acc)
  then show ?case
    unfolding dq_free_strings_def
    by (subst dequeFreeStringContents.simps) (cases s; cases s'; auto simp: dq_defs)
qed

section \<open>Properties\<close>

text \<open>
  Freeing the strings of a deque returns, frees exactly the strings it held in queue
  order, leaves it empty, and leaves the heap with the deque's own nodes gone and every other
  cell unchanged.
\<close>

theorem deque_free_contents:
  assumes "deque_rep h\<^sub>0 (h, d) xs"
  shows "\<exists>d'. dequeFreeStringContents h d [] = Some ((h\<^sub>0, d'), xs) \<and> dequeIsEmpty d' \<and> dequeGetSize d' = 0"
proof -
  obtain h' d' where loop: "dequeFreeStringContents h d [] = Some ((h', d'), xs)"
      and rep: "deque_rep h\<^sub>0 (h', d') []"
    using dq_free.drain [OF assms, of "[]"] by (auto simp: dq_free_strings_def fold_snoc)
  from rep have "dequeGetSize d' = 0"
    by (rule deque_repE) (simp add: dequeGetSize_def wrap64_def)
  with loop rep show ?thesis
    using deque_rep_empty [OF rep] deque_is_empty [OF rep] by simp
qed

theorem deque_free_contents_witness:
  "\<exists>d'. dequeFreeStringContents
     [4 \<mapsto> \<lparr>pElement = ''a'', pPrev = None, pNext = Some 6\<rparr>,
      6 \<mapsto> \<lparr>pElement = ''b'', pPrev = Some 4, pNext = None\<rparr>,
      9 \<mapsto> \<lparr>pElement = ''x'', pPrev = None, pNext = None\<rparr>]
     (Some \<lparr>pHead = Some 4, pTail = Some 6, iSize = 2\<rparr>) [] =
     Some (([9 \<mapsto> \<lparr>pElement = ''x'', pPrev = None, pNext = None\<rparr>], d'), [''a'', ''b'']) \<and>
     dequeIsEmpty d'"
proof -
  have "deque_rep [9 \<mapsto> \<lparr>pElement = ''x'', pPrev = None, pNext = None\<rparr>]
     ([4 \<mapsto> \<lparr>pElement = ''a'', pPrev = None, pNext = Some 6\<rparr>,
       6 \<mapsto> \<lparr>pElement = ''b'', pPrev = Some 4, pNext = None\<rparr>,
       9 \<mapsto> \<lparr>pElement = ''x'', pPrev = None, pNext = None\<rparr>],
      Some \<lparr>pHead = Some 4, pTail = Some 6, iSize = 2\<rparr>) [''a'', ''b'']"
    by (rule deque_repI [of "[(4, ''a''), (6, ''b'')]"])
       (auto simp: wrap64_def heap_minus_def restrict_map_def fun_eq_iff)
  from deque_free_contents [OF this] show ?thesis by blast
qed

text \<open>
  C17. The deque is a queue on the left and a stack on the right: what \<open>dequePush\<close> added is
  what \<open>dequePop\<close> returns next, and \<open>dequePopLeft\<close> returns the element that was pushed first;
  neither touches a cell that is not the deque's, and neither fails.
\<close>

theorem deque_push_pop:
  assumes "deque_rep h\<^sub>0 (h, d) (y # ys)" and "a \<notin> dom h"
  shows "\<exists>h' d' h1 d1 h2 d2.
           dequePush (Some a) (Some x) h d = Some (None, h', d') \<and>
           dequePop True h' d' = Some (None, Some x, h1, d1) \<and> deque_rep h\<^sub>0 (h1, d1) (y # ys) \<and>
           dequePopLeft True h' d' = Some (None, Some y, h2, d2) \<and> deque_rep h\<^sub>0 (h2, d2) (ys @ [x])"
proof -
  obtain h' d' where push: "dequePush (Some a) (Some x) h d = Some (None, h', d')"
      and rep: "deque_rep h\<^sub>0 (h', d') ((y # ys) @ [x])"
    using deque_push [OF assms] by blast
  from deque_pop [OF rep] deque_popleft [OF rep [simplified]] push show ?thesis
    by blast
qed

theorem deque_push_pop_witness:
  "\<exists>h' d' h1 d1. dequePush (Some 5) (Some 8) [4 \<mapsto> \<lparr>pElement = 7::nat, pPrev = None, pNext = None\<rparr>]
     (Some \<lparr>pHead = Some 4, pTail = Some 4, iSize = 1\<rparr>) = Some (None, h', d') \<and>
     dequePop True h' d' = Some (None, Some 8, h1, d1)"
proof -
  have "deque_rep Map.empty ([4 \<mapsto> \<lparr>pElement = 7::nat, pPrev = None, pNext = None\<rparr>],
      Some \<lparr>pHead = Some 4, pTail = Some 4, iSize = 1\<rparr>) [7]"
    by (rule deque_repI [of "[(4, 7)]"]) (auto simp: wrap64_def heap_minus_def)
  from deque_push_pop [OF this, of 5 8] show ?thesis by fastforce
qed

end
