(* ===== verification/Raft_Log_Codec.thy ===== *)
theory Raft_Log_Codec
  imports Deque
begin

text \<open>
  The byte format of Raft log entries, \<open>lwraft/server/replication/replentry.c\<close>: the integer
  codecs, packing one log and packing a queue of logs into one multi-log, and the two
  unpackings. A pointer into a packed buffer is an offset into a byte list; the outer
  \<open>None\<close> of a result is a read or a write outside the buffer. The code holds sizes in an
  \<open>int\<close>, here a \<open>32 word\<close> that \<open>int_to_size\<close> sign-extends where the code converts it to
  \<open>size_t\<close>. The allocator is the parameter \<open>mem\<close> for plain blocks and \<open>al\<close> for queue nodes.
\<close>

section \<open>Log entries and integers\<close>

record raft_log =
  log_index :: "64 word"
  log_term :: "32 word"
  log_entryId :: "64 word"
  log_requestCode :: "32 word"
  chglog :: bytes
  packRaftLog :: "bytes option"

definition RAFT_LOG_HEADER_LEN :: nat where
  "RAFT_LOG_HEADER_LEN = 24"

definition sizeof_raft_log :: nat where
  "sizeof_raft_log = 168"

definition VmDirEncodeUINT32 :: "32 word \<Rightarrow> bytes" where
  "VmDirEncodeUINT32 v = map (\<lambda>i. ucast (drop_bit (8 * i) v)) [3, 2, 1, 0]"

definition VmDirDecodeUINT32 :: "bytes \<Rightarrow> 32 word" where
  "VmDirDecodeUINT32 bs =
     fold (\<lambda>(i, b) value. value OR push_bit (8 * i) (ucast b)) (zip [3, 2, 1, 0] bs) 0"

definition VmDirEncodeUINT64 :: "64 word \<Rightarrow> bytes" where
  "VmDirEncodeUINT64 v = map (\<lambda>i. ucast (drop_bit (8 * i) v)) [7, 6, 5, 4, 3, 2, 1, 0]"

definition VmDirDecodeUINT64 :: "bytes \<Rightarrow> 64 word" where
  "VmDirDecodeUINT64 bs =
     fold (\<lambda>(i, b) value. value OR push_bit (8 * i) (ucast b)) (zip [7, 6, 5, 4, 3, 2, 1, 0] bs) 0"

definition int_to_size :: "32 word \<Rightarrow> nat" where
  "int_to_size n = unat (scast n :: 64 word)"

section \<open>Packing\<close>

definition log_header :: "64 word \<Rightarrow> 32 word \<Rightarrow> 64 word \<Rightarrow> 32 word \<Rightarrow> bytes" where
  "log_header i t e r =
     VmDirEncodeUINT64 i @ VmDirEncodeUINT32 t @ VmDirEncodeUINT64 e @ VmDirEncodeUINT32 r"

text \<open>The zeroed block after \<open>written\<close> was stored from its start.\<close>

definition fill_block :: "nat \<Rightarrow> bytes \<Rightarrow> bytes option" where
  "fill_block sz written =
     (if length written \<le> sz then Some (written @ replicate (sz - length written) 0) else None)"

definition VmDirPackLogEntry :: "(nat \<Rightarrow> bool) \<Rightarrow> raft_log \<Rightarrow> (rc \<times> raft_log) option" where
  "VmDirPackLogEntry mem l =
     (let iSize = (of_nat (RAFT_LOG_HEADER_LEN + length (chglog l)) :: 32 word) in
      case VmDirAllocateMemory mem (int_to_size iSize) of
        Some e \<Rightarrow> Some (Some e, l)
      | None \<Rightarrow>
          do {
            b \<leftarrow> fill_block (int_to_size iSize)
                  (log_header (log_index l) (log_term l) (log_entryId l) (log_requestCode l) @ chglog l);
            Some (None, l\<lparr>packRaftLog := Some b\<rparr>)
          })"

text \<open>
  Packing a queue: the first loop walks the nodes for the total size and takes index and term
  of the first log with a non-zero index; the second pops each log and writes it behind its
  size. \<open>uninit\<close> is the value of \<open>entryId\<close> when the queue is empty, which the code leaves
  uninitialised.
\<close>

partial_function (option) pack_size_loop ::
  "raft_log deque_heap \<Rightarrow> addr option \<Rightarrow> 32 word \<times> 64 word \<times> 32 word \<times> 64 word \<times> 32 word \<Rightarrow>
     (32 word \<times> 64 word \<times> 32 word \<times> 64 word \<times> 32 word) option" where
  "pack_size_loop h p s =
     (case p of
        None \<Rightarrow> Some s
      | Some a \<Rightarrow>
          do {
            n \<leftarrow> h a;
            let l = pElement n;
            let (sz, logIndex, logTerm, entryId, requestCode) = s;
            let sz' = sz + of_nat (RAFT_LOG_HEADER_LEN + length (chglog l) + 8);
            pack_size_loop h (pNext n)
              (if logIndex = 0 then (sz', log_index l, log_term l, 0, 1)
               else (sz', logIndex, logTerm, entryId, requestCode))
          })"

definition pack_item :: "raft_log \<Rightarrow> bytes" where
  "pack_item l =
     (let iSize = (of_nat (length (chglog l) + RAFT_LOG_HEADER_LEN) :: 32 word) in
      VmDirEncodeUINT64 (scast iSize) @
      log_header (log_index l) (log_term l) (log_entryId l) (log_requestCode l) @ chglog l)"

partial_function (option) pack_drain_loop ::
  "raft_log deque_heap \<Rightarrow> deque option \<Rightarrow> bytes \<Rightarrow>
     ((raft_log deque_heap \<times> deque option) \<times> bytes) option" where
  "pack_drain_loop h d writer =
     (if dequeIsEmpty d then Some ((h, d), writer)
      else do {
        (_, pChgLog, h', d') \<leftarrow> dequePopLeft True h d;
        l \<leftarrow> pChgLog;
        pack_drain_loop h' d' (writer @ pack_item l)
      })"

definition VmDirPackLogEntries ::
  "(nat \<Rightarrow> bool) \<Rightarrow> 64 word \<Rightarrow> raft_log \<Rightarrow> raft_log deque_heap \<Rightarrow> deque option \<Rightarrow>
     (rc \<times> raft_log \<times> raft_log deque_heap \<times> deque option) option" where
  "VmDirPackLogEntries mem uninit pLogEntry h d =
     do {
       q \<leftarrow> d;
       (sz, logIndex, logTerm, entryId, requestCode) \<leftarrow> pack_size_loop h (pHead q) (0, 0, 0, uninit, 0);
       let chglog_size = sz + of_nat RAFT_LOG_HEADER_LEN;
       case VmDirAllocateMemory mem (int_to_size chglog_size) of
         Some e \<Rightarrow> Some (Some e, pLogEntry, h, d)
       | None \<Rightarrow>
           do {
             ((h', d'), written) \<leftarrow>
               pack_drain_loop h d (log_header logIndex logTerm entryId requestCode);
             b \<leftarrow> fill_block (int_to_size chglog_size) written;
             Some (None,
                   pLogEntry\<lparr>packRaftLog := Some b, log_index := logIndex, log_term := logTerm,
                             log_entryId := entryId, log_requestCode := requestCode\<rparr>, h', d')
           }
     }"

section \<open>Unpacking\<close>

definition read_uint32 :: "bytes \<Rightarrow> nat \<Rightarrow> 32 word option" where
  "read_uint32 b off =
     (if off + 4 \<le> length b then Some (VmDirDecodeUINT32 (take 4 (drop off b))) else None)"

definition read_uint64 :: "bytes \<Rightarrow> nat \<Rightarrow> 64 word option" where
  "read_uint64 b off =
     (if off + 8 \<le> length b then Some (VmDirDecodeUINT64 (take 8 (drop off b))) else None)"

text \<open>
  Unpacking one log of \<open>len\<close> bytes at offset \<open>off\<close>. When allocating the change log fails the
  code has set its length and not its value; the model leaves it empty on that error path.
\<close>

definition unpack_log_at ::
  "(nat \<Rightarrow> bool) \<Rightarrow> bytes \<Rightarrow> nat \<Rightarrow> nat \<Rightarrow> raft_log \<Rightarrow> (rc \<times> raft_log) option" where
  "unpack_log_at mem b off len l =
     (if len < RAFT_LOG_HEADER_LEN then Some (Some ERROR_INVALID_PARAMETER, l)
      else do {
        i \<leftarrow> read_uint64 b off;
        t \<leftarrow> read_uint32 b (off + 8);
        e \<leftarrow> read_uint64 b (off + 12);
        r \<leftarrow> read_uint32 b (off + 20);
        let l' = l\<lparr>log_index := i, log_term := t, log_entryId := e, log_requestCode := r, chglog := []\<rparr>;
        if RAFT_LOG_HEADER_LEN < len then
          (let n = len - RAFT_LOG_HEADER_LEN in
           case VmDirAllocateMemory mem n of
             Some er \<Rightarrow> Some (Some er, l')
           | None \<Rightarrow>
               if off + 24 + n \<le> length b
               then Some (None, l'\<lparr>chglog := take n (drop (off + 24) b)\<rparr>) else None)
        else Some (None, l')
      })"

definition VmDirUnpackLogEntry :: "(nat \<Rightarrow> bool) \<Rightarrow> raft_log \<Rightarrow> (rc \<times> raft_log) option" where
  "VmDirUnpackLogEntry mem l =
     (case packRaftLog l of
        None \<Rightarrow> Some (Some ERROR_INVALID_PARAMETER, l)
      | Some b \<Rightarrow> unpack_log_at mem b 0 (length b) l)"

text \<open>
  The loop over the logs of a multi-log; \<open>le\<close> is the local structure the code reuses from one
  round to the next. The result of \<open>dequePush\<close> is ignored, as in the code.
\<close>

partial_function (option) unpack_loop ::
  "(nat \<Rightarrow> bool) \<Rightarrow> (raft_log deque_heap \<Rightarrow> addr option) \<Rightarrow> bytes \<Rightarrow> nat \<Rightarrow> raft_log \<Rightarrow>
     raft_log deque_heap \<Rightarrow> deque option \<Rightarrow> (rc \<times> raft_log deque_heap \<times> deque option) option" where
  "unpack_loop mem al b off le h d =
     (if int off < int (length b) - int RAFT_LOG_HEADER_LEN then
        do {
          v \<leftarrow> read_uint64 b off;
          let iSize = (ucast v :: 32 word);
          let reader = off + 8;
          if int reader + sint iSize > int (length b)
          then Some (Some VMDIR_ERROR_INVALID_PARAMETER, h, d)
          else do {
            let len = int_to_size iSize;
            (err, le') \<leftarrow> unpack_log_at mem b reader len (le\<lparr>packRaftLog := Some (take len (drop reader b))\<rparr>);
            case err of
              Some e \<Rightarrow> Some (Some e, h, d)
            | None \<Rightarrow>
                (case VmDirAllocateMemory mem sizeof_raft_log of
                   Some e \<Rightarrow> Some (Some e, h, d)
                 | None \<Rightarrow>
                     do {
                       (_, h', d') \<leftarrow> dequePush (al h) (Some le') h d;
                       unpack_loop mem al b (nat (int reader + sint iSize)) le' h' d'
                     })
          }
        }
      else if off \<noteq> length b then Some (Some VMDIR_ERROR_INVALID_PARAMETER, h, d)
      else Some (None, h, d))"

definition empty_log :: raft_log where
  "empty_log = \<lparr>log_index = 0, log_term = 0, log_entryId = 0, log_requestCode = 0,
                chglog = [], packRaftLog = None\<rparr>"

definition VmDirUnpackLogEntries ::
  "(nat \<Rightarrow> bool) \<Rightarrow> (raft_log deque_heap \<Rightarrow> addr option) \<Rightarrow> raft_log \<Rightarrow> raft_log deque_heap \<Rightarrow>
     deque option \<Rightarrow> (rc \<times> raft_log \<times> raft_log deque_heap \<times> deque option) option" where
  "VmDirUnpackLogEntries mem al pLogEntry h d =
     (case packRaftLog pLogEntry of
        None \<Rightarrow> Some (Some ERROR_INVALID_PARAMETER, pLogEntry, h, d)
      | Some b \<Rightarrow>
          (if length b < RAFT_LOG_HEADER_LEN then Some (Some ERROR_INVALID_PARAMETER, pLogEntry, h, d)
           else do {
             i \<leftarrow> read_uint64 b 0;
             t \<leftarrow> read_uint32 b 8;
             e \<leftarrow> read_uint64 b 12;
             r \<leftarrow> read_uint32 b 20;
             (err, h', d') \<leftarrow> unpack_loop mem al b 24 empty_log h d;
             Some (err,
                   pLogEntry\<lparr>log_index := i, log_term := t, log_entryId := e, log_requestCode := r\<rparr>, h', d')
           }))"

section \<open>Round trips of the integers\<close>

lemma shifted_byte_bit:
  "bit (push_bit k (ucast (ucast (drop_bit k v) :: 8 word)) :: 'a::len word) n \<longleftrightarrow>
     k \<le> n \<and> n < k + 8 \<and> bit v n" for v :: "'a::len word"
  by (auto simp: bit_simps dest: bit_imp_le_length)

lemma decode_encode_uint32 [simp]: "VmDirDecodeUINT32 (VmDirEncodeUINT32 v) = v"
proof (rule bit_word_eqI)
  fix n assume "n < LENGTH(32)"
  then have "n < 8 \<or> (8 \<le> n \<and> n < 16) \<or> (16 \<le> n \<and> n < 24) \<or> (24 \<le> n \<and> n < 32)" by auto
  then show "bit (VmDirDecodeUINT32 (VmDirEncodeUINT32 v)) n = bit v n"
    by (auto simp: VmDirDecodeUINT32_def VmDirEncodeUINT32_def bit_or_iff shifted_byte_bit
        shifted_byte_bit [of 0, simplified])
qed

lemma decode_encode_uint64 [simp]: "VmDirDecodeUINT64 (VmDirEncodeUINT64 v) = v"
proof (rule bit_word_eqI)
  fix n assume "n < LENGTH(64)"
  then have "n < 8 \<or> (8 \<le> n \<and> n < 16) \<or> (16 \<le> n \<and> n < 24) \<or> (24 \<le> n \<and> n < 32) \<or>
    (32 \<le> n \<and> n < 40) \<or> (40 \<le> n \<and> n < 48) \<or> (48 \<le> n \<and> n < 56) \<or> (56 \<le> n \<and> n < 64)" by auto
  then show "bit (VmDirDecodeUINT64 (VmDirEncodeUINT64 v)) n = bit v n"
    by (auto simp: VmDirDecodeUINT64_def VmDirEncodeUINT64_def bit_or_iff shifted_byte_bit
        shifted_byte_bit [of 0, simplified])
qed

lemma length_encode [simp]:
  "length (VmDirEncodeUINT32 v) = 4" "length (VmDirEncodeUINT64 w) = 8"
  by (simp_all add: VmDirEncodeUINT32_def VmDirEncodeUINT64_def)

lemma length_log_header [simp]: "length (log_header i t e r) = 24"
  by (simp add: log_header_def)

lemma read_uint32_at:
  "off = length pre \<Longrightarrow> read_uint32 (pre @ VmDirEncodeUINT32 v @ post) off = Some v"
  by (simp add: read_uint32_def)

lemma read_uint64_at:
  "off = length pre \<Longrightarrow> read_uint64 (pre @ VmDirEncodeUINT64 v @ post) off = Some v"
  by (simp add: read_uint64_def)

text \<open>The four fields of a header that starts at offset \<open>off\<close>.\<close>

lemma read_header_at:
  assumes "off = length pre"
  shows "read_uint64 (pre @ log_header i t e r @ post) off = Some i"
    and "read_uint32 (pre @ log_header i t e r @ post) (off + 8) = Some t"
    and "read_uint64 (pre @ log_header i t e r @ post) (off + 12) = Some e"
    and "read_uint32 (pre @ log_header i t e r @ post) (off + 20) = Some r"
  using assms
    read_uint64_at [of off pre i "VmDirEncodeUINT32 t @ VmDirEncodeUINT64 e @ VmDirEncodeUINT32 r @ post"]
    read_uint32_at [of "off + 8" "pre @ VmDirEncodeUINT64 i" t "VmDirEncodeUINT64 e @ VmDirEncodeUINT32 r @ post"]
    read_uint64_at [of "off + 12" "pre @ VmDirEncodeUINT64 i @ VmDirEncodeUINT32 t" e "VmDirEncodeUINT32 r @ post"]
    read_uint32_at [of "off + 20" "pre @ VmDirEncodeUINT64 i @ VmDirEncodeUINT32 t @ VmDirEncodeUINT64 e" r post]
  by (simp_all add: log_header_def)

lemma sint_of_nat: "n < 2 ^ 31 \<Longrightarrow> sint (of_nat n :: 32 word) = int n"
  by (simp add: signed_of_nat take_bit_eq_mod signed_take_bit_int_eq_self)

lemma int_to_size_of_nat: "n < 2 ^ 31 \<Longrightarrow> int_to_size (of_nat n) = n"
  by (simp add: int_to_size_def scast_eq sint_of_nat unsigned_of_nat take_bit_nat_eq_self)

lemma ucast_scast: "(ucast (scast n :: 64 word) :: 32 word) = n"
  by (rule bit_word_eqI) (auto simp: bit_simps)

section \<open>One log\<close>

definition log_bytes :: "raft_log \<Rightarrow> bytes" where
  "log_bytes l = log_header (log_index l) (log_term l) (log_entryId l) (log_requestCode l) @ chglog l"

definition unpacked :: "raft_log \<Rightarrow> raft_log" where
  "unpacked l = l\<lparr>packRaftLog := Some (log_bytes l)\<rparr>"

lemma length_log_bytes: "length (log_bytes l) = 24 + length (chglog l)"
  by (simp add: log_bytes_def)

lemma unpacked_fields:
  "log_index (unpacked l) = log_index l" "log_term (unpacked l) = log_term l" "packRaftLog (unpacked l) = Some (log_bytes l)"
  by (simp_all add: unpacked_def)

lemma copy_log_bytes: "(\<And>n. mem n) \<Longrightarrow> VmDirAllocateAndCopyMemory mem (log_bytes l) = None"
  using length_log_bytes [of l] by (simp add: VmDirAllocateAndCopyMemory_def VmDirAllocateMemory_def)

lemma unpack_log_bytes_at:
  assumes "mem (length (chglog x))" and "packRaftLog l = Some (log_bytes x)"
  shows "unpack_log_at mem (pre @ log_bytes x @ post) (length pre) (length (log_bytes x)) l =
           Some (None, unpacked x)"
proof -
  have buf: "pre @ log_bytes x @ post =
      pre @ log_header (log_index x) (log_term x) (log_entryId x) (log_requestCode x) @ chglog x @ post"
    by (simp add: log_bytes_def)
  show ?thesis
    using assms unfolding buf
    by (auto simp: unpack_log_at_def read_header_at [OF refl] length_log_bytes RAFT_LOG_HEADER_LEN_def
        VmDirAllocateMemory_def unpacked_def Let_def)
qed

lemma unpack_log_bytes:
  "(\<And>n. mem n) \<Longrightarrow> VmDirUnpackLogEntry mem (d\<lparr>packRaftLog := Some (log_bytes l)\<rparr>) = Some (None, unpacked l)"
  using unpack_log_bytes_at [of mem l "d\<lparr>packRaftLog := Some (log_bytes l)\<rparr>" "[]" "[]"]
  by (simp add: VmDirUnpackLogEntry_def)

lemma pack_log_entry:
  assumes "24 + length (chglog l) < 2 ^ 31" and "mem (24 + length (chglog l))"
  shows "VmDirPackLogEntry mem l = Some (None, unpacked l)"
proof -
  have sz: "int_to_size (of_nat (RAFT_LOG_HEADER_LEN + length (chglog l))) = 24 + length (chglog l)"
    using int_to_size_of_nat [OF assms(1)] by (simp add: RAFT_LOG_HEADER_LEN_def)
  show ?thesis
    unfolding VmDirPackLogEntry_def Let_def sz
    using assms(2)
    by (simp add: VmDirAllocateMemory_def fill_block_def unpacked_def log_bytes_def)
qed

text \<open>
  A log entry whose change log is shorter than \<open>2 ^ 31 - 24\<close> bytes survives the wire and
  the database: packing succeeds, and unpacking the packed bytes into any structure gives back
  index, term, entry id, request code and change log.
\<close>

theorem log_entry_roundtrip:
  assumes "24 + length (chglog l) < 2 ^ 31" and "\<forall>n. mem n"
  shows "\<exists>b. VmDirPackLogEntry mem l = Some (None, l\<lparr>packRaftLog := Some b\<rparr>) \<and>
           length b = RAFT_LOG_HEADER_LEN + length (chglog l) \<and>
           VmDirUnpackLogEntry mem (dest\<lparr>packRaftLog := Some b\<rparr>) = Some (None, l\<lparr>packRaftLog := Some b\<rparr>)"
proof (intro exI [of _ "log_bytes l"] conjI)
  show "VmDirPackLogEntry mem l = Some (None, l\<lparr>packRaftLog := Some (log_bytes l)\<rparr>)"
    using pack_log_entry assms by (simp add: unpacked_def)
  show "length (log_bytes l) = RAFT_LOG_HEADER_LEN + length (chglog l)"
    by (simp add: length_log_bytes RAFT_LOG_HEADER_LEN_def)
  show "VmDirUnpackLogEntry mem (dest\<lparr>packRaftLog := Some (log_bytes l)\<rparr>) =
      Some (None, l\<lparr>packRaftLog := Some (log_bytes l)\<rparr>)"
    using unpack_log_bytes_at [of mem l "dest\<lparr>packRaftLog := Some (log_bytes l)\<rparr>" "[]" "[]"] assms(2)
    by (simp add: VmDirUnpackLogEntry_def unpacked_def)
qed

theorem log_entry_roundtrip_witness:
  "\<exists>b. VmDirUnpackLogEntry (\<lambda>_. True) (empty_log\<lparr>packRaftLog := Some b\<rparr>) =
     Some (None, \<lparr>log_index = 7, log_term = 3, log_entryId = 9, log_requestCode = 0x68,
                  chglog = [1, 2], packRaftLog = Some b\<rparr>)"
  using log_entry_roundtrip [of
      "\<lparr>log_index = 7, log_term = 3, log_entryId = 9, log_requestCode = 0x68, chglog = [1, 2], packRaftLog = None\<rparr>"
      "\<lambda>_. True" empty_log]
  by auto

section \<open>A queue of logs\<close>

definition multi_size :: "raft_log list \<Rightarrow> nat" where
  "multi_size ls = (\<Sum>l \<leftarrow> ls. 32 + length (chglog l))"

text \<open>The running values of the first loop after the logs \<open>ls\<close>.\<close>

fun pack_scan ::
  "raft_log list \<Rightarrow> 32 word \<times> 64 word \<times> 32 word \<times> 64 word \<times> 32 word \<Rightarrow>
     32 word \<times> 64 word \<times> 32 word \<times> 64 word \<times> 32 word" where
  "pack_scan [] s = s"
| "pack_scan (l # ls) (sz, i, t, e, r) =
     pack_scan ls (let sz' = sz + of_nat (RAFT_LOG_HEADER_LEN + length (chglog l) + 8) in
       if i = 0 then (sz', log_index l, log_term l, 0, 1) else (sz', i, t, e, r))"

lemma pack_size_loop_seg:
  "dlseg h p ps None \<Longrightarrow> pack_size_loop h (seg_first ps None) s = Some (pack_scan (map snd ps) s)"
proof (induction ps arbitrary: p s)
  case Nil
  then show ?case by (simp add: pack_size_loop.simps)
next
  case (Cons c ps)
  obtain a l where c: "c = (a, l)" by (cases c)
  obtain sz i t e r where s: "s = (sz, i, t, e, r)" by (cases s)
  show ?case
    using Cons by (subst pack_size_loop.simps) (auto simp: c s Let_def)
qed

lemma pack_scan_nonzero:
  "i \<noteq> 0 \<Longrightarrow> pack_scan ls (sz, i, t, e, r) = (sz + of_nat (multi_size ls), i, t, e, r)"
  by (induction ls arbitrary: sz)
     (simp_all add: multi_size_def RAFT_LOG_HEADER_LEN_def Let_def algebra_simps)

lemma pack_scan_first:
  assumes "log_index l \<noteq> 0"
  shows "pack_scan (l # ls) (0, 0, 0, e, 0) = (of_nat (multi_size (l # ls)), log_index l, log_term l, 0, 1)"
  using pack_scan_nonzero [OF assms]
  by (simp add: multi_size_def RAFT_LOG_HEADER_LEN_def Let_def algebra_simps)

text \<open>The second loop drains the queue.\<close>

definition dq_pack ::
  "raft_log deque_heap \<times> deque option \<Rightarrow> bytes \<Rightarrow> ((raft_log deque_heap \<times> deque option) \<times> bytes) option" where
  "dq_pack s writer = pack_drain_loop (fst s) (snd s) writer"

interpretation dq_pk: fifo_drain "deque_rep h\<^sub>0" dq_isempty dq_popl dq_push "\<lambda>a s. a \<notin> dom (fst s)"
    dq_pack "\<lambda>l writer. writer @ pack_item l"
  for h\<^sub>0 :: "raft_log deque_heap"
proof (unfold_locales, goal_cases)
  case (1 s acc)
  then show ?case
    by (cases s) (simp add: dq_defs dq_pack_def pack_drain_loop.simps)
next
  case (2 s x s' acc)
  then show ?case
    unfolding dq_pack_def
    by (subst pack_drain_loop.simps) (cases s; cases s'; auto simp: dq_defs)
qed

lemma fold_append: "fold (\<lambda>x acc. acc @ f x) xs acc = acc @ concat (map f xs)"
  by (induction xs arbitrary: acc) auto

lemma pack_item_eq:
  assumes "24 + length (chglog l) < 2 ^ 31"
  shows "pack_item l = VmDirEncodeUINT64 (scast (of_nat (length (log_bytes l)) :: 32 word)) @ log_bytes l"
  by (simp add: pack_item_def log_bytes_def RAFT_LOG_HEADER_LEN_def add.commute)

lemma length_pack_item: "length (pack_item l) = 32 + length (chglog l)"
  by (simp add: pack_item_def Let_def)

lemma length_pack_items: "length (concat (map pack_item ls)) = multi_size ls"
  by (induction ls) (simp_all add: multi_size_def length_pack_item)

definition multi_bytes :: "raft_log list \<Rightarrow> bytes" where
  "multi_bytes ls =
     log_header (log_index (hd ls)) (log_term (hd ls)) 0 1 @ concat (map pack_item ls)"

lemma pack_log_entries:
  assumes rep: "deque_rep h\<^sub>0 (h, d) (l # ls)" and nz: "log_index l \<noteq> 0"
    and small: "24 + multi_size (l # ls) < 2 ^ 31" and mem: "\<forall>n. mem n"
  shows "\<exists>d'. VmDirPackLogEntries mem uninit dest h d =
           Some (None, dest\<lparr>packRaftLog := Some (multi_bytes (l # ls)), log_index := log_index l,
                            log_term := log_term l, log_entryId := 0, log_requestCode := 1\<rparr>, h\<^sub>0, d') \<and>
           dequeIsEmpty d' \<and> deque_rep h\<^sub>0 (h\<^sub>0, d') []"
proof -
  obtain q ps where q: "d = Some q" "l # ls = map snd ps" "dlseg h None ps None"
      "pHead q = seg_first ps None"
    using rep by (rule deque_repE)
  have scan: "pack_size_loop h (pHead q) (0, 0, 0, uninit, 0) =
      Some (of_nat (multi_size (l # ls)), log_index l, log_term l, 0, 1)"
    using pack_size_loop_seg [OF q(3)] pack_scan_first [OF nz]
    by (simp add: q(4) q(2) [symmetric] del: pack_scan.simps)
  obtain h' d' where drain: "pack_drain_loop h d (log_header (log_index l) (log_term l) 0 1) =
        Some ((h', d'), multi_bytes (l # ls))" and e: "deque_rep h\<^sub>0 (h', d') []"
    using dq_pk.drain [OF rep, of "log_header (log_index l) (log_term l) 0 1"]
    by (auto simp: dq_pack_def fold_append multi_bytes_def)
  have sz: "int_to_size (of_nat (multi_size (l # ls)) + of_nat RAFT_LOG_HEADER_LEN) = 24 + multi_size (l # ls)"
    using int_to_size_of_nat [OF small] by (simp add: RAFT_LOG_HEADER_LEN_def add.commute)
  have len: "length (multi_bytes (l # ls)) = 24 + multi_size (l # ls)"
    by (simp only: multi_bytes_def length_append length_log_header length_pack_items)
  show ?thesis
    using scan drain [unfolded q(1)] mem e deque_rep_empty [OF e] deque_is_empty [OF e]
    by (simp add: VmDirPackLogEntries_def q(1) sz fill_block_def len VmDirAllocateMemory_def Let_def)
qed

text \<open>
  What is assumed of the allocator of queue nodes: as long as finitely many addresses are in
  use it returns one that is free.
\<close>

definition fresh_alloc :: "(raft_log deque_heap \<Rightarrow> addr option) \<Rightarrow> bool" where
  "fresh_alloc al \<longleftrightarrow> (\<forall>h. finite (dom h) \<longrightarrow> (\<exists>a. al h = Some a \<and> a \<notin> dom h))"

lemma deque_rep_finite: "deque_rep h\<^sub>0 (h, d) xs \<Longrightarrow> finite (dom h\<^sub>0) \<Longrightarrow> finite (dom h)"
proof (erule deque_repE)
  fix q ps
  assume "finite (dom h\<^sub>0)" and "h\<^sub>0 = heap_minus h (fst ` set ps)"
  then have "finite (dom h - fst ` set ps)"
    by (simp add: heap_minus_def Diff_eq)
  then show "finite (dom h)"
    by simp
qed

lemma unpack_loop_step:
  assumes b: "b = pre @ pack_item l @ post" and off: "off = length pre"
    and small: "24 + length (chglog l) < 2 ^ 31" and mem: "\<forall>n. mem n"
    and push: "dequePush (al h) (Some (unpacked l)) h d = Some (r, h', d')"
  shows "unpack_loop mem al b off le h d =
           unpack_loop mem al b (length (pre @ pack_item l)) (unpacked l) h' d'"
proof -
  let ?sz = "of_nat (length (log_bytes l)) :: 32 word"
  have len: "length (log_bytes l) < 2 ^ 31"
    using small by (simp add: length_log_bytes)
  note item = pack_item_eq [OF small]
  have b': "b = pre @ VmDirEncodeUINT64 (scast ?sz) @ log_bytes l @ post"
    "b = (pre @ VmDirEncodeUINT64 (scast ?sz)) @ log_bytes l @ post"
    by (simp_all add: b item)
  have read: "read_uint64 b off = Some (scast ?sz)"
    unfolding b'(1) by (rule read_uint64_at [OF off])
  have lb: "length b = off + 8 + length (log_bytes l) + length post"
    by (simp add: b' off)
  have slice: "take (length (log_bytes l)) (drop (off + 8) b) = log_bytes l"
    by (simp add: b'(2) off)
  have unpack: "unpack_log_at mem b (off + 8) (length (log_bytes l))
      (le\<lparr>packRaftLog := Some (log_bytes l)\<rparr>) = Some (None, unpacked l)"
    using unpack_log_bytes_at [of mem l "le\<lparr>packRaftLog := Some (log_bytes l)\<rparr>"
        "pre @ VmDirEncodeUINT64 (scast ?sz)" post] mem
    by (simp add: b'(2) off)
  have guard: "int off < int (length b) - int RAFT_LOG_HEADER_LEN"
    by (simp add: lb length_log_bytes RAFT_LOG_HEADER_LEN_def)
  have next_off: "nat (int (off + 8) + sint ?sz) = length (pre @ pack_item l)"
    using sint_of_nat [OF len] by (simp add: off item)
  have inside: "\<not> int (off + 8) + sint ?sz > int (length b)"
    using sint_of_nat [OF len] by (simp add: lb)
  show ?thesis
    using guard inside read slice unpack push mem
    by (subst unpack_loop.simps)
       (simp add: ucast_scast int_to_size_of_nat [OF len] next_off VmDirAllocateMemory_def
          sizeof_raft_log_def del: of_nat_add)
qed

lemma unpack_loop_items:
  assumes "deque_rep h\<^sub>0 (h, d) xs" and "24 + multi_size ls < 2 ^ 31"
    and mem: "\<forall>n. mem n" and al: "fresh_alloc al" and fin: "finite (dom h\<^sub>0)"
  shows "\<exists>h' d'. unpack_loop mem al (pre @ concat (map pack_item ls)) (length pre) le h d = Some (None, h', d') \<and>
           deque_rep h\<^sub>0 (h', d') (xs @ map unpacked ls)"
  using assms(1,2)
proof (induction ls arbitrary: pre le h d xs)
  case Nil
  then show ?case
    by (subst unpack_loop.simps) (simp add: RAFT_LOG_HEADER_LEN_def)
next
  case (Cons l ls)
  from Cons.prems(2) have small: "24 + length (chglog l) < 2 ^ 31" "24 + multi_size ls < 2 ^ 31"
    by (simp_all add: multi_size_def)
  obtain a where a: "al h = Some a" "a \<notin> dom h"
    using al deque_rep_finite [OF Cons.prems(1) fin] by (auto simp: fresh_alloc_def)
  obtain h' d' where push: "dequePush (al h) (Some (unpacked l)) h d = Some (None, h', d')"
      and rep: "deque_rep h\<^sub>0 (h', d') (xs @ [unpacked l])"
    using deque_push [OF Cons.prems(1) a(2)] a(1) by metis
  have "unpack_loop mem al (pre @ concat (map pack_item (l # ls))) (length pre) le h d =
      unpack_loop mem al (pre @ concat (map pack_item (l # ls))) (length (pre @ pack_item l)) (unpacked l) h' d'"
    by (rule unpack_loop_step [where al = al and r = None and post = "concat (map pack_item ls)"])
       (use small(1) mem push in simp_all)
  then show ?case
    using Cons.IH [OF rep small(2), of "pre @ pack_item l" "unpacked l"]
    by simp
qed

text \<open>
  C10. A user transaction's queue of logs survives replication: packing the queue into one
  multi-log succeeds, empties the queue and frees its nodes, and unpacking that multi-log at the
  other side, into an empty queue, returns the same logs in the same order, each with its own
  index, term, entry id, request code and change log.
\<close>

theorem multi_log_roundtrip:
  assumes "deque_rep h\<^sub>0 (h, d) (l # ls)" and "log_index l \<noteq> 0"
    and "24 + multi_size (l # ls) < 2 ^ 31" and "\<forall>n. mem n"
    and "fresh_alloc al" and "deque_rep g\<^sub>0 (g, q) []" and "finite (dom g\<^sub>0)"
  shows "\<exists>packed d' g' q'.
           VmDirPackLogEntries mem uninit empty_log h d = Some (None, packed, h\<^sub>0, d') \<and> dequeIsEmpty d' \<and>
           log_requestCode packed = 1 \<and> log_index packed = log_index l \<and> log_term packed = log_term l \<and>
           VmDirUnpackLogEntries mem al packed g q = Some (None, packed, g', q') \<and>
           deque_rep g\<^sub>0 (g', q') (map unpacked (l # ls))"
proof -
  let ?b = "multi_bytes (l # ls)"
  let ?packed = "empty_log\<lparr>packRaftLog := Some ?b, log_index := log_index l,
                   log_term := log_term l, log_entryId := 0, log_requestCode := 1\<rparr>"
  obtain d' where pack: "VmDirPackLogEntries mem uninit empty_log h d = Some (None, ?packed, h\<^sub>0, d')"
      "dequeIsEmpty d'"
    using pack_log_entries [OF assms(1-4)] by blast
  have b: "?b = [] @ log_header (log_index l) (log_term l) 0 1 @ concat (map pack_item (l # ls))"
    by (simp add: multi_bytes_def)
  obtain g' q' where loop: "unpack_loop mem al ?b 24 empty_log g q = Some (None, g', q')"
      "deque_rep g\<^sub>0 (g', q') (map unpacked (l # ls))"
    using unpack_loop_items [OF assms(6,3,4,5,7), of "log_header (log_index l) (log_term l) 0 1" empty_log]
    by (auto simp: multi_bytes_def)
  have head: "read_uint64 ?b 0 = Some (log_index l)" "read_uint32 ?b 8 = Some (log_term l)"
      "read_uint64 ?b 12 = Some 0" "read_uint32 ?b 20 = Some 1"
    unfolding b using read_header_at [of 0 "[]"] by simp_all
  have "RAFT_LOG_HEADER_LEN \<le> length ?b"
    by (simp add: multi_bytes_def RAFT_LOG_HEADER_LEN_def)
  then have "VmDirUnpackLogEntries mem al ?packed g q = Some (None, ?packed, g', q')"
    using loop(1) head by (simp add: VmDirUnpackLogEntries_def)
  with pack loop(2) show ?thesis
    by (intro exI [of _ ?packed]) auto
qed

theorem multi_log_roundtrip_witness:
  "\<exists>packed d' g' q'.
     VmDirPackLogEntries (\<lambda>_. True) 0 empty_log
       [4 \<mapsto> \<lparr>pElement = empty_log\<lparr>log_index := 5, log_term := 2\<rparr>, pPrev = None, pNext = Some 6\<rparr>,
        6 \<mapsto> \<lparr>pElement = empty_log\<lparr>log_index := 5, chglog := [1]\<rparr>, pPrev = Some 4, pNext = None\<rparr>]
       (Some \<lparr>pHead = Some 4, pTail = Some 6, iSize = 2\<rparr>) = Some (None, packed, Map.empty, d') \<and>
     VmDirUnpackLogEntries (\<lambda>_. True) (\<lambda>h. Some (LEAST a. h a = None)) packed Map.empty
       (Some \<lparr>pHead = None, pTail = None, iSize = 0\<rparr>) = Some (None, packed, g', q') \<and>
     dequeGetSize q' = 2"
proof -
  let ?l = "empty_log\<lparr>log_index := 5, log_term := 2\<rparr>" and ?m = "empty_log\<lparr>log_index := 5, chglog := [1]\<rparr>"
  have src: "deque_rep Map.empty
      ([4 \<mapsto> \<lparr>pElement = ?l, pPrev = None, pNext = Some 6\<rparr>,
        6 \<mapsto> \<lparr>pElement = ?m, pPrev = Some 4, pNext = None\<rparr>],
       Some \<lparr>pHead = Some 4, pTail = Some 6, iSize = 2\<rparr>) [?l, ?m]"
    by (rule deque_repI [of "[(4, ?l), (6, ?m)]"])
       (auto simp: wrap64_def heap_minus_def restrict_map_def fun_eq_iff)
  have dst: "deque_rep Map.empty (Map.empty, Some \<lparr>pHead = None, pTail = None, iSize = 0\<rparr>) []"
    by (rule deque_repI [of "[]"]) (auto simp: wrap64_def)
  have al: "fresh_alloc (\<lambda>h. Some (LEAST a. h a = None))"
    unfolding fresh_alloc_def
  proof (intro allI impI)
    fix h :: "raft_log deque_heap" assume "finite (dom h)"
    then obtain a where "h a = None"
      using ex_new_if_finite [of "dom h"] by auto
    then show "\<exists>a. Some (LEAST a. h a = None) = Some a \<and> a \<notin> dom h"
      by (auto intro: LeastI simp: domIff)
  qed
  show ?thesis
    using multi_log_roundtrip [OF src _ _ _ al dst, of "\<lambda>_. True" 0]
    by (auto simp: multi_size_def empty_log_def dequeGetSize_def wrap64_def elim!: deque_repE)
qed

text \<open>
  The size field of a log inside a multi-log is read into a signed \<open>int\<close> and only
  compared with the end of the buffer, so a negative size passes: the header that is then
  decoded can lie outside the buffer. The model's \<open>None\<close> is that read.
\<close>

theorem unpack_negative_size:
  "\<exists>b. length b = 49 \<and>
     VmDirUnpackLogEntries (\<lambda>n. n < 2 ^ 31) al (empty_log\<lparr>packRaftLog := Some b\<rparr>) h d = None"
proof -
  let ?b = "replicate 24 0 @ VmDirEncodeUINT64 (2 ^ 31) @ replicate 17 0"
  have r: "read_uint64 ?b 24 = Some (2 ^ 31)"
    by (rule read_uint64_at) simp
  have "unpack_loop (\<lambda>n. n < 2 ^ 31) al ?b 24 empty_log h d = None"
    by (subst unpack_loop.simps)
       (simp add: r RAFT_LOG_HEADER_LEN_def unpack_log_at_def int_to_size_def read_uint32_def read_uint64_def)
  then have "VmDirUnpackLogEntries (\<lambda>n. n < 2 ^ 31) al (empty_log\<lparr>packRaftLog := Some ?b\<rparr>) h d = None"
    by (simp add: VmDirUnpackLogEntries_def RAFT_LOG_HEADER_LEN_def bind_eq_None_conv)
  then show ?thesis
    by (intro exI [of _ ?b]) simp
qed

end
