(* ===== verification/Raft_State.thy ===== *)
theory Raft_State
  imports Raft_Log_Codec
begin

text \<open>
  The Raft state of a server, \<open>lwraft/server/replication/structs.h\<close>, and the operations on its
  persistent log, \<open>replentry.c\<close> and the log deletion of \<open>thread.c\<close>. \<open>raft_state\<close> keeps the
  fields of \<open>gRaftState\<close>; terms are 32-bit and indices 64-bit unsigned numbers held in \<open>nat\<close>
  with the wrap-around written out. \<open>raft_store\<close> is what survives a restart: the persistent
  state entry and the packed log entries of the current and the previous log database, keyed by
  log index. What the database, the schema and the formatting layers below answer is the
  environment \<open>raft_env\<close>: for each call, the error it returns, the clock, whether the server
  is shutting down, and the comparison of host names, which is not case sensitive.
\<close>

section \<open>State\<close>

datatype raft_role =
    VDIR_RAFT_ROLE_CANDIDATE
  | VDIR_RAFT_ROLE_FOLLOWER
  | VDIR_RAFT_ROLE_LEADER

datatype raft_exec_cmd = ExecNone | ExecReqestVote | ExecAppendEntries | ExecPing

datatype raft_proxy_state = RPC_IDLE | RPC_BUSY | RPC_DISCONN | PENDING_ADD

record peer_proxy =
  isDeleted :: bool
  proxy_state :: raft_proxy_state
  raftPeerHostname :: string
  bLogReplicated :: bool
  matchIndex :: nat

record raft_state =
  role :: raft_role
  cmd :: raft_exec_cmd
  hostname :: string
  clusterSize :: nat
  voteConsensusCnt :: nat
  voteDeniedCnt :: nat
  voteConsensusTerm :: nat
  initialized :: bool
  lastPingRecvTime :: nat
  commitIndex :: nat
  commitIndexTerm :: nat
  lastLogIndex :: nat
  firstLogIndex :: nat
  indexToApply :: nat
  opCounts :: nat
  lastLogTerm :: nat
  leader :: string
  disallowUpdates :: bool
  proxies :: "peer_proxy list"
  bHasPrevLog :: bool
  lastApplied :: nat
  currentTerm :: nat
  votedForTerm :: nat
  votedFor :: string

type_synonym log_db = "(nat \<times> bytes) list"

record raft_store =
  st_term :: nat
  st_lastApplied :: nat
  st_firstLogIndex :: nat
  st_votedForTerm :: nat
  logs_current :: log_db
  logs_previous :: log_db

record raft_env =
  env_mem :: "nat \<Rightarrow> bool"
  env_search :: "nat \<Rightarrow> rc"
  env_search_from :: "nat \<Rightarrow> rc"
  env_add :: "nat \<Rightarrow> rc"
  env_delete :: "nat \<Rightarrow> rc"
  env_modify :: "rc"
  env_time :: nat
  env_shutdown :: bool
  env_same :: "string \<Rightarrow> string \<Rightarrow> bool"

text \<open>A term or size read as a C \<open>int\<close>, and the decrement of a \<open>UINT64\<close>.\<close>

definition to_int32 :: "nat \<Rightarrow> int" where
  "to_int32 n = (if n < 2 ^ 31 then int n else int n - 2 ^ 32)"

definition dec64 :: "nat \<Rightarrow> nat" where
  "dec64 n = (if n = 0 then 2 ^ 64 - 1 else n - 1)"

definition LOG_ENTRY_EID_PREFIX :: "64 word" where
  "LOG_ENTRY_EID_PREFIX = 0x4000000000000000"

definition VmDirRaftLogEntryId :: "64 word \<Rightarrow> 64 word" where
  "VmDirRaftLogEntryId LogIndex = (LOG_ENTRY_EID_PREFIX OR LogIndex)"

section \<open>Peer proxies\<close>

definition VmDirClearProxyLogReplicatedInLock :: "raft_state \<Rightarrow> raft_state" where
  "VmDirClearProxyLogReplicatedInLock rs =
     rs\<lparr>proxies := map (\<lambda>p. if isDeleted p then p else p\<lparr>bLogReplicated := False\<rparr>) (proxies rs)\<rparr>"

definition VmDirGetAppendEntriesConsensusCountInLock :: "raft_state \<Rightarrow> nat" where
  "VmDirGetAppendEntriesConsensusCountInLock rs =
     foldl (\<lambda>consensusCnt p. if isDeleted p then consensusCnt
                             else if bLogReplicated p then consensusCnt + 1 else consensusCnt)
       1 (proxies rs)"

definition VmDirPeersConnectedInLock :: "raft_state \<Rightarrow> nat" where
  "VmDirPeersConnectedInLock rs =
     foldl (\<lambda>n p. if isDeleted p \<or> proxy_state p = RPC_DISCONN \<or> proxy_state p = PENDING_ADD
                  then n else n + 1) 0 (proxies rs)"

definition VmDirPeersIdleInLock :: "raft_state \<Rightarrow> nat" where
  "VmDirPeersIdleInLock rs =
     foldl (\<lambda>n p. if isDeleted p then n else if proxy_state p = RPC_IDLE then n + 1 else n)
       0 (proxies rs)"

section \<open>The log database\<close>

text \<open>
  Which database holds a log: with a previous database, the current one only if it has the
  index. \<open>True\<close> stands for the current database.
\<close>

definition VmDirIsEntryInCurrentLog :: "raft_store \<Rightarrow> nat \<Rightarrow> bool" where
  "VmDirIsEntryInCurrentLog st logIndex = (logIndex \<in> set (map fst (logs_current st)))"

definition VmDirBackendForLogIndex :: "raft_state \<Rightarrow> raft_store \<Rightarrow> nat \<Rightarrow> bool" where
  "VmDirBackendForLogIndex rs st logIndex =
     (if bHasPrevLog rs then VmDirIsEntryInCurrentLog st logIndex else True)"

definition backend_logs :: "raft_store \<Rightarrow> bool \<Rightarrow> log_db" where
  "backend_logs st cur = (if cur then logs_current st else logs_previous st)"

text \<open>
  Fetching a log into a structure. No entry with the index leaves the structure as it was and
  is no error; every error path ends with the structure cleared.
\<close>

definition VmDirFetchLogEntry ::
  "raft_env \<Rightarrow> raft_state \<Rightarrow> raft_store \<Rightarrow> nat \<Rightarrow> raft_log \<Rightarrow> (rc \<times> raft_log) option" where
  "VmDirFetchLogEntry env rs st logIndex l =
     (case env_search env logIndex of
        Some e \<Rightarrow> Some (Some e, empty_log)
      | None \<Rightarrow>
          (case map_of (backend_logs st (VmDirBackendForLogIndex rs st logIndex)) logIndex of
             None \<Rightarrow> Some (None, l)
           | Some b \<Rightarrow>
               (case VmDirAllocateAndCopyMemory (env_mem env) b of
                  Some e \<Rightarrow> Some (Some e, empty_log)
                | None \<Rightarrow>
                    do {
                      (err, l') \<leftarrow> VmDirUnpackLogEntry (env_mem env) (l\<lparr>packRaftLog := Some b\<rparr>);
                      case err of
                        Some e \<Rightarrow> Some (Some e, empty_log)
                      | None \<Rightarrow> Some (None, l')
                    })))"

definition VmDirLogLookup ::
  "raft_env \<Rightarrow> raft_state \<Rightarrow> raft_store \<Rightarrow> nat \<Rightarrow> nat \<Rightarrow> (rc \<times> bool \<times> bool) option" where
  "VmDirLogLookup env rs st logIndex logTerm =
     do {
       (err, l) \<leftarrow> VmDirFetchLogEntry env rs st logIndex empty_log;
       case err of
         Some e \<Rightarrow> Some (Some e, False, False)
       | None \<Rightarrow>
           (if log_index l > 0 then Some (None, True, unat (log_term l) = logTerm)
            else Some (None, False, False))
     }"

definition VmDirGetLogTerm ::
  "raft_env \<Rightarrow> raft_state \<Rightarrow> raft_store \<Rightarrow> nat \<Rightarrow> (rc \<times> nat option) option" where
  "VmDirGetLogTerm env rs st i =
     do {
       (err, l) \<leftarrow> VmDirFetchLogEntry env rs st i empty_log;
       case err of
         Some e \<Rightarrow> Some (Some e, None)
       | None \<Rightarrow> Some (None, Some (unat (log_term l)))
     }"

text \<open>
  The closest log at or below a start index, searched downwards to the first log index. The
  result is the pair of index and term, zeros when there is none; on an error the code leaves
  the caller's variables alone.
\<close>

partial_function (option) prev_log_loop ::
  "raft_env \<Rightarrow> raft_state \<Rightarrow> raft_store \<Rightarrow> nat \<Rightarrow> raft_log \<Rightarrow> (rc \<times> (nat \<times> nat) option) option" where
  "prev_log_loop env rs st i le =
     (if firstLogIndex rs \<le> i then
        do {
          (err, le') \<leftarrow> VmDirFetchLogEntry env rs st i le;
          case err of
            Some e \<Rightarrow> Some (Some e, None)
          | None \<Rightarrow>
              (if log_index le' > 0 then Some (None, Some (unat (log_index le'), unat (log_term le')))
               else prev_log_loop env rs st (dec64 i) le')
        }
      else Some (None, Some (0, 0)))"

definition VmDirGetPrevLogArgs ::
  "raft_env \<Rightarrow> raft_state \<Rightarrow> raft_store \<Rightarrow> nat \<Rightarrow> (rc \<times> (nat \<times> nat) option) option" where
  "VmDirGetPrevLogArgs env rs st startIndex = prev_log_loop env rs st startIndex empty_log"

partial_function (option) VmDirGetNextLog_loop ::
  "raft_env \<Rightarrow> raft_state \<Rightarrow> raft_store \<Rightarrow> nat \<Rightarrow> nat \<Rightarrow> raft_log \<Rightarrow> (rc \<times> raft_log) option" where
  "VmDirGetNextLog_loop env rs st startIndex i le =
     (if log_index le = 0 \<and> i \<le> startIndex then
        do {
          (err, le') \<leftarrow> VmDirFetchLogEntry env rs st i le;
          case err of
            Some e \<Rightarrow> Some (Some e, le')
          | None \<Rightarrow> VmDirGetNextLog_loop env rs st startIndex (wrap64 (i + 1)) le'
        }
      else Some (None, le))"

definition VmDirGetNextLog ::
  "raft_env \<Rightarrow> raft_state \<Rightarrow> raft_store \<Rightarrow> nat \<Rightarrow> nat \<Rightarrow> raft_log \<Rightarrow> (rc \<times> raft_log) option" where
  "VmDirGetNextLog env rs st startIndex endIndex le = VmDirGetNextLog_loop env rs st startIndex startIndex le"

text \<open>
  Adding a log received from the leader: the entry's name is its index, so that an existing
  index is refused by the database.
\<close>

definition VmDirPersistLog :: "raft_env \<Rightarrow> raft_store \<Rightarrow> raft_log \<Rightarrow> rc \<times> raft_store" where
  "VmDirPersistLog env st l =
     (case env_add env (unat (log_index l)) of
        Some e \<Rightarrow> (Some e, st)
      | None \<Rightarrow>
          (if VmDirIsEntryInCurrentLog st (unat (log_index l))
           then (Some VMDIR_ERROR_BACKEND_ENTRY_EXISTS, st)
           else (None, st\<lparr>logs_current := (unat (log_index l), case packRaftLog l of None \<Rightarrow> [] | Some b \<Rightarrow> b) #
                                          logs_current st\<rparr>)))"

definition remove_log :: "bool \<Rightarrow> nat \<Rightarrow> raft_store \<Rightarrow> raft_store" where
  "remove_log cur logIndex st =
     (if cur then st\<lparr>logs_current := filter (\<lambda>(i, b). i \<noteq> logIndex) (logs_current st)\<rparr>
      else st\<lparr>logs_previous := filter (\<lambda>(i, b). i \<noteq> logIndex) (logs_previous st)\<rparr>)"

text \<open>Deleting one log; a log that is not there is no error.\<close>

definition VmdirDeleteLog ::
  "raft_env \<Rightarrow> bool \<Rightarrow> nat \<Rightarrow> raft_state \<Rightarrow> raft_store \<Rightarrow> (rc \<times> raft_state \<times> raft_store) option" where
  "VmdirDeleteLog env bCompactLog logIndex rs st =
     (let err = env_delete env logIndex;
          st' = (if err = None then remove_log (VmDirBackendForLogIndex rs st logIndex) logIndex st else st)
      in if err \<noteq> None \<and> err \<noteq> Some VMDIR_ERROR_BACKEND_ENTRY_NOTFOUND then Some (err, rs, st')
         else if \<not> bCompactLog \<and> logIndex \<le> lastLogIndex rs then
           do {
             (e, r) \<leftarrow> VmDirGetPrevLogArgs env rs st' (dec64 logIndex);
             case (e, r) of
               (None, Some (preLogIndex, preLogTerm)) \<Rightarrow>
                 (if preLogIndex = 0 then Some (Some LDAP_OPERATIONS_ERROR, rs, st')
                  else Some (None, rs\<lparr>lastLogIndex := preLogIndex, lastLogTerm := preLogTerm\<rparr>, st'))
             | _ \<Rightarrow> Some (e, rs, st')
           }
         else Some (None, rs, st'))"

text \<open>
  Deleting every log from an index on, highest first. The third component of the result is
  \<open>*pbFatalError\<close>.
\<close>

fun delete_logs_loop ::
  "raft_env \<Rightarrow> nat list \<Rightarrow> raft_state \<Rightarrow> raft_store \<Rightarrow> (rc \<times> bool \<times> raft_state \<times> raft_store) option" where
  "delete_logs_loop env [] rs st = Some (None, False, rs, st)"
| "delete_logs_loop env (i # is) rs st =
     (if i \<le> lastApplied rs then Some (Some LDAP_OPERATIONS_ERROR, True, rs, st)
      else do {
        (err, rs', st') \<leftarrow> VmdirDeleteLog env False i rs st;
        case err of
          Some e \<Rightarrow> Some (Some e, False, rs', st')
        | None \<Rightarrow> delete_logs_loop env is rs' st'
      })"

definition VmDirDeleteAllLogs ::
  "raft_env \<Rightarrow> nat \<Rightarrow> raft_state \<Rightarrow> raft_store \<Rightarrow> (rc \<times> bool \<times> raft_state \<times> raft_store) option" where
  "VmDirDeleteAllLogs env startLogIndex rs st =
     (case env_search_from env startLogIndex of
        Some e \<Rightarrow> Some (Some e, False, rs, st)
      | None \<Rightarrow>
          (let found = filter (\<lambda>i. startLogIndex \<le> i) (map fst (logs_current st)) in
           if found = [] then Some (None, False, rs, st)
           else case VmDirAllocateMemory (env_mem env) (8 * length found) of
                  Some e \<Rightarrow> Some (Some e, False, rs, st)
                | None \<Rightarrow> delete_logs_loop env (rev (sort found)) rs st))"

text \<open>
  Persisting a term. Unless the server is shutting down, a failure trips the assertion, the
  outer \<open>None\<close>; a term that is not positive as an \<open>int\<close> is not written.
\<close>

definition VmDirPersistTerm :: "raft_env \<Rightarrow> nat \<Rightarrow> raft_store \<Rightarrow> raft_store option" where
  "VmDirPersistTerm env trm st =
     (case env_modify env of
        Some e \<Rightarrow> if env_shutdown env then Some st else None
      | None \<Rightarrow> Some (if to_int32 trm > 0 then st\<lparr>st_term := trm\<rparr> else st))"

text \<open>The persistent state entry as the first start creates it.\<close>

definition VmDirInitRaftPsState :: raft_store where
  "VmDirInitRaftPsState =
     \<lparr>st_term = 1, st_lastApplied = 0, st_firstLogIndex = 1, st_votedForTerm = 0,
      logs_current = [], logs_previous = []\<rparr>"

text \<open>
  Loading the state at start-up. \<open>rs\<close> is the process's zeroed state, \<open>hasprev\<close> whether a
  previous log database exists, \<open>max_eid\<close> what the current log database answers when asked for
  its highest entry id.
\<close>

definition VmDirLoadRaftState ::
  "raft_env \<Rightarrow> rc \<Rightarrow> vmdir_error + 64 word \<Rightarrow> bool \<Rightarrow> raft_state \<Rightarrow> raft_store \<Rightarrow>
     (rc \<times> raft_state) option" where
  "VmDirLoadRaftState env search_err max_eid hasprev rs st =
     (case search_err of
        Some e \<Rightarrow> Some (Some e, rs)
      | None \<Rightarrow>
          (let rs1 = rs\<lparr>currentTerm := st_term st, lastApplied := st_lastApplied st,
                        firstLogIndex := st_firstLogIndex st,
                        bHasPrevLog := (hasprev \<or> bHasPrevLog rs)\<rparr> in
           do {
             (err, l) \<leftarrow> VmDirFetchLogEntry env rs1 st (lastApplied rs1) empty_log;
             case err of
               Some e \<Rightarrow> Some (Some e, rs1)
             | None \<Rightarrow>
                 (let rs2 = rs1\<lparr>commitIndex := unat (log_index l), commitIndexTerm := unat (log_term l),
                                 cmd := ExecNone, role := VDIR_RAFT_ROLE_FOLLOWER,
                                 lastPingRecvTime := env_time env\<rparr> in
                  case max_eid of
                    Inl e \<Rightarrow> Some (Some e, rs2)
                  | Inr maxEId \<Rightarrow>
                      do {
                        (err', l') \<leftarrow> VmDirFetchLogEntry env rs2 st
                                       (unat (maxEId AND NOT LOG_ENTRY_EID_PREFIX)) empty_log;
                        case err' of
                          Some e \<Rightarrow> Some (Some e, rs2)
                        | None \<Rightarrow>
                            Some (None, rs2\<lparr>lastLogIndex := unat (log_index l'),
                                            lastLogTerm := unat (log_term l'), initialized := True\<rparr>)
                      })
           }))"

section \<open>What is stored\<close>

text \<open>
  \<open>log_term_at rs st i\<close> is the term of the log stored under index \<open>i\<close>, read off its packed
  header; \<open>store_ok\<close> says that every packed log is stored under the index in its header.
\<close>

definition packed_index :: "bytes \<Rightarrow> nat" where
  "packed_index b = unat (VmDirDecodeUINT64 (take 8 b))"

definition packed_term :: "bytes \<Rightarrow> nat" where
  "packed_term b = unat (VmDirDecodeUINT32 (take 4 (drop 8 b)))"

lemma packed_log_bytes [simp]:
  "packed_index (log_bytes l) = unat (log_index l)" "packed_term (log_bytes l) = unat (log_term l)"
  by (simp_all add: packed_index_def packed_term_def log_bytes_def log_header_def)

definition log_term_at :: "raft_state \<Rightarrow> raft_store \<Rightarrow> nat \<Rightarrow> nat option" where
  "log_term_at rs st i =
     map_option packed_term (map_of (backend_logs st (VmDirBackendForLogIndex rs st i)) i)"

definition store_ok :: "raft_store \<Rightarrow> bool" where
  "store_ok st \<longleftrightarrow>
     (\<forall>(i, b) \<in> set (logs_current st @ logs_previous st). 24 \<le> length b \<and> packed_index b = i \<and> 0 < i)"

text \<open>An environment in which no call below fails.\<close>

definition env_ok :: "raft_env \<Rightarrow> bool" where
  "env_ok env \<longleftrightarrow>
     (\<forall>n. env_mem env n) \<and> (\<forall>i. env_search env i = None) \<and> (\<forall>i. env_search_from env i = None) \<and>
     (\<forall>i. env_add env i = None) \<and> (\<forall>i. env_delete env i = None) \<and> env_modify env = None"

lemma env_okD [simp]:
  assumes "env_ok env"
  shows "env_mem env n" "env_search env i = None" "env_search_from env i = None"
    "env_add env i = None" "env_delete env i = None" "env_modify env = None"
  using assms by (simp_all add: env_ok_def)

lemma store_okD:
  assumes "store_ok st" and "map_of (backend_logs st c) i = Some b"
  shows "24 \<le> length b" and "packed_index b = i" and "0 < i"
  using assms map_of_SomeD [OF assms(2)]
  by (auto simp: store_ok_def backend_logs_def split: if_splits)

lemma unpack_packed:
  assumes "24 \<le> length b" and "\<forall>n. mem n"
  shows "VmDirUnpackLogEntry mem (l\<lparr>packRaftLog := Some b\<rparr>) =
           Some (None, \<lparr>log_index = VmDirDecodeUINT64 (take 8 b),
                        log_term = VmDirDecodeUINT32 (take 4 (drop 8 b)),
                        log_entryId = VmDirDecodeUINT64 (take 8 (drop 12 b)),
                        log_requestCode = VmDirDecodeUINT32 (take 4 (drop 20 b)),
                        chglog = drop 24 b, packRaftLog = Some b\<rparr>)"
  using assms
  by (auto simp: VmDirUnpackLogEntry_def unpack_log_at_def read_uint64_def read_uint32_def
      RAFT_LOG_HEADER_LEN_def VmDirAllocateMemory_def Let_def)

lemma fetch_found:
  assumes "env_ok env" and "store_ok st" and "log_term_at rs st i = Some t"
  shows "\<exists>l'. VmDirFetchLogEntry env rs st i l = Some (None, l') \<and>
           unat (log_index l') = i \<and> unat (log_term l') = t \<and> 0 < i"
proof -
  obtain b where b: "map_of (backend_logs st (VmDirBackendForLogIndex rs st i)) i = Some b"
      "packed_term b = t"
    using assms(3) by (auto simp: log_term_at_def)
  note ok = store_okD [OF assms(2) b(1)]
  have "VmDirUnpackLogEntry (env_mem env) (l\<lparr>packRaftLog := Some b\<rparr>) =
      Some (None, \<lparr>log_index = VmDirDecodeUINT64 (take 8 b),
                   log_term = VmDirDecodeUINT32 (take 4 (drop 8 b)),
                   log_entryId = VmDirDecodeUINT64 (take 8 (drop 12 b)),
                   log_requestCode = VmDirDecodeUINT32 (take 4 (drop 20 b)),
                   chglog = drop 24 b, packRaftLog = Some b\<rparr>)"
    using unpack_packed [OF ok(1)] assms(1) by simp
  moreover have "VmDirAllocateAndCopyMemory (env_mem env) b = None"
    using ok(1) assms(1) by (auto simp: memory_defs)
  ultimately show ?thesis
    using assms(1) b ok(2,3)
    by (simp add: VmDirFetchLogEntry_def packed_index_def packed_term_def)
qed

lemma fetch_missing:
  assumes "env_ok env" and "log_term_at rs st i = None"
  shows "VmDirFetchLogEntry env rs st i l = Some (None, l)"
  using assms by (simp add: VmDirFetchLogEntry_def log_term_at_def)

text \<open>The greatest stored index at or below \<open>n\<close>, not below the first log index, with its term.\<close>

fun prev_log :: "raft_state \<Rightarrow> raft_store \<Rightarrow> nat \<Rightarrow> nat \<times> nat" where
  "prev_log rs st 0 = (0, 0)"
| "prev_log rs st (Suc n) =
     (if firstLogIndex rs \<le> Suc n
      then case log_term_at rs st (Suc n) of Some t \<Rightarrow> (Suc n, t) | None \<Rightarrow> prev_log rs st n
      else (0, 0))"

lemma prev_log_loop_eq:
  assumes "env_ok env" and "store_ok st" and "1 \<le> firstLogIndex rs" and "log_index le = 0"
  shows "prev_log_loop env rs st n le = Some (None, Some (prev_log rs st n))"
proof (induction n)
  case 0
  then show ?case
    using assms(3) by (subst prev_log_loop.simps) simp
next
  case (Suc n)
  show ?case
  proof (cases "firstLogIndex rs \<le> Suc n")
    case False
    then show ?thesis by (subst prev_log_loop.simps) simp
  next
    case True
    show ?thesis
    proof (cases "log_term_at rs st (Suc n)")
      case None
      then show ?thesis
        using True Suc fetch_missing [OF assms(1) None, of le] assms(4)
        by (subst prev_log_loop.simps) (simp add: dec64_def)
    next
      case (Some t)
      then obtain l' where l': "VmDirFetchLogEntry env rs st (Suc n) le = Some (None, l')"
          "unat (log_index l') = Suc n" "unat (log_term l') = t"
        using fetch_found [OF assms(1,2) Some] by blast
      then have "0 < log_index l'"
        by (metis unat_0 nat.distinct(1) word_gt_0)
      then show ?thesis
        using True Some l' by (subst prev_log_loop.simps) simp
    qed
  qed
qed

lemma get_prev_log_args:
  assumes "env_ok env" and "store_ok st" and "1 \<le> firstLogIndex rs"
  shows "VmDirGetPrevLogArgs env rs st n = Some (None, Some (prev_log rs st n))"
  using prev_log_loop_eq [OF assms, of empty_log] by (simp add: VmDirGetPrevLogArgs_def empty_log_def)

lemma prev_log_found:
  "prev_log rs st n = (i, t) \<Longrightarrow> i \<noteq> 0 \<Longrightarrow>
     log_term_at rs st i = Some t \<and> firstLogIndex rs \<le> i \<and> i \<le> n \<and>
     (\<forall>j. i < j \<and> j \<le> n \<longrightarrow> log_term_at rs st j = None)"
proof (induction n)
  case (Suc n)
  then show ?case
    by (fastforce split: if_splits option.splits simp: le_Suc_eq)
qed simp

lemma prev_log_none:
  "prev_log rs st n = (0, t) \<Longrightarrow>
     \<forall>j. 0 < j \<and> firstLogIndex rs \<le> j \<and> j \<le> n \<longrightarrow> log_term_at rs st j = None"
proof (induction n)
  case (Suc n)
  then show ?case
    by (fastforce split: if_splits option.splits simp: le_Suc_eq)
qed simp

section \<open>Deleting the tail of the log\<close>

text \<open>\<open>lastLogIndex\<close> and \<open>lastLogTerm\<close> describe the highest log that is stored.\<close>

definition last_log_ok :: "raft_state \<Rightarrow> raft_store \<Rightarrow> bool" where
  "last_log_ok rs st \<longleftrightarrow>
     log_term_at rs st (lastLogIndex rs) = Some (lastLogTerm rs) \<and>
     (\<forall>j. lastLogIndex rs < j \<longrightarrow> log_term_at rs st j = None)"

lemma map_of_filter_key: "map_of (filter (\<lambda>(k, b). k \<noteq> i) xs) j = (if j = i then None else map_of xs j)"
  by (induction xs) auto

lemma log_term_at_cong:
  "bHasPrevLog rs' = bHasPrevLog rs \<Longrightarrow> log_term_at rs' st i = log_term_at rs st i"
  by (simp add: log_term_at_def VmDirBackendForLogIndex_def)

lemma log_term_at_stored:
  "log_term_at rs st i \<noteq> None \<Longrightarrow> i \<in> fst ` set (logs_current st) \<union> fst ` set (logs_previous st)"
  by (auto simp: log_term_at_def backend_logs_def split: if_splits dest!: map_of_SomeD intro: rev_image_eqI)

lemma log_term_at_current:
  "i \<in> fst ` set (logs_current st) \<Longrightarrow> log_term_at rs st i \<noteq> None"
  by (auto simp: log_term_at_def VmDirBackendForLogIndex_def backend_logs_def VmDirIsEntryInCurrentLog_def
      map_of_eq_None_iff rev_image_eqI)

lemma log_term_at_remove:
  assumes "i \<notin> fst ` set (logs_previous st)"
  shows "log_term_at rs (remove_log True i st) j = (if j = i then None else log_term_at rs st j)"
proof -
  have cur: "j \<in> fst ` set (filter (\<lambda>(k, b). k \<noteq> i) xs) \<longleftrightarrow> j \<noteq> i \<and> j \<in> fst ` set xs" for xs :: log_db
    by force
  have "map_of (logs_previous st) i = None"
    using assms by (simp add: map_of_eq_None_iff)
  then show ?thesis
    by (auto simp: log_term_at_def VmDirBackendForLogIndex_def VmDirIsEntryInCurrentLog_def backend_logs_def
        remove_log_def cur map_of_filter_key)
qed

lemma store_ok_remove: "store_ok st \<Longrightarrow> store_ok (remove_log c i st)"
  by (auto simp: store_ok_def remove_log_def)

lemma delete_last_log:
  assumes env: "env_ok env" and st: "store_ok st" and first: "1 \<le> firstLogIndex rs"
    and last: "last_log_ok rs st" and cur: "lastLogIndex rs \<in> fst ` set (logs_current st)"
    and old: "lastLogIndex rs \<notin> fst ` set (logs_previous st)"
    and anchor: "log_term_at rs st p \<noteq> None" "firstLogIndex rs \<le> p" "p < lastLogIndex rs"
  shows "\<exists>i t. VmdirDeleteLog env False (lastLogIndex rs) rs st =
            Some (None, rs\<lparr>lastLogIndex := i, lastLogTerm := t\<rparr>, remove_log True (lastLogIndex rs) st) \<and>
           last_log_ok (rs\<lparr>lastLogIndex := i, lastLogTerm := t\<rparr>) (remove_log True (lastLogIndex rs) st) \<and>
           p \<le> i \<and> i < lastLogIndex rs"
proof -
  let ?n = "lastLogIndex rs" and ?st = "remove_log True (lastLogIndex rs) st"
  obtain i t where pl: "prev_log rs ?st (?n - 1) = (i, t)" by fastforce
  note rem = log_term_at_remove [OF old]
  have p: "log_term_at rs ?st p \<noteq> None" "p \<le> ?n - 1" "0 < p"
    using anchor first by (auto simp: rem)
  then have "i \<noteq> 0"
    using prev_log_none [of rs ?st "?n - 1" t] pl anchor(2) by (cases "i = 0") auto
  note found = prev_log_found [OF pl \<open>i \<noteq> 0\<close>]
  have "p \<le> i"
    using found p by (metis not_less)
  have "VmDirBackendForLogIndex rs st ?n = True"
    using cur by (simp add: VmDirBackendForLogIndex_def VmDirIsEntryInCurrentLog_def)
  then have "VmdirDeleteLog env False ?n rs st = Some (None, rs\<lparr>lastLogIndex := i, lastLogTerm := t\<rparr>, ?st)"
    using get_prev_log_args [OF env store_ok_remove [OF st] first] pl \<open>i \<noteq> 0\<close> env anchor(3)
    by (simp add: VmdirDeleteLog_def dec64_def Let_def)
  moreover have "last_log_ok (rs\<lparr>lastLogIndex := i, lastLogTerm := t\<rparr>) ?st"
    unfolding last_log_ok_def
  proof (intro conjI allI impI)
    show "log_term_at (rs\<lparr>lastLogIndex := i, lastLogTerm := t\<rparr>) ?st
        (lastLogIndex (rs\<lparr>lastLogIndex := i, lastLogTerm := t\<rparr>)) =
        Some (lastLogTerm (rs\<lparr>lastLogIndex := i, lastLogTerm := t\<rparr>))"
      using found by (simp add: log_term_at_cong [of "rs\<lparr>lastLogIndex := i, lastLogTerm := t\<rparr>" rs])
    fix j assume "lastLogIndex (rs\<lparr>lastLogIndex := i, lastLogTerm := t\<rparr>) < j"
    then have "i < j" by simp
    then have "log_term_at rs ?st j = None"
      using found last by (cases "j \<le> ?n - 1") (auto simp: rem last_log_ok_def)
    then show "log_term_at (rs\<lparr>lastLogIndex := i, lastLogTerm := t\<rparr>) ?st j = None"
      by (simp add: log_term_at_cong [of "rs\<lparr>lastLogIndex := i, lastLogTerm := t\<rparr>" rs])
  qed
  ultimately show ?thesis
    using \<open>p \<le> i\<close> found anchor(3) by fastforce
qed

lemma delete_logs_loop_ok:
  assumes env: "env_ok env" and "store_ok st" and "1 \<le> firstLogIndex rs" and "last_log_ok rs st"
    and "\<forall>i \<in> fst ` set (logs_previous st). i < start"
    and "log_term_at rs st p \<noteq> None" and "firstLogIndex rs \<le> p" and "p < start"
    and "lastApplied rs < start"
    and "sorted_wrt (>) is" and "set is = {i \<in> fst ` set (logs_current st). start \<le> i}"
  shows "\<exists>i t. delete_logs_loop env is rs st =
           Some (None, False, rs\<lparr>lastLogIndex := i, lastLogTerm := t\<rparr>,
                 st\<lparr>logs_current := filter (\<lambda>(k, b). k < start) (logs_current st)\<rparr>) \<and>
           last_log_ok (rs\<lparr>lastLogIndex := i, lastLogTerm := t\<rparr>)
             (st\<lparr>logs_current := filter (\<lambda>(k, b). k < start) (logs_current st)\<rparr>)"
  using assms(2-)
proof (induction "is" arbitrary: rs st)
  case Nil
  have "fst x < start" if "x \<in> set (logs_current st)" for x
    using Nil.prems(10) imageI [OF that, of fst] by (auto simp: not_le [symmetric])
  then have "filter (\<lambda>(k, b). k < start) (logs_current st) = logs_current st"
    by (intro filter_True) auto
  then have same: "st\<lparr>logs_current := filter (\<lambda>(k, b). k < start) (logs_current st)\<rparr> = st"
    by simp
  show ?case
    unfolding same using Nil.prems(3)
    by (intro exI [of _ "lastLogIndex rs"] exI [of _ "lastLogTerm rs"]) simp
next
  case (Cons n ns)
  have n_in: "n \<in> fst ` set (logs_current st)" "start \<le> n"
    using Cons.prems(10) by auto
  have n: "n = lastLogIndex rs"
  proof (rule antisym)
    show "n \<le> lastLogIndex rs"
      using Cons.prems(3) log_term_at_current [OF n_in(1), of rs] by (auto simp: last_log_ok_def not_less)
    then have "start \<le> lastLogIndex rs"
      using n_in by simp
    moreover have "lastLogIndex rs \<in> fst ` set (logs_current st) \<union> fst ` set (logs_previous st)"
      using Cons.prems(3) by (intro log_term_at_stored [of rs]) (auto simp: last_log_ok_def)
    ultimately have "lastLogIndex rs \<in> set (n # ns)"
      using Cons.prems(4,10) by auto
    then show "lastLogIndex rs \<le> n"
      using Cons.prems(9) by auto
  qed
  let ?st = "remove_log True n st"
  have old: "lastLogIndex rs \<notin> fst ` set (logs_previous st)"
    using Cons.prems(4) n_in(2) n by auto
  obtain i t where del: "VmdirDeleteLog env False n rs st = Some (None, rs\<lparr>lastLogIndex := i, lastLogTerm := t\<rparr>, ?st)"
      and last': "last_log_ok (rs\<lparr>lastLogIndex := i, lastLogTerm := t\<rparr>) ?st"
    using delete_last_log [OF env Cons.prems(1,2,3) _ old Cons.prems(5,6)] n_in n Cons.prems(7) by auto
  have st': "?st\<lparr>logs_current := filter (\<lambda>(k, b). k < start) (logs_current ?st)\<rparr> =
      st\<lparr>logs_current := filter (\<lambda>(k, b). k < start) (logs_current st)\<rparr>"
  proof -
    have "filter (\<lambda>(k, b). k < start) (filter (\<lambda>(k, b). k \<noteq> n) xs) = filter (\<lambda>(k, b). k < start) xs"
      for xs :: log_db
      using n_in(2) by (induction xs) auto
    then show ?thesis by (simp add: remove_log_def del: filter_filter)
  qed
  define rs1 where "rs1 = rs\<lparr>lastLogIndex := i, lastLogTerm := t\<rparr>"
  have rs1: "firstLogIndex rs1 = firstLogIndex rs" "lastApplied rs1 = lastApplied rs"
      "rs1\<lparr>lastLogIndex := i', lastLogTerm := t'\<rparr> = rs\<lparr>lastLogIndex := i', lastLogTerm := t'\<rparr>" for i' t'
    by (simp_all add: rs1_def)
  have "log_term_at rs1 ?st p = log_term_at rs ?st p"
    by (rule log_term_at_cong) (simp add: rs1_def)
  then have p: "log_term_at rs1 ?st p \<noteq> None"
    using Cons.prems(5,7) n_in(2) old n by (simp add: log_term_at_remove)
  have ns: "set ns = {i \<in> fst ` set (logs_current ?st). start \<le> i}"
  proof -
    have "set ns = set (n # ns) - {n}"
      using Cons.prems(9) by auto
    moreover have "fst ` set (logs_current ?st) = fst ` set (logs_current st) - {n}"
      by (force simp: remove_log_def)
    ultimately show ?thesis
      unfolding Cons.prems(10) by auto
  qed
  have prev: "\<forall>i \<in> fst ` set (logs_previous ?st). i < start"
    using Cons.prems(4) by (simp add: remove_log_def)
  have "sorted_wrt (>) ns"
    using Cons.prems(9) by simp
  then have "\<exists>i t. delete_logs_loop env ns rs1 ?st =
      Some (None, False, rs1\<lparr>lastLogIndex := i, lastLogTerm := t\<rparr>,
            ?st\<lparr>logs_current := filter (\<lambda>(k, b). k < start) (logs_current ?st)\<rparr>) \<and>
      last_log_ok (rs1\<lparr>lastLogIndex := i, lastLogTerm := t\<rparr>)
        (?st\<lparr>logs_current := filter (\<lambda>(k, b). k < start) (logs_current ?st)\<rparr>)"
    using Cons.prems(2,6,7,8) p ns prev last' rs1
    by (intro Cons.IH [OF store_ok_remove [OF Cons.prems(1)]]) (simp_all add: rs1_def)
  moreover have "delete_logs_loop env (n # ns) rs st = delete_logs_loop env ns rs1 ?st"
    using Cons.prems(8) n_in(2) del by (simp add: rs1_def)
  ultimately show ?case
    unfolding rs1(3) st' by simp
qed

lemma delete_all_logs_ok:
  assumes "env_ok env" and "store_ok st" and "1 \<le> firstLogIndex rs" and "last_log_ok rs st"
    and "distinct (map fst (logs_current st))"
    and "\<forall>i \<in> fst ` set (logs_previous st). i < start"
    and "log_term_at rs st p \<noteq> None" and "firstLogIndex rs \<le> p" and "p < start"
    and "lastApplied rs < start"
  shows "\<exists>i t. VmDirDeleteAllLogs env start rs st =
           Some (None, False, rs\<lparr>lastLogIndex := i, lastLogTerm := t\<rparr>,
                 st\<lparr>logs_current := filter (\<lambda>(k, b). k < start) (logs_current st)\<rparr>) \<and>
           last_log_ok (rs\<lparr>lastLogIndex := i, lastLogTerm := t\<rparr>)
             (st\<lparr>logs_current := filter (\<lambda>(k, b). k < start) (logs_current st)\<rparr>)"
proof -
  let ?found = "filter (\<lambda>i. start \<le> i) (map fst (logs_current st))"
  have sorted: "sorted_wrt (>) (rev (sort ?found))"
    using assms(5) strict_sorted_iff [of "sort ?found"] by (simp add: sorted_wrt_rev)
  have elems: "set (rev (sort ?found)) = {i \<in> fst ` set (logs_current st). start \<le> i}"
    by auto
  note loop = delete_logs_loop_ok [OF assms(1-4,6-10) sorted elems]
  show ?thesis
  proof (cases "?found = []")
    case True
    then show ?thesis
      using loop assms(1) by (simp add: VmDirDeleteAllLogs_def)
  next
    case False
    then have "8 * length ?found \<noteq> 0"
      by (simp only: mult_eq_0_iff length_0_conv) simp
    then have "VmDirAllocateMemory (env_mem env) (8 * length ?found) = None"
      using assms(1) by (simp only: VmDirAllocateMemory_def env_okD) simp
    with False show ?thesis
      using loop assms(1) by (simp add: VmDirDeleteAllLogs_def Let_def)
  qed
qed

lemma log_term_at_cut:
  assumes "\<forall>i \<in> fst ` set (logs_previous st). i < n"
  shows "log_term_at rs (st\<lparr>logs_current := filter (\<lambda>(k, b). k < n) (logs_current st)\<rparr>) j =
           (if j < n then log_term_at rs st j else None)"
proof -
  have cur: "j \<in> fst ` set (filter (\<lambda>(k, b). k < n) xs) \<longleftrightarrow> j < n \<and> j \<in> fst ` set xs" for xs :: log_db
    by force
  have of: "map_of (filter (\<lambda>(k, b). k < n) xs) j = (if j < n then map_of xs j else None)" for xs :: log_db
    by (induction xs) auto
  have "map_of (logs_previous st) j = None" if "\<not> j < n"
    using assms that by (auto simp: map_of_eq_None_iff)
  then show ?thesis
    by (auto simp: log_term_at_def VmDirBackendForLogIndex_def VmDirIsEntryInCurrentLog_def backend_logs_def
        cur of)
qed

lemma log_term_at_add:
  "log_term_at rs (st\<lparr>logs_current := (i, b) # xs\<rparr>) j =
     (if j = i then Some (packed_term b) else log_term_at rs (st\<lparr>logs_current := xs\<rparr>) j)"
  by (auto simp: log_term_at_def VmDirBackendForLogIndex_def VmDirIsEntryInCurrentLog_def backend_logs_def)

text \<open>
  C12. Deleting the log from an index on: when the database answers, the index lies above what
  has been applied and some log below it is stored, the deletion returns without a fatal error,
  removes exactly the logs from that index on, and leaves \<open>lastLogIndex\<close> and \<open>lastLogTerm\<close>
  describing the highest log that remains.
\<close>

theorem delete_all_logs_exact:
  assumes "env_ok env" and "store_ok st" and "1 \<le> firstLogIndex rs" and "last_log_ok rs st"
    and "distinct (map fst (logs_current st))"
    and "\<forall>i \<in> fst ` set (logs_previous st). i < start"
    and "log_term_at rs st p \<noteq> None" and "firstLogIndex rs \<le> p" and "p < start"
    and "lastApplied rs < start"
  shows "\<exists>i t. VmDirDeleteAllLogs env start rs st =
           Some (None, False, rs\<lparr>lastLogIndex := i, lastLogTerm := t\<rparr>,
                 st\<lparr>logs_current := filter (\<lambda>(k, b). k < start) (logs_current st)\<rparr>) \<and>
           last_log_ok (rs\<lparr>lastLogIndex := i, lastLogTerm := t\<rparr>)
             (st\<lparr>logs_current := filter (\<lambda>(k, b). k < start) (logs_current st)\<rparr>)"
  using delete_all_logs_ok [OF assms] .

text \<open>A small log for concrete instances: two logs of terms 1 and 2 under an environment that answers.\<close>

definition small_env :: raft_env where
  "small_env = \<lparr>env_mem = (\<lambda>_. True), env_search = (\<lambda>_. None), env_search_from = (\<lambda>_. None),
                env_add = (\<lambda>_. None), env_delete = (\<lambda>_. None), env_modify = None, env_time = 0,
                env_shutdown = False, env_same = (=)\<rparr>"

definition small_log :: "nat \<Rightarrow> nat \<Rightarrow> nat \<times> bytes" where
  "small_log i t = (i, log_bytes (empty_log\<lparr>log_index := of_nat i, log_term := of_nat t\<rparr>))"

definition small_store :: raft_store where
  "small_store = \<lparr>st_term = 2, st_lastApplied = 1, st_firstLogIndex = 1, st_votedForTerm = 0,
                  logs_current = [small_log 2 2, small_log 1 1], logs_previous = []\<rparr>"

definition small_state :: raft_state where
  "small_state =
     \<lparr>role = VDIR_RAFT_ROLE_FOLLOWER, cmd = ExecNone, hostname = ''b'', clusterSize = 3,
      voteConsensusCnt = 0, voteDeniedCnt = 0, voteConsensusTerm = 0, initialized = True,
      lastPingRecvTime = 0, commitIndex = 1, commitIndexTerm = 1, lastLogIndex = 2,
      firstLogIndex = 1, indexToApply = 0, opCounts = 0, lastLogTerm = 2, leader = ''a'',
      disallowUpdates = False, proxies = [], bHasPrevLog = False, lastApplied = 1,
      currentTerm = 2, votedForTerm = 0, votedFor = []\<rparr>"

lemmas small_defs = small_env_def small_log_def small_store_def small_state_def

lemma small_ok:
  "env_ok small_env" "store_ok small_store" "last_log_ok small_state small_store"
  "log_term_at small_state small_store 1 = Some 1"
  by (auto simp: small_defs env_ok_def store_ok_def length_log_bytes last_log_ok_def log_term_at_def
      backend_logs_def VmDirBackendForLogIndex_def)

lemma small_term_at:
  "log_term_at small_state small_store j = (if j = 2 then Some 2 else if j = 1 then Some 1 else None)"
  by (auto simp: small_defs log_term_at_def backend_logs_def VmDirBackendForLogIndex_def)

theorem delete_all_logs_exact_witness:
  "\<exists>i t. VmDirDeleteAllLogs small_env 2 small_state small_store =
     Some (None, False, small_state\<lparr>lastLogIndex := i, lastLogTerm := t\<rparr>,
           small_store\<lparr>logs_current := [small_log 1 1]\<rparr>)"
proof -
  have "filter (\<lambda>(k, b). k < 2) (logs_current small_store) = [small_log 1 1]"
    by (simp add: small_defs)
  then show ?thesis
    using delete_all_logs_exact [OF small_ok(1,2) _ small_ok(3), of 2 1] small_ok(4)
    by (auto simp: small_store_def small_log_def small_state_def)
qed

text \<open>
  C20. The previous log: with a first log index of at least 1 the downward search returns, and
  its result is the highest stored index between the first log index and the start, with the
  term stored there, or zeros when there is none.
\<close>

theorem get_prev_log_args_highest:
  assumes "env_ok env" and "store_ok st" and "1 \<le> firstLogIndex rs"
  shows "\<exists>i t. VmDirGetPrevLogArgs env rs st start = Some (None, Some (i, t)) \<and>
           (if i = 0 then t = 0 \<and> (\<forall>j \<in> {firstLogIndex rs..start}. log_term_at rs st j = None)
            else log_term_at rs st i = Some t \<and> i \<in> {firstLogIndex rs..start} \<and>
                 (\<forall>j \<in> {i<..start}. log_term_at rs st j = None))"
proof -
  obtain i t where pl: "prev_log rs st start = (i, t)" by fastforce
  have "t = 0" if "i = 0"
    using pl that by (induction start) (auto split: if_splits option.splits)
  then show ?thesis
    using get_prev_log_args [OF assms, of start] pl prev_log_found [OF pl] prev_log_none [of rs st start t]
      assms(3)
    by (cases "i = 0") auto
qed

theorem get_prev_log_args_highest_witness:
  "VmDirGetPrevLogArgs small_env small_state small_store 5 = Some (None, Some (2, 2))"
proof -
  have first: "1 \<le> firstLogIndex small_state" "firstLogIndex small_state = 1"
    by (simp_all add: small_state_def)
  obtain i t where res: "VmDirGetPrevLogArgs small_env small_state small_store 5 = Some (None, Some (i, t))"
      and it: "if i = 0 then t = 0 \<and> (\<forall>j \<in> {1..5}. log_term_at small_state small_store j = None)
          else log_term_at small_state small_store i = Some t \<and> i \<in> {1..5} \<and>
               (\<forall>j \<in> {i<..5}. log_term_at small_state small_store j = None)"
    using get_prev_log_args_highest [OF small_ok(1,2) first(1), of 5] unfolding first(2) by blast
  have "i \<noteq> 0"
    using it by (auto simp: small_term_at split: if_splits)
  then have "i = 2 \<and> t = 2"
    using it by (auto simp: small_term_at split: if_splits)
  then show ?thesis
    using res by simp
qed

section \<open>What log operations leave alone\<close>

text \<open>
  \<open>log_frame rs rs'\<close>: only the position of the last log differs. \<open>vote_frame rs rs'\<close>: the
  ballot, the running count and the identity of the server are unchanged, no vote is started,
  and the term does not go back.
\<close>

definition log_frame :: "raft_state \<Rightarrow> raft_state \<Rightarrow> bool" where
  "log_frame rs rs' \<longleftrightarrow> (\<exists>i t. rs' = rs\<lparr>lastLogIndex := i, lastLogTerm := t\<rparr>)"

definition vote_frame :: "raft_state \<Rightarrow> raft_state \<Rightarrow> bool" where
  "vote_frame rs rs' \<longleftrightarrow>
     votedFor rs' = votedFor rs \<and> votedForTerm rs' = votedForTerm rs \<and>
     voteConsensusCnt rs' = voteConsensusCnt rs \<and> voteConsensusTerm rs' = voteConsensusTerm rs \<and>
     hostname rs' = hostname rs \<and> clusterSize rs' = clusterSize rs \<and>
     (cmd rs' = cmd rs \<or> cmd rs' \<noteq> ExecReqestVote) \<and> currentTerm rs \<le> currentTerm rs'"

lemma log_frame_refl [simp]: "log_frame rs rs"
  unfolding log_frame_def by (rule exI [of _ "lastLogIndex rs"], rule exI [of _ "lastLogTerm rs"]) simp

lemma log_frame_trans: "log_frame a b \<Longrightarrow> log_frame b c \<Longrightarrow> log_frame a c"
  by (clarsimp simp: log_frame_def) blast

lemma log_frame_upd [simp]: "log_frame rs (rs\<lparr>lastLogIndex := i, lastLogTerm := t\<rparr>)"
  by (auto simp: log_frame_def)

lemma log_frame_vote_frame: "log_frame rs rs' \<Longrightarrow> vote_frame rs rs'"
  by (auto simp: log_frame_def vote_frame_def)

lemma vote_frame_trans: "vote_frame a b \<Longrightarrow> vote_frame b c \<Longrightarrow> vote_frame a c"
  by (auto simp: vote_frame_def)

lemma delete_log_frame: "VmdirDeleteLog env b i rs st = Some (e, rs', st') \<Longrightarrow> log_frame rs rs'"
  by (auto simp: VmdirDeleteLog_def Let_def split: bind_splits option.splits prod.splits if_splits)

lemma delete_logs_loop_frame:
  "delete_logs_loop env is rs st = Some (e, f, rs', st') \<Longrightarrow> log_frame rs rs'"
proof (induction "is" arbitrary: rs st)
  case (Cons i "is")
  show ?case
  proof (cases "i \<le> lastApplied rs")
    case True
    then show ?thesis using Cons.prems by simp
  next
    case False
    obtain err rs1 st1 where del: "VmdirDeleteLog env False i rs st = Some (err, rs1, st1)"
      using Cons.prems False by (cases "VmdirDeleteLog env False i rs st") auto
    then have "log_frame rs1 rs'"
      using Cons False by (cases err) auto
    then show ?thesis
      using delete_log_frame [OF del] log_frame_trans by blast
  qed
qed simp

lemma delete_all_logs_frame:
  "VmDirDeleteAllLogs env n rs st = Some (e, f, rs', st') \<Longrightarrow> log_frame rs rs'"
  by (auto simp: VmDirDeleteAllLogs_def Let_def split: option.splits if_splits dest: delete_logs_loop_frame)

end
