(* ===== verification/Raft_Vote.thy ===== *)
theory Raft_Vote
  imports Raft_State
begin

text \<open>
  Leader election: the RequestVote handler of \<open>lwraft/server/replication/raftldaprpc.c\<close> and the
  candidate's side in \<open>thread.c\<close>. A handler that runs under the state mutex from its first
  access to its last is one function of the state; the election thread, which releases the
  mutex between its sections, is one function per section. Results of allocations are
  parameters; the outer \<open>None\<close> is a failed assertion while persisting a term.
\<close>

section \<open>The voter\<close>

definition log_newer :: "raft_state \<Rightarrow> nat \<Rightarrow> nat \<Rightarrow> bool" where
  "log_newer rs llIndex llTerm \<longleftrightarrow>
     lastLogTerm rs > llTerm \<or> (lastLogTerm rs = llTerm \<and> lastLogIndex rs > llIndex)"

text \<open>
  The decision: the error, the value of \<open>iVoteGranted\<close> (0 granted, 1 denied, 2 denied because
  the voter's log is newer) and the state before the common exit path.
\<close>

definition vote_decision ::
  "raft_env \<Rightarrow> rc \<Rightarrow> rc \<Rightarrow> nat \<Rightarrow> string \<Rightarrow> nat \<Rightarrow> nat \<Rightarrow> raft_state \<Rightarrow> rc \<times> nat \<times> raft_state" where
  "vote_decision env alloc dup trm candidateId llIndex llTerm rs =
     (if \<not> initialized rs then (Some VMDIR_ERROR_UNWILLING_TO_PERFORM, 1, rs)
      else if trm < currentTerm rs \<or> log_newer rs llIndex llTerm \<or>
              (role rs = VDIR_RAFT_ROLE_LEADER \<and> trm = currentTerm rs)
      then (None, if log_newer rs llIndex llTerm then 2 else 1, rs)
      else if votedFor rs \<noteq> [] \<and> votedForTerm rs = trm \<and> \<not> env_same env (votedFor rs) candidateId
      then (None, 1, rs)
      else case alloc of
             Some e \<Rightarrow> (Some e, 0, rs\<lparr>votedFor := []\<rparr>)
           | None \<Rightarrow> (dup, 0, rs\<lparr>votedFor := candidateId\<rparr>))"

definition VmDirRequestVoteGetReply ::
  "raft_env \<Rightarrow> rc \<Rightarrow> rc \<Rightarrow> nat \<Rightarrow> string \<Rightarrow> nat \<Rightarrow> nat \<Rightarrow> raft_state \<Rightarrow> raft_store \<Rightarrow>
     (rc \<times> nat \<times> nat \<times> raft_state \<times> raft_store) option" where
  "VmDirRequestVoteGetReply env alloc dup trm candidateId llIndex llTerm rs st =
     (let oldTerm = (if initialized rs then currentTerm rs else 0);
          (err, iVoteGranted, rs1) = vote_decision env alloc dup trm candidateId llIndex llTerm rs;
          rs2 = (if trm > currentTerm rs1
                 then rs1\<lparr>currentTerm := trm, role := VDIR_RAFT_ROLE_FOLLOWER,
                          lastPingRecvTime := (if iVoteGranted = 2 then 0 else env_time env)\<rparr>
                 else rs1);
          rs3 = (if iVoteGranted = 0 then rs2\<lparr>votedForTerm := currentTerm rs2\<rparr> else rs2);
          newTerm = currentTerm rs3
      in do {
           st' \<leftarrow> (if err = None \<and> to_int32 newTerm > to_int32 oldTerm
                  then VmDirPersistTerm env newTerm st else Some st);
           Some (err, newTerm, iVoteGranted, rs3, st')
         })"

section \<open>The candidate\<close>

text \<open>
  One round of the election thread up to \<open>startVote\<close>: whether to start a vote, the state and
  the next wait time, \<open>None\<close> where the code keeps the previous one. \<open>timeout\<close> is
  \<open>dwRaftElectionTimeoutMS\<close>.
\<close>

definition vote_schedule :: "raft_env \<Rightarrow> nat \<Rightarrow> raft_state \<Rightarrow> bool \<times> raft_state \<times> nat option" where
  "vote_schedule env timeout rs =
     (if clusterSize rs < 2 then (False, rs, None)
      else case role rs of
             VDIR_RAFT_ROLE_CANDIDATE \<Rightarrow> (True, rs, None)
           | VDIR_RAFT_ROLE_FOLLOWER \<Rightarrow>
               (if env_time env < lastPingRecvTime rs then (False, rs, Some timeout)
                else let waitTimeRemain = env_time env - lastPingRecvTime rs in
                  if waitTimeRemain \<ge> timeout then (True, rs\<lparr>role := VDIR_RAFT_ROLE_CANDIDATE\<rparr>, None)
                  else (False, rs, Some waitTimeRemain))
           | VDIR_RAFT_ROLE_LEADER \<Rightarrow> (False, rs, Some timeout))"

text \<open>Entering a new term, once half of the peer threads are idle.\<close>

definition vote_new_term :: "raft_env \<Rightarrow> raft_state \<Rightarrow> raft_store \<Rightarrow> (raft_state \<times> raft_store) option" where
  "vote_new_term env rs st =
     (let trm = wrap32 (currentTerm rs + 1) in
      do {
        st' \<leftarrow> VmDirPersistTerm env trm st;
        Some (rs\<lparr>currentTerm := trm\<rparr>, st')
      })"

text \<open>
  After the term was persisted: give up if the term moved on or the vote is spent, otherwise
  vote for oneself and start the requests. The result of the allocation is not checked.
\<close>

definition vote_launch :: "raft_env \<Rightarrow> rc \<Rightarrow> nat \<Rightarrow> raft_state \<Rightarrow> bool \<times> raft_state" where
  "vote_launch env alloc trm rs =
     (if currentTerm rs \<noteq> trm then (False, rs)
      else if votedForTerm rs = currentTerm rs \<and> votedFor rs \<noteq> []
      then (False, rs\<lparr>role := VDIR_RAFT_ROLE_FOLLOWER, lastPingRecvTime := env_time env\<rparr>)
      else (True, rs\<lparr>votedFor := (case alloc of Some _ \<Rightarrow> [] | None \<Rightarrow> hostname rs),
                     votedForTerm := currentTerm rs, voteConsensusCnt := 1, voteDeniedCnt := 0,
                     voteConsensusTerm := currentTerm rs, cmd := ExecReqestVote\<rparr>))"

text \<open>
  The request a peer thread sends: term, candidate, last log index (truncated to 32 bits by a
  cast in the code) and last log term.
\<close>

definition vote_request :: "raft_state \<Rightarrow> nat \<times> string \<times> nat \<times> nat" where
  "vote_request rs = (currentTerm rs, hostname rs, wrap32 (lastLogIndex rs), lastLogTerm rs)"

text \<open>What a peer thread does with an answer of the peer: its term and its grant code.\<close>

definition VmDirRequestVoteRpc ::
  "raft_env \<Rightarrow> nat \<Rightarrow> nat \<Rightarrow> raft_state \<Rightarrow> raft_store \<Rightarrow> (raft_state \<times> raft_store) option" where
  "VmDirRequestVoteRpc env peerTerm voteGranted rs st =
     (if peerTerm > currentTerm rs then
        do {
          st' \<leftarrow> VmDirPersistTerm env peerTerm st;
          Some (rs\<lparr>role := VDIR_RAFT_ROLE_FOLLOWER, lastPingRecvTime := env_time env,
                   currentTerm := peerTerm, voteDeniedCnt := wrap32 (voteDeniedCnt rs + 1)\<rparr>, st')
        }
      else if role rs \<noteq> VDIR_RAFT_ROLE_CANDIDATE then Some (rs, st)
      else if voteGranted \<noteq> 0 then
        (let rs1 = rs\<lparr>voteDeniedCnt := wrap32 (voteDeniedCnt rs + 1)\<rparr> in
         Some (if voteGranted = 2
               then rs1\<lparr>role := VDIR_RAFT_ROLE_FOLLOWER, lastPingRecvTime := env_time env\<rparr> else rs1, st))
      else if currentTerm rs = voteConsensusTerm rs
      then Some (rs\<lparr>voteConsensusCnt := wrap32 (voteConsensusCnt rs + 1)\<rparr>, st)
      else Some (rs, st))"

text \<open>
  The evaluation of a vote up to the point where the mutex is released for the consensus on the
  no-op log. \<open>begin_err\<close> is the result of opening the write transaction and \<open>io\<close> that of
  building the log's entry and committing it. The first component is \<open>Some\<close> of the no-op log
  when the server became leader.
\<close>

definition VmDirEvaluateVoteResult ::
  "raft_env \<Rightarrow> rc \<Rightarrow> rc \<Rightarrow> raft_state \<Rightarrow> raft_store \<Rightarrow> (raft_log option \<times> raft_state \<times> raft_store) option" where
  "VmDirEvaluateVoteResult env begin_err io rs st =
     (if begin_err \<noteq> None
      then Some (None, rs\<lparr>role := VDIR_RAFT_ROLE_FOLLOWER, disallowUpdates := False\<rparr>, st)
      else if role rs \<noteq> VDIR_RAFT_ROLE_CANDIDATE then Some (None, rs\<lparr>disallowUpdates := False\<rparr>, st)
      else if currentTerm rs \<noteq> voteConsensusTerm rs \<or> voteConsensusCnt rs < clusterSize rs div 2 + 1
      then Some (None, rs\<lparr>disallowUpdates := False\<rparr>, st)
      else
        (let l = empty_log\<lparr>log_index := of_nat (wrap64 (lastLogIndex rs + 1)),
                           log_term := of_nat (currentTerm rs)\<rparr> in
         do {
           (err, l') \<leftarrow> VmDirPackLogEntry (env_mem env) l;
           let failed = (None, rs\<lparr>role := VDIR_RAFT_ROLE_FOLLOWER, disallowUpdates := False\<rparr>, st);
           case (err, io) of
             (None, None) \<Rightarrow>
               (case VmDirPersistLog env st l' of
                  (None, st') \<Rightarrow>
                    Some (Some l', rs\<lparr>role := VDIR_RAFT_ROLE_LEADER, disallowUpdates := True,
                                      lastLogIndex := wrap64 (lastLogIndex rs + 1)\<rparr>, st')
                | (Some e, _) \<Rightarrow> Some failed)
           | _ \<Rightarrow> Some failed
         }))"

text \<open>Asking a follower to stand for election by making its last ping too old.\<close>

definition VmDirRaftFollowerInitiateVoteSrv :: "raft_env \<Rightarrow> nat \<Rightarrow> raft_state \<Rightarrow> raft_state" where
  "VmDirRaftFollowerInitiateVoteSrv env timeout rs =
     (if role rs \<noteq> VDIR_RAFT_ROLE_FOLLOWER then rs
      else rs\<lparr>lastPingRecvTime := wrap64 (env_time env + 2 ^ 64 - timeout)\<rparr>)"

section \<open>What each section does to the ballot and the count\<close>

text \<open>The parts of the state that identify the server and hold its running count.\<close>

definition same_tally :: "raft_state \<Rightarrow> raft_state \<Rightarrow> bool" where
  "same_tally rs rs' \<longleftrightarrow>
     hostname rs' = hostname rs \<and> clusterSize rs' = clusterSize rs \<and> cmd rs' = cmd rs \<and>
     voteConsensusCnt rs' = voteConsensusCnt rs \<and> voteConsensusTerm rs' = voteConsensusTerm rs"

definition same_ballot :: "raft_state \<Rightarrow> raft_state \<Rightarrow> bool" where
  "same_ballot rs rs' \<longleftrightarrow>
     votedFor rs' = votedFor rs \<and> votedForTerm rs' = votedForTerm rs \<and> currentTerm rs \<le> currentTerm rs'"

lemma vote_reply_tally:
  "VmDirRequestVoteGetReply env alloc dup trm cand li lt rs st = Some (err, t, g, rs', st') \<Longrightarrow>
     same_tally rs rs'"
  by (auto simp: VmDirRequestVoteGetReply_def vote_decision_def same_tally_def Let_def
      split: if_splits option.splits bind_splits)

text \<open>
  With the memory for the candidate's name available, a vote either leaves the ballot alone and
  denies, or records the candidate for the request's term, which is then the current one.
\<close>

lemma vote_reply_cases:
  assumes "VmDirRequestVoteGetReply env None dup trm cand li lt rs st = Some (err, t, g, rs', st')"
  shows "(g \<noteq> 0 \<and> same_ballot rs rs') \<or>
         (g = 0 \<and> t = trm \<and> currentTerm rs' = trm \<and> votedForTerm rs' = trm \<and> votedFor rs' = cand \<and>
          currentTerm rs \<le> trm \<and> initialized rs \<and> \<not> log_newer rs li lt \<and>
          \<not> (role rs = VDIR_RAFT_ROLE_LEADER \<and> trm = currentTerm rs) \<and>
          (votedFor rs = [] \<or> votedForTerm rs \<noteq> trm \<or> env_same env (votedFor rs) cand))"
  using assms
  by (auto simp: VmDirRequestVoteGetReply_def vote_decision_def same_ballot_def Let_def
      split: if_splits bind_splits)

lemma vote_schedule_start:
  "vote_schedule env timeout rs = (True, rs', w) \<Longrightarrow> rs' = rs\<lparr>role := VDIR_RAFT_ROLE_CANDIDATE\<rparr>"
  by (auto simp: vote_schedule_def Let_def split: if_splits raft_role.splits)

lemma vote_new_term_frame:
  assumes "vote_new_term env rs st = Some (rs', st')" and "currentTerm rs + 1 < 2 ^ 32"
  shows "same_ballot rs rs'" and "same_tally rs rs'" and "currentTerm rs' = currentTerm rs + 1"
  using assms
  by (auto simp: vote_new_term_def same_ballot_def same_tally_def wrap_simps Let_def split: bind_splits)

lemma vote_launch_cases:
  assumes "vote_launch env None trm rs = (b, rs')"
  shows "(\<not> b \<and> same_ballot rs rs' \<and> same_tally rs rs') \<or>
         (b \<and> votedFor rs' = hostname rs \<and> votedForTerm rs' = currentTerm rs \<and>
          currentTerm rs' = currentTerm rs \<and> voteConsensusCnt rs' = 1 \<and>
          voteConsensusTerm rs' = currentTerm rs \<and> cmd rs' = ExecReqestVote \<and>
          hostname rs' = hostname rs \<and> clusterSize rs' = clusterSize rs \<and>
          (votedForTerm rs \<noteq> currentTerm rs \<or> votedFor rs = []))"
  using assms by (auto simp: vote_launch_def same_ballot_def same_tally_def split: if_splits)

lemma vote_rpc_frame:
  assumes "VmDirRequestVoteRpc env t g rs st = Some (rs', st')"
  shows "same_ballot rs rs'" and "hostname rs' = hostname rs" and "clusterSize rs' = clusterSize rs"
    and "cmd rs' = cmd rs" and "voteConsensusTerm rs' = voteConsensusTerm rs"
    and "voteConsensusCnt rs' =
           (if \<not> t > currentTerm rs \<and> role rs = VDIR_RAFT_ROLE_CANDIDATE \<and> g = 0 \<and>
               currentTerm rs = voteConsensusTerm rs
            then wrap32 (voteConsensusCnt rs + 1) else voteConsensusCnt rs)"
  using assms
  by (auto simp: VmDirRequestVoteRpc_def same_ballot_def Let_def split: if_splits bind_splits)

lemma evaluate_frame:
  assumes "VmDirEvaluateVoteResult env be io rs st = Some (l, rs', st')"
  shows "same_ballot rs rs'" and "same_tally rs rs'" and "currentTerm rs' = currentTerm rs"
    and "l \<noteq> None \<Longrightarrow> currentTerm rs = voteConsensusTerm rs \<and>
           clusterSize rs div 2 + 1 \<le> voteConsensusCnt rs \<and> role rs = VDIR_RAFT_ROLE_CANDIDATE \<and>
           role rs' = VDIR_RAFT_ROLE_LEADER"
  using assms
  by (auto simp: VmDirEvaluateVoteResult_def same_ballot_def same_tally_def Let_def
      split: if_splits bind_splits option.splits prod.splits)

end
