(* ===== verification/Raft_Append.thy ===== *)
theory Raft_Append
  imports Raft_State
begin

text \<open>
  The AppendEntries handler of \<open>lwraft/server/replication/raftldaprpc.c\<close>. The handler holds the
  RPC reply mutex from its first test to its end and is one function here; its stages are
  separate definitions in the order of the code. The clock is read once.
\<close>

section \<open>The handler\<close>

definition RAFT_APPLIED_GAP_MAX :: nat where
  "RAFT_APPLIED_GAP_MAX = 5000"

record append_args =
  ae_term :: nat
  ae_leader :: string
  ae_preLogIndex :: nat
  ae_preLogTerm :: nat
  ae_leaderCommit :: nat
  ae_entries :: bytes

text \<open>The result of a stage: error, status, whether the fatal flag is set, state and store.\<close>

type_synonym append_result = "rc \<times> nat \<times> bool \<times> raft_state \<times> raft_store"

text \<open>Storing the entry of the request, and taking over the leader's commit index.\<close>

definition append_store ::
  "raft_env \<Rightarrow> append_args \<Rightarrow> raft_state \<Rightarrow> raft_store \<Rightarrow> append_result option" where
  "append_store env a rs st =
     (let ci = min (ae_leaderCommit a) (ae_preLogIndex a) in
      if length (ae_entries a) > 1 then
        (case VmDirAllocateAndCopyMemory (env_mem env) (ae_entries a) of
           Some e \<Rightarrow> Some (Some e, 0, False, rs, st)
         | None \<Rightarrow>
             do {
               (err, l) \<leftarrow> VmDirUnpackLogEntry (env_mem env) (empty_log\<lparr>packRaftLog := Some (ae_entries a)\<rparr>);
               case err of
                 Some e \<Rightarrow> Some (Some e, 0, False, rs, st)
               | None \<Rightarrow>
                   (case VmDirPersistLog env st l of
                      (Some e, st') \<Rightarrow> Some (Some e, 0, False, rs, st')
                    | (None, st') \<Rightarrow>
                        Some (None, 0, False,
                          rs\<lparr>lastLogIndex := unat (log_index l), lastLogTerm := unat (log_term l),
                             indexToApply := ci, commitIndex := ci, opCounts := opCounts rs + 1\<rparr>, st'))
             })
      else Some (None, 0, False, rs\<lparr>indexToApply := ci, commitIndex := ci\<rparr>, st))"

text \<open>
  The stage after the term checks: look up the previous log, delete what follows it, store, and
  ask the leader to slow down when the applied index is far behind.
\<close>

definition append_match ::
  "raft_env \<Rightarrow> append_args \<Rightarrow> raft_state \<Rightarrow> raft_store \<Rightarrow> append_result option" where
  "append_match env a rs st =
     do {
       (err, bLogFound, bTermMatch) \<leftarrow>
         (if ae_preLogIndex a = 0 then Some (None, True, True)
          else VmDirLogLookup env rs st (ae_preLogIndex a) (ae_preLogTerm a));
       case err of
         Some e \<Rightarrow> Some (Some e, 0, False, rs, st)
       | None \<Rightarrow>
           (if \<not> bLogFound \<or> \<not> bTermMatch then Some (None, lastLogIndex rs, False, rs, st)
            else do {
              (derr, fatal, rs1, st1) \<leftarrow> VmDirDeleteAllLogs env (wrap64 (ae_preLogIndex a + 1)) rs st;
              case derr of
                Some e \<Rightarrow> Some (Some e, 0, fatal, rs1, st1)
              | None \<Rightarrow>
                  do {
                    (serr, status, fatal', rs2, st2) \<leftarrow> append_store env a rs1 st1;
                    if serr = None \<and> lastApplied rs2 + RAFT_APPLIED_GAP_MAX < lastLogIndex rs2
                    then Some (Some VMDIR_ERROR_UNWILLING_TO_PERFORM, 0, fatal, rs2, st2)
                    else Some (serr, status, fatal, rs2, st2)
                  }
            })
     }"

text \<open>
  The whole handler: error, the term and the status for the leader, state and store. A fatal
  error of the deletion trips the assertion at the end, after the term was persisted.
\<close>

definition append_exit ::
  "raft_env \<Rightarrow> nat \<Rightarrow> nat \<Rightarrow> nat \<Rightarrow> append_result \<Rightarrow> (rc \<times> nat \<times> nat \<times> raft_state \<times> raft_store) option" where
  "append_exit env oldTerm newTerm outTerm r =
     (case r of (err, status, fatal, rs, st) \<Rightarrow>
        do {
          st' \<leftarrow> (if to_int32 newTerm > to_int32 oldTerm then VmDirPersistTerm env newTerm st else Some st);
          if fatal then None
          else Some (err, outTerm, status, rs\<lparr>lastPingRecvTime := env_time env\<rparr>, st')
        })"

definition VmDirAppendEntriesGetReply ::
  "raft_env \<Rightarrow> rc \<Rightarrow> append_args \<Rightarrow> raft_state \<Rightarrow> raft_store \<Rightarrow>
     (rc \<times> nat \<times> nat \<times> raft_state \<times> raft_store) option" where
  "VmDirAppendEntriesGetReply env alloc a rs st =
     (if \<not> initialized rs
      then append_exit env 0 0 0 (Some VMDIR_ERROR_UNWILLING_TO_PERFORM, 0, False, rs, st)
      else
        (let bLeaderChanged = (leader rs = [] \<or> \<not> env_same env (leader rs) (ae_leader a)) in
         if bLeaderChanged \<and> alloc \<noteq> None
         then append_exit env 0 0 0 (alloc, 0, False, rs\<lparr>leader := []\<rparr>, st)
         else
           (let rs1 = (if bLeaderChanged then rs\<lparr>leader := ae_leader a\<rparr> else rs);
                oldTerm = currentTerm rs1
            in if currentTerm rs1 > ae_term a
               then append_exit env oldTerm 0 (currentTerm rs1) (None, lastLogIndex rs1, False, rs1, st)
               else if role rs1 \<noteq> VDIR_RAFT_ROLE_FOLLOWER \<and> currentTerm rs1 < ae_term a
               then append_exit env oldTerm (ae_term a) (ae_term a)
                      (Some VMDIR_ERROR_UNWILLING_TO_PERFORM, 0, False,
                       rs1\<lparr>currentTerm := ae_term a, role := VDIR_RAFT_ROLE_FOLLOWER\<rparr>, st)
               else
                 do {
                   r \<leftarrow> append_match env a
                         (rs1\<lparr>role := VDIR_RAFT_ROLE_FOLLOWER, currentTerm := ae_term a\<rparr>) st;
                   append_exit env oldTerm (ae_term a) (ae_term a) r
                 })))"

section \<open>What the handler leaves alone\<close>

lemma append_store_frame:
  "append_store env a rs st = Some (e, s, f, rs', st') \<Longrightarrow> vote_frame rs rs'"
  by (auto simp: append_store_def Let_def vote_frame_def
      split: option.splits if_splits prod.splits bind_splits)

lemma append_match_frame:
  assumes "append_match env a rs st = Some (e, s, f, rs', st')"
  shows "vote_frame rs rs'"
proof -
  have refl: "vote_frame rs rs"
    by (simp add: vote_frame_def)
  show ?thesis
    using assms refl
    by (auto simp: append_match_def split: option.splits if_splits bind_splits prod.splits
        dest!: delete_all_logs_frame log_frame_vote_frame append_store_frame intro: vote_frame_trans)
qed

lemma append_exit_frame:
  "append_exit env m n t (e, s, f, rs, st) = Some (e', t', s', rs', st') \<Longrightarrow> vote_frame rs rs'"
  by (auto simp: append_exit_def vote_frame_def split: bind_splits if_splits)

lemma append_entries_frame:
  assumes "VmDirAppendEntriesGetReply env alloc a rs st = Some (e, t, s, rs', st')"
  shows "vote_frame rs rs'"
  using assms
  by (auto simp: VmDirAppendEntriesGetReply_def Let_def split: if_splits bind_splits
      dest!: append_exit_frame append_match_frame) (auto simp: vote_frame_def)

section \<open>Installing an entry\<close>

lemma log_lookup_ok:
  assumes "env_ok env" and "store_ok st"
  shows "VmDirLogLookup env rs st i t =
           Some (None, log_term_at rs st i \<noteq> None, log_term_at rs st i = Some t)"
proof (cases "log_term_at rs st i")
  case None
  then show ?thesis
    using fetch_missing [OF assms(1) None] by (simp add: VmDirLogLookup_def empty_log_def)
next
  case (Some u)
  obtain l where l: "VmDirFetchLogEntry env rs st i empty_log = Some (None, l)"
      "unat (log_index l) = i" "unat (log_term l) = u" "0 < i"
    using fetch_found [OF assms Some] by blast
  have "0 < log_index l"
    using l(2,4) by (metis unat_0 less_irrefl word_gt_0)
  then show ?thesis
    using l(1,3) Some by (auto simp: VmDirLogLookup_def)
qed

lemma append_store_ok:
  assumes "env_ok env" and "24 + length (chglog l) < 2 ^ 31" and "ae_entries a = log_bytes l"
    and "unat (log_index l) \<notin> fst ` set (logs_current st)"
  shows "append_store env a rs st =
           Some (None, 0, False,
             rs\<lparr>lastLogIndex := unat (log_index l), lastLogTerm := unat (log_term l),
                indexToApply := min (ae_leaderCommit a) (ae_preLogIndex a),
                commitIndex := min (ae_leaderCommit a) (ae_preLogIndex a), opCounts := opCounts rs + 1\<rparr>,
             st\<lparr>logs_current := (unat (log_index l), log_bytes l) # logs_current st\<rparr>)"
proof -
  have "VmDirUnpackLogEntry (env_mem env) (empty_log\<lparr>packRaftLog := Some (log_bytes l)\<rparr>) = Some (None, unpacked l)"
    using unpack_log_bytes_at [of "env_mem env" l "empty_log\<lparr>packRaftLog := Some (log_bytes l)\<rparr>" "[]" "[]"] assms(1)
    by (simp add: VmDirUnpackLogEntry_def)
  then show ?thesis
    using assms
    by (simp add: append_store_def length_log_bytes memory_defs VmDirPersistLog_def
        VmDirIsEntryInCurrentLog_def unpacked_def Let_def)
qed

text \<open>What holds when a leader of a current term sends an entry that follows a stored log.\<close>

definition append_ready :: "raft_env \<Rightarrow> append_args \<Rightarrow> raft_log \<Rightarrow> raft_state \<Rightarrow> raft_store \<Rightarrow> bool" where
  "append_ready env a l rs st \<longleftrightarrow>
     env_ok env \<and> store_ok st \<and> last_log_ok rs st \<and> distinct (map fst (logs_current st)) \<and>
     1 \<le> firstLogIndex rs \<and> firstLogIndex rs \<le> ae_preLogIndex a \<and>
     (\<forall>i \<in> fst ` set (logs_previous st). i \<le> ae_preLogIndex a) \<and>
     log_term_at rs st (ae_preLogIndex a) = Some (ae_preLogTerm a) \<and>
     lastApplied rs \<le> ae_preLogIndex a \<and>
     ae_entries a = log_bytes l \<and> 24 + length (chglog l) < 2 ^ 31 \<and>
     ae_preLogIndex a < unat (log_index l) \<and> unat (log_index l) \<le> lastApplied rs + RAFT_APPLIED_GAP_MAX"

lemma append_match_eq:
  assumes "append_ready env a l rs st"
  shows "append_match env a rs st =
      Some (None, 0, False,
        rs\<lparr>lastLogIndex := unat (log_index l), lastLogTerm := unat (log_term l),
           indexToApply := min (ae_leaderCommit a) (ae_preLogIndex a),
           commitIndex := min (ae_leaderCommit a) (ae_preLogIndex a), opCounts := opCounts rs + 1\<rparr>,
        st\<lparr>logs_current := (unat (log_index l), log_bytes l) #
                           filter (\<lambda>(k, b). k < ae_preLogIndex a + 1) (logs_current st)\<rparr>)"
proof -
  let ?p = "ae_preLogIndex a" and ?n = "unat (log_index l)"
  note r = assms [unfolded append_ready_def]
  have env: "env_ok env" and st: "store_ok st" using r by blast+
  have "?n < 2 ^ 64"
    using unsigned_less [of "log_index l"] by simp
  then have w: "wrap64 (?p + 1) = ?p + 1"
    using r by (intro wrap64_id) linarith
  obtain i t where del: "VmDirDeleteAllLogs env (?p + 1) rs st =
      Some (None, False, rs\<lparr>lastLogIndex := i, lastLogTerm := t\<rparr>,
            st\<lparr>logs_current := filter (\<lambda>(k, b). k < ?p + 1) (logs_current st)\<rparr>)"
    using delete_all_logs_ok [of env st rs "?p + 1" ?p] r by (auto simp: less_Suc_eq_le)
  have free: "?n \<notin> fst ` set (logs_current (st\<lparr>logs_current := filter (\<lambda>(k, b). k < ?p + 1) (logs_current st)\<rparr>))"
    using r by auto
  note store = append_store_ok [OF env _ _ free, of a "rs\<lparr>lastLogIndex := i, lastLogTerm := t\<rparr>"]
  have look: "VmDirLogLookup env rs st ?p (ae_preLogTerm a) = Some (None, True, True)"
    using log_lookup_ok [OF env st] r by simp
  show ?thesis
    using r look del store w by (simp add: append_match_def)
qed

lemma append_match_ok:
  assumes "append_ready env a l rs st"
  shows "\<exists>rs' st'. append_match env a rs st = Some (None, 0, False, rs', st') \<and>
           (\<forall>j. log_term_at rs' st' j =
              (if j = unat (log_index l) then Some (unat (log_term l))
               else if j \<le> ae_preLogIndex a then log_term_at rs st j else None)) \<and>
           lastLogIndex rs' = unat (log_index l) \<and> lastLogTerm rs' = unat (log_term l) \<and>
           store_ok st' \<and> commitIndex rs' = min (ae_leaderCommit a) (ae_preLogIndex a) \<and>
           currentTerm rs' = currentTerm rs \<and> role rs' = role rs"
proof -
  let ?p = "ae_preLogIndex a" and ?n = "unat (log_index l)"
  let ?st1 = "st\<lparr>logs_current := filter (\<lambda>(k, b). k < ?p + 1) (logs_current st)\<rparr>"
  let ?st2 = "?st1\<lparr>logs_current := (?n, log_bytes l) # logs_current ?st1\<rparr>"
  note r = assms [unfolded append_ready_def]
  have prev: "\<forall>i \<in> fst ` set (logs_previous st). i < ?p + 1"
    using r by (auto simp: less_Suc_eq_le)
  have ok: "store_ok ?st2"
    using r by (auto simp: store_ok_def length_log_bytes)
  show ?thesis
    unfolding append_match_eq [OF assms]
    using log_term_at_cut [OF prev] ok
    by (auto simp: log_term_at_add [where st = ?st1, simplified] less_Suc_eq_le
        log_term_at_cong [of "rs\<lparr>lastLogIndex := x, lastLogTerm := y, indexToApply := u, commitIndex := v, opCounts := z\<rparr>" rs for x y u v z])
qed

text \<open>
  The handler for a request of a term that is not behind, from the state it reaches after the
  leader and the term are recorded.
\<close>

definition append_start :: "append_args \<Rightarrow> raft_env \<Rightarrow> raft_state \<Rightarrow> raft_state" where
  "append_start a env rs =
     (if leader rs = [] \<or> \<not> env_same env (leader rs) (ae_leader a) then rs\<lparr>leader := ae_leader a\<rparr> else rs)
       \<lparr>role := VDIR_RAFT_ROLE_FOLLOWER, currentTerm := ae_term a\<rparr>"

definition append_accepted :: "append_args \<Rightarrow> raft_state \<Rightarrow> bool" where
  "append_accepted a rs \<longleftrightarrow>
     initialized rs \<and>
     (currentTerm rs = ae_term a \<or> (currentTerm rs < ae_term a \<and> role rs = VDIR_RAFT_ROLE_FOLLOWER))"

lemma append_start_simps [simp]:
  "log_term_at (append_start a env rs) st j = log_term_at rs st j"
  "lastLogIndex (append_start a env rs) = lastLogIndex rs" "lastLogTerm (append_start a env rs) = lastLogTerm rs"
  "firstLogIndex (append_start a env rs) = firstLogIndex rs" "lastApplied (append_start a env rs) = lastApplied rs"
  "currentTerm (append_start a env rs) = ae_term a" "role (append_start a env rs) = VDIR_RAFT_ROLE_FOLLOWER"
  "initialized (append_start a env rs) = initialized rs"
  by (auto simp: append_start_def intro!: log_term_at_cong)

lemma append_entries_accepted:
  assumes "append_accepted a rs" and "env_ok env"
    and "append_match env a (append_start a env rs) st = Some (err, status, False, rs', st')"
  shows "\<exists>st''. VmDirAppendEntriesGetReply env None a rs st =
           Some (err, ae_term a, status, rs'\<lparr>lastPingRecvTime := env_time env\<rparr>, st'') \<and>
           (\<exists>t. st'' = st'\<lparr>st_term := t\<rparr>)"
proof -
  have "\<exists>st''. (if to_int32 (ae_term a) > to_int32 (currentTerm rs) then VmDirPersistTerm env (ae_term a) st'
              else Some st') = Some st'' \<and> (\<exists>t. st'' = st'\<lparr>st_term := t\<rparr>)"
    using assms(2) by (auto simp: VmDirPersistTerm_def intro: exI [of _ "st_term st'"])
  then obtain st'' where p: "(if to_int32 (ae_term a) > to_int32 (currentTerm rs)
        then VmDirPersistTerm env (ae_term a) st' else Some st') = Some st''" "\<exists>t. st'' = st'\<lparr>st_term := t\<rparr>"
    by blast
  show ?thesis
  proof (cases "leader rs = [] \<or> \<not> env_same env (leader rs) (ae_leader a)")
    case True
    then show ?thesis
      using assms(1,3) p
      by (auto simp: VmDirAppendEntriesGetReply_def append_exit_def append_accepted_def append_start_def Let_def)
  next
    case False
    then show ?thesis
      using assms(1,3) p
      by (auto simp: VmDirAppendEntriesGetReply_def append_exit_def append_accepted_def append_start_def Let_def)
  qed
qed

lemma st_term_simps [simp]:
  "log_term_at rs (st\<lparr>st_term := t\<rparr>) j = log_term_at rs st j" "store_ok (st\<lparr>st_term := t\<rparr>) = store_ok st"
  "log_term_at (rs\<lparr>lastPingRecvTime := n\<rparr>) st j = log_term_at rs st j"
  by (simp_all add: log_term_at_def VmDirBackendForLogIndex_def VmDirIsEntryInCurrentLog_def
      backend_logs_def store_ok_def)

text \<open>
  C6. An accepted AppendEntries request replaces what follows the previous log by its
  entry: the handler answers success, the log holds the entry under its index, keeps every
  log up to the previous one, holds nothing else, and the last-log position, the commit index,
  the term and the role are those the request implies.
\<close>

theorem append_entries_installs:
  assumes "append_accepted a rs" and "append_ready env a l rs st"
  shows "\<exists>rs' st'. VmDirAppendEntriesGetReply env None a rs st = Some (None, ae_term a, 0, rs', st') \<and>
           (\<forall>j. log_term_at rs' st' j =
              (if j = unat (log_index l) then Some (unat (log_term l))
               else if j \<le> ae_preLogIndex a then log_term_at rs st j else None)) \<and>
           last_log_ok rs' st' \<and> store_ok st' \<and> lastLogIndex rs' = unat (log_index l) \<and>
           commitIndex rs' = min (ae_leaderCommit a) (ae_preLogIndex a) \<and>
           currentTerm rs' = ae_term a \<and> role rs' = VDIR_RAFT_ROLE_FOLLOWER"
proof -
  have "append_ready env a l (append_start a env rs) st"
    using assms(2) by (simp add: append_ready_def last_log_ok_def)
  from append_match_ok [OF this] obtain rs' st' where
    m: "append_match env a (append_start a env rs) st = Some (None, 0, False, rs', st')"
    and res: "\<forall>j. log_term_at rs' st' j =
              (if j = unat (log_index l) then Some (unat (log_term l))
               else if j \<le> ae_preLogIndex a then log_term_at rs st j else None)"
      "lastLogIndex rs' = unat (log_index l)" "lastLogTerm rs' = unat (log_term l)" "store_ok st'"
      "commitIndex rs' = min (ae_leaderCommit a) (ae_preLogIndex a)" "currentTerm rs' = ae_term a"
      "role rs' = VDIR_RAFT_ROLE_FOLLOWER"
    by auto
  have env: "env_ok env" and lt: "ae_preLogIndex a < unat (log_index l)"
    using assms(2) by (auto simp: append_ready_def)
  obtain st'' t where "VmDirAppendEntriesGetReply env None a rs st =
      Some (None, ae_term a, 0, rs'\<lparr>lastPingRecvTime := env_time env\<rparr>, st'')" "st'' = st'\<lparr>st_term := t\<rparr>"
    using append_entries_accepted [OF assms(1) env m] by blast
  then show ?thesis
    using res lt by (auto simp: last_log_ok_def)
qed

definition small_append :: "nat \<Rightarrow> nat \<Rightarrow> nat \<Rightarrow> append_args" where
  "small_append pre preterm ci =
     \<lparr>ae_term = 3, ae_leader = ''c'', ae_preLogIndex = pre, ae_preLogTerm = preterm, ae_leaderCommit = ci,
      ae_entries = log_bytes (empty_log\<lparr>log_index := 2, log_term := 3\<rparr>)\<rparr>"

lemma small_append_ready:
  "append_accepted (small_append 1 1 2) small_state"
  "append_ready small_env (small_append 1 1 2) (empty_log\<lparr>log_index := 2, log_term := 3\<rparr>) small_state small_store"
  using small_ok
  by (simp_all add: append_accepted_def append_ready_def small_append_def small_state_def small_store_def
      small_log_def empty_log_def RAFT_APPLIED_GAP_MAX_def)

theorem append_entries_installs_witness:
  "\<exists>rs' st'. VmDirAppendEntriesGetReply small_env None (small_append 1 1 2) small_state small_store =
       Some (None, 3, 0, rs', st') \<and>
     log_term_at rs' st' 1 = Some 1 \<and> log_term_at rs' st' 2 = Some 3 \<and> log_term_at rs' st' 3 = None"
proof -
  have "ae_term (small_append 1 1 2) = 3" "ae_preLogIndex (small_append 1 1 2) = 1"
    by (simp_all add: small_append_def)
  then show ?thesis
    using append_entries_installs [OF small_append_ready] by (auto simp: small_term_at)
qed

text \<open>
  C23. A request whose previous log is missing or has another term changes no log: the
  handler answers with its own last log index, from which the leader walks back.
\<close>

theorem append_entries_mismatch:
  assumes "append_accepted a rs" and "env_ok env" and "store_ok st" and "ae_preLogIndex a \<noteq> 0"
    and "log_term_at rs st (ae_preLogIndex a) \<noteq> Some (ae_preLogTerm a)"
  shows "\<exists>rs' t. VmDirAppendEntriesGetReply env None a rs st =
           Some (None, ae_term a, lastLogIndex rs, rs', st\<lparr>st_term := t\<rparr>) \<and>
           commitIndex rs' = commitIndex rs \<and> lastLogIndex rs' = lastLogIndex rs \<and>
           lastLogTerm rs' = lastLogTerm rs"
proof -
  have "append_match env a (append_start a env rs) st =
      Some (None, lastLogIndex rs, False, append_start a env rs, st)"
    using assms(4,5) log_lookup_ok [OF assms(2,3)] by (simp add: append_match_def)
  from append_entries_accepted [OF assms(1,2) this] show ?thesis
    by (auto simp: append_start_def)
qed

theorem append_entries_mismatch_witness:
  "\<exists>rs' t. VmDirAppendEntriesGetReply small_env None (small_append 2 7 2) small_state small_store =
     Some (None, 3, 2, rs', small_store\<lparr>st_term := t\<rparr>)"
proof -
  have "append_accepted (small_append 2 7 2) small_state" "ae_preLogIndex (small_append 2 7 2) \<noteq> 0"
    by (simp_all add: append_accepted_def small_append_def small_state_def)
  moreover have "log_term_at small_state small_store (ae_preLogIndex (small_append 2 7 2)) \<noteq>
      Some (ae_preLogTerm (small_append 2 7 2))"
    by (simp add: small_append_def small_term_at)
  ultimately show ?thesis
    using append_entries_mismatch [OF _ small_ok(1,2), of "small_append 2 7 2" small_state]
    by (auto simp: small_append_def small_state_def)
qed

text \<open>
  A follower with no log at all answers a previous log it does not have with status 0,
  which is the answer for success: the leader cannot tell the two apart.
\<close>

lemma append_mismatch_looks_like_success:
  "\<exists>rs' st'. VmDirAppendEntriesGetReply small_env None (small_append 1 1 1)
     (small_state\<lparr>lastLogIndex := 0, lastLogTerm := 0, lastApplied := 0, commitIndex := 0\<rparr>)
     (small_store\<lparr>logs_current := []\<rparr>) = Some (None, 3, 0, rs', st') \<and> logs_current st' = []"
  by (simp add: VmDirAppendEntriesGetReply_def append_exit_def append_match_def VmDirLogLookup_def
      VmDirFetchLogEntry_def VmDirBackendForLogIndex_def backend_logs_def VmDirPersistTerm_def to_int32_def
      small_append_def small_defs empty_log_def Let_def)




end
