(* ===== verification/Raft_Cluster.thy ===== *)
theory Raft_Cluster
  imports Raft_Vote Raft_Append
begin

text \<open>
  A cluster of servers that hold elections. Each server runs the election thread and one peer
  thread per other server (\<open>_VmDirRaftVoteSchdThread\<close> and \<open>_VmDirRaftPeerThread\<close> of
  \<open>lwraft/server/replication/thread.c\<close>); a step of the cluster is one critical section of one
  thread, and steps of different threads interleave freely. A peer thread carries its request
  and the answer, so that messages are delayed or lost without bound. The last three fields of
  the cluster record history: who granted whom in which term, whose grants a candidate has
  counted since it last asked, and who took the lead in which term.
\<close>

section \<open>Threads and steps\<close>

datatype peer_thread =
    PIdle
  | PVoting
  | PSent nat string nat nat
  | PReplied nat rc nat nat
  | PDone

datatype elect_thread = EWait | EPersisted nat | EVoting

record cluster =
  srv :: "string \<Rightarrow> raft_state \<times> raft_store"
  thr :: "string \<Rightarrow> string \<Rightarrow> peer_thread"
  elt :: "string \<Rightarrow> elect_thread"
  grants :: "(string \<times> nat \<times> string) set"
  counted :: "string \<Rightarrow> string set"
  elected :: "(nat \<times> string) set"

datatype event =
    NewTerm string nat
  | Launch string rc
  | PickUp string string
  | Send string string
  | Deliver string string rc rc
  | Answer string string
  | Lost string string
  | Finish string string
  | Evaluate string rc rc
  | Append string append_args rc
  | Restart string "64 word"

abbreviation state_of :: "cluster \<Rightarrow> string \<Rightarrow> raft_state" where
  "state_of c i \<equiv> fst (srv c i)"

definition set_srv :: "string \<Rightarrow> raft_state \<times> raft_store \<Rightarrow> cluster \<Rightarrow> cluster" where
  "set_srv i s c = c\<lparr>srv := (srv c)(i := s)\<rparr>"

definition set_thr :: "string \<Rightarrow> string \<Rightarrow> peer_thread \<Rightarrow> cluster \<Rightarrow> cluster" where
  "set_thr i j t c = c\<lparr>thr := (thr c)(i := (thr c i)(j := t))\<rparr>"

text \<open>Whether the answer of a peer is added to the candidate's count.\<close>

definition counts :: "nat \<Rightarrow> nat \<Rightarrow> raft_state \<Rightarrow> bool" where
  "counts peerTerm voteGranted rs \<longleftrightarrow>
     \<not> peerTerm > currentTerm rs \<and> role rs = VDIR_RAFT_ROLE_CANDIDATE \<and> voteGranted = 0 \<and>
     currentTerm rs = voteConsensusTerm rs"

text \<open>The state of a process that has just started: the configuration, everything else zero.\<close>

definition zero_state :: "string \<Rightarrow> nat \<Rightarrow> raft_state" where
  "zero_state host n =
     \<lparr>role = VDIR_RAFT_ROLE_CANDIDATE, cmd = ExecNone, hostname = host, clusterSize = n,
      voteConsensusCnt = 0, voteDeniedCnt = 0, voteConsensusTerm = 0, initialized = False,
      lastPingRecvTime = 0, commitIndex = 0, commitIndexTerm = 0, lastLogIndex = 0,
      firstLogIndex = 0, indexToApply = 0, opCounts = 0, lastLogTerm = 0, leader = [],
      disallowUpdates = False, proxies = [], bHasPrevLog = False, lastApplied = 0,
      currentTerm = 0, votedForTerm = 0, votedFor = []\<rparr>"

definition restart_server ::
  "raft_env \<Rightarrow> 64 word \<Rightarrow> raft_state \<times> raft_store \<Rightarrow> (raft_state \<times> raft_store) option" where
  "restart_server env maxEId s =
     do {
       (err, rs) \<leftarrow> VmDirLoadRaftState env None (Inr maxEId) False
                     (zero_state (hostname (fst s)) (clusterSize (fst s))) (snd s);
       if err = None then Some (rs, snd s) else None
     }"

fun cstep :: "raft_env \<Rightarrow> event \<Rightarrow> cluster \<Rightarrow> cluster option" where
  "cstep env (NewTerm i timeout) c =
     (case vote_schedule env timeout (state_of c i) of
        (start, rs, _) \<Rightarrow>
          if elt c i = EWait \<and> start then
            do {
              s \<leftarrow> vote_new_term env rs (snd (srv c i));
              Some ((set_srv i s c)\<lparr>elt := (elt c)(i := EPersisted (currentTerm (fst s)))\<rparr>)
            }
          else None)"
| "cstep env (Launch i alloc) c =
     (case elt c i of
        EPersisted trm \<Rightarrow>
          (case vote_launch env alloc trm (state_of c i) of
             (True, rs) \<Rightarrow>
               Some ((set_srv i (rs, snd (srv c i)) c)
                 \<lparr>grants := insert (i, currentTerm rs, i) (grants c),
                  counted := (counted c)(i := {}), elt := (elt c)(i := EVoting)\<rparr>)
           | (False, rs) \<Rightarrow> Some ((set_srv i (rs, snd (srv c i)) c)\<lparr>elt := (elt c)(i := EWait)\<rparr>))
      | _ \<Rightarrow> None)"
| "cstep env (PickUp i j) c =
     (if i \<noteq> j \<and> thr c i j = PIdle \<and> cmd (state_of c i) = ExecReqestVote
      then Some (set_thr i j PVoting c) else None)"
| "cstep env (Send i j) c =
     (if thr c i j = PVoting then
        (case vote_request (state_of c i) of
           (trm, candidateId, llIndex, llTerm) \<Rightarrow> Some (set_thr i j (PSent trm candidateId llIndex llTerm) c))
      else None)"
| "cstep env (Deliver i j alloc dup) c =
     (case thr c i j of
        PSent trm candidateId llIndex llTerm \<Rightarrow>
          do {
            (err, t, g, rs, st) \<leftarrow> VmDirRequestVoteGetReply env alloc dup trm candidateId llIndex llTerm
                                    (state_of c j) (snd (srv c j));
            Some ((set_thr i j (PReplied trm err t g) (set_srv j (rs, st) c))
                   \<lparr>grants := (if err = None \<and> g = 0 then insert (j, t, candidateId) (grants c) else grants c)\<rparr>)
          }
      | _ \<Rightarrow> None)"
| "cstep env (Answer i j) c =
     (case thr c i j of
        PReplied trm None t g \<Rightarrow>
          do {
            s \<leftarrow> VmDirRequestVoteRpc env t g (state_of c i) (snd (srv c i));
            Some ((set_thr i j PDone (set_srv i s c))
                   \<lparr>counted := (if counts t g (state_of c i)
                                then (counted c)(i := insert j (counted c i)) else counted c)\<rparr>)
          }
      | _ \<Rightarrow> None)"
| "cstep env (Lost i j) c =
     (case thr c i j of
        PSent _ _ _ _ \<Rightarrow> Some (set_thr i j PDone c)
      | PReplied _ _ _ _ \<Rightarrow> Some (set_thr i j PDone c)
      | _ \<Rightarrow> None)"
| "cstep env (Finish i j) c =
     (if thr c i j = PDone
      then Some (set_thr i j PIdle (set_srv i ((state_of c i)\<lparr>cmd := ExecNone\<rparr>, snd (srv c i)) c))
      else None)"
| "cstep env (Evaluate i begin_err io) c =
     (if elt c i = EVoting then
        do {
          (l, rs, st) \<leftarrow> VmDirEvaluateVoteResult env begin_err io
                          ((state_of c i)\<lparr>cmd := ExecNone\<rparr>) (snd (srv c i));
          Some ((set_srv i (rs, st) c)
                 \<lparr>elt := (elt c)(i := EWait),
                  elected := (if l = None then elected c else insert (currentTerm rs, i) (elected c))\<rparr>)
        }
      else None)"
| "cstep env (Append i a alloc) c =
     do {
       (_, _, _, rs, st) \<leftarrow> VmDirAppendEntriesGetReply env alloc a (state_of c i) (snd (srv c i));
       Some (set_srv i (rs, st) c)
     }"
| "cstep env (Restart i maxEId) c =
     do {
       s \<leftarrow> restart_server env maxEId (srv c i);
       Some ((set_srv i s c)\<lparr>thr := (thr c)(i := (\<lambda>_. PIdle)), elt := (elt c)(i := EWait),
                             counted := (counted c)(i := {})\<rparr>)
     }"

section \<open>Quorums\<close>

text \<open>
  Any two quorums share a member, so values backed by quorums of single-minded voters agree.
\<close>

locale quorum_system =
  fixes quorum :: "'a set \<Rightarrow> bool"
  assumes quorums_meet: "quorum Q \<Longrightarrow> quorum R \<Longrightarrow> Q \<inter> R \<noteq> {}"
begin

lemma backed_unique:
  assumes "quorum Q" and "\<forall>k \<in> Q. votes k x" and "quorum R" and "\<forall>k \<in> R. votes k y"
    and single: "\<And>k u v. votes k u \<Longrightarrow> votes k v \<Longrightarrow> u = v"
  shows "x = y"
proof -
  obtain k where "k \<in> Q" "k \<in> R"
    using quorums_meet [OF assms(1,3)] by blast
  then show ?thesis
    using assms(2,4) single by blast
qed

end

definition majority :: "string set \<Rightarrow> string set \<Rightarrow> bool" where
  "majority S Q \<longleftrightarrow> finite S \<and> Q \<subseteq> S \<and> card S < 2 * card Q"

interpretation mj: quorum_system "majority S" for S
proof
  fix Q R
  assume Q: "majority S Q" and R: "majority S R"
  show "Q \<inter> R \<noteq> {}"
  proof
    assume "Q \<inter> R = {}"
    then have "card (Q \<union> R) = card Q + card R"
      using Q R by (intro card_Un_disjoint) (auto simp: majority_def intro: finite_subset)
    moreover have "card (Q \<union> R) \<le> card S"
      using Q R by (intro card_mono) (auto simp: majority_def)
    ultimately show False
      using Q R by (simp add: majority_def)
  qed
qed

section \<open>Runs\<close>

fun servers_of :: "event \<Rightarrow> string set" where
  "servers_of (NewTerm i _) = {i}"
| "servers_of (Launch i _) = {i}"
| "servers_of (PickUp i j) = {i, j}"
| "servers_of (Send i j) = {i, j}"
| "servers_of (Deliver i j _ _) = {i, j}"
| "servers_of (Answer i j) = {i, j}"
| "servers_of (Lost i j) = {i, j}"
| "servers_of (Finish i j) = {i, j}"
| "servers_of (Evaluate i _ _) = {i}"
| "servers_of (Append i _ _) = {i}"
| "servers_of (Restart i _) = {i}"

text \<open>
  The side conditions under which elections are safe: no server restarts (its vote is not
  persisted), the copy of the voted name is allocated (a failure is not checked), an answer is
  taken up in the term it was asked in (the code does not compare the two), and the term counter
  does not wrap.
\<close>

fun disciplined :: "cluster \<Rightarrow> event \<Rightarrow> bool" where
  "disciplined c (NewTerm i _) = (currentTerm (state_of c i) + 1 < 2 ^ 32)"
| "disciplined c (Launch i alloc) = (alloc = None)"
| "disciplined c (Deliver i j alloc _) = (alloc = None)"
| "disciplined c (Answer i j) =
     (case thr c i j of PReplied trm _ _ _ \<Rightarrow> trm = currentTerm (state_of c i) | _ \<Rightarrow> True)"
| "disciplined c (Restart i _) = False"
| "disciplined c _ = True"

definition init_cluster :: "string set \<Rightarrow> cluster \<Rightarrow> bool" where
  "init_cluster S c \<longleftrightarrow>
     finite S \<and> card S < 2 ^ 32 \<and>
     (\<forall>i \<in> S. i \<noteq> [] \<and> hostname (state_of c i) = i \<and> clusterSize (state_of c i) = card S \<and>
        votedFor (state_of c i) = [] \<and> votedForTerm (state_of c i) \<le> currentTerm (state_of c i) \<and>
        voteConsensusCnt (state_of c i) = 0 \<and> cmd (state_of c i) \<noteq> ExecReqestVote \<and>
        thr c i = (\<lambda>_. PIdle) \<and> elt c i = EWait \<and> counted c i = {}) \<and>
     grants c = {} \<and> elected c = {}"

inductive reachable :: "string set \<Rightarrow> (string \<Rightarrow> string \<Rightarrow> bool) \<Rightarrow> cluster \<Rightarrow> bool"
  for S :: "string set" and same :: "string \<Rightarrow> string \<Rightarrow> bool" where
  start: "init_cluster S c \<Longrightarrow> reachable S same c"
| step: "reachable S same c \<Longrightarrow> cstep env e c = Some c' \<Longrightarrow> env_same env = same \<Longrightarrow>
     servers_of e \<subseteq> S \<Longrightarrow> disciplined c e \<Longrightarrow> reachable S same c'"

section \<open>The invariant\<close>

definition ballot_ok :: "string set \<Rightarrow> (string \<times> nat \<times> string) set \<Rightarrow> string \<Rightarrow> raft_state \<Rightarrow> bool" where
  "ballot_ok S G k rs \<longleftrightarrow>
     votedForTerm rs \<le> currentTerm rs \<and> (votedFor rs = [] \<or> votedFor rs \<in> S) \<and>
     (\<forall>t d. (k, t, d) \<in> G \<longrightarrow> t \<le> votedForTerm rs \<and> d \<in> S \<and> (t = votedForTerm rs \<longrightarrow> votedFor rs = d)) \<and>
     (\<forall>t d d'. (k, t, d) \<in> G \<longrightarrow> (k, t, d') \<in> G \<longrightarrow> d = d')"

definition tally_ok ::
  "string set \<Rightarrow> (string \<times> nat \<times> string) set \<Rightarrow> string \<Rightarrow> raft_state \<Rightarrow> string set \<Rightarrow>
     (string \<Rightarrow> peer_thread) \<Rightarrow> bool" where
  "tally_ok S G i rs C th \<longleftrightarrow>
     hostname rs = i \<and> clusterSize rs = card S \<and> C \<subseteq> S - {i} \<and> th i = PIdle \<and>
     (\<forall>j \<in> C. th j = PDone \<or> (th j = PIdle \<and> cmd rs \<noteq> ExecReqestVote)) \<and>
     (if voteConsensusCnt rs = 0 then C = {} \<and> cmd rs \<noteq> ExecReqestVote \<and> th = (\<lambda>_. PIdle)
      else voteConsensusCnt rs \<le> card (insert i C) \<and>
           (\<forall>k \<in> insert i C. (k, voteConsensusTerm rs, i) \<in> G))"

fun thread_ok :: "(string \<times> nat \<times> string) set \<Rightarrow> string \<Rightarrow> string \<Rightarrow> peer_thread \<Rightarrow> bool" where
  "thread_ok G i j (PSent _ d _ _) \<longleftrightarrow> d = i"
| "thread_ok G i j (PReplied trm err t g) \<longleftrightarrow> (err = None \<and> g = 0 \<longrightarrow> t = trm \<and> (j, trm, i) \<in> G)"
| "thread_ok G i j _ \<longleftrightarrow> True"

definition cinv :: "string set \<Rightarrow> cluster \<Rightarrow> bool" where
  "cinv S c \<longleftrightarrow>
     finite S \<and> card S < 2 ^ 32 \<and> [] \<notin> S \<and>
     (\<forall>i \<in> S. ballot_ok S (grants c) i (state_of c i) \<and>
        tally_ok S (grants c) i (state_of c i) (counted c i) (thr c i) \<and>
        (\<forall>j. thread_ok (grants c) i j (thr c i j))) \<and>
     (\<forall>(t, i) \<in> elected c. \<exists>Q. majority S Q \<and> (\<forall>k \<in> Q. (k, t, i) \<in> grants c))"

lemma cinv_init: "init_cluster S c \<Longrightarrow> cinv S c"
  by (auto simp: init_cluster_def cinv_def ballot_ok_def tally_ok_def)

lemma thread_ok_mono: "G \<subseteq> G' \<Longrightarrow> thread_ok G i j t \<Longrightarrow> thread_ok G' i j t"
  by (cases t) auto

lemma tally_ok_mono: "G \<subseteq> G' \<Longrightarrow> tally_ok S G i rs C th \<Longrightarrow> tally_ok S G' i rs C th"
  by (auto simp: tally_ok_def split: if_splits)

lemma ballot_ok_cong:
  "same_ballot rs rs' \<Longrightarrow> ballot_ok S G k rs \<Longrightarrow> ballot_ok S G k rs'"
  by (auto simp: same_ballot_def ballot_ok_def)

lemma tally_ok_cong: "same_tally rs rs' \<Longrightarrow> tally_ok S G i rs C th \<Longrightarrow> tally_ok S G i rs' C th"
  by (simp add: same_tally_def tally_ok_def)

text \<open>A new grant of voter \<open>k\<close> that its ballot allows; other voters' ballots do not see it.\<close>

lemma ballot_ok_grant:
  assumes "ballot_ok S G k rs" and "d \<in> S" and "d \<noteq> []"
    and "currentTerm rs \<le> trm" and "currentTerm rs' = trm" and "votedForTerm rs' = trm" and "votedFor rs' = d"
    and "votedFor rs = [] \<or> votedForTerm rs \<noteq> trm \<or> votedFor rs = d" and "[] \<notin> S"
  shows "ballot_ok S (insert (k, trm, d) G) k rs'"
proof -
  have old: "t \<le> trm \<and> d' \<in> S \<and> (t = trm \<longrightarrow> d' = d)" if "(k, t, d') \<in> G" for t d'
  proof -
    have le: "t \<le> votedForTerm rs" "votedForTerm rs \<le> currentTerm rs" and d': "d' \<in> S"
      and vf: "t = votedForTerm rs \<longrightarrow> votedFor rs = d'"
      using that assms(1) by (auto simp: ballot_ok_def)
    have "d' = d" if "t = trm"
    proof -
      have "votedForTerm rs = trm"
        using le that assms(4) by linarith
      then show ?thesis
        using vf that d' assms(8,9) by auto
    qed
    then show ?thesis
      using le d' assms(4) by auto
  qed
  have "d1 = d2" if "(k, t, d1) \<in> G" "(k, t, d2) \<in> G" for t d1 d2
    using that assms(1) unfolding ballot_ok_def by blast
  then show ?thesis
    using assms(2,5-7) old unfolding ballot_ok_def by auto
qed

lemma ballot_ok_other: "k \<noteq> j \<Longrightarrow> ballot_ok S (insert (j, trm, d) G) k rs = ballot_ok S G k rs"
  by (simp add: ballot_ok_def)

text \<open>Reassembling the invariant after a change of one server, one thread, or one grant.\<close>

lemma cinv_elt [simp]: "cinv S (c\<lparr>elt := e\<rparr>) = cinv S c"
  by (simp add: cinv_def)

lemma set_srv_simps [simp]:
  "srv (set_srv i s c) = (srv c)(i := s)" "thr (set_srv i s c) = thr c" "elt (set_srv i s c) = elt c"
  "grants (set_srv i s c) = grants c" "counted (set_srv i s c) = counted c"
  "elected (set_srv i s c) = elected c"
  by (simp_all add: set_srv_def)

lemma set_thr_simps [simp]:
  "srv (set_thr i j t c) = srv c" "thr (set_thr i j t c) = (thr c)(i := (thr c i)(j := t))"
  "elt (set_thr i j t c) = elt c" "grants (set_thr i j t c) = grants c"
  "counted (set_thr i j t c) = counted c" "elected (set_thr i j t c) = elected c"
  by (simp_all add: set_thr_def)

lemma cinvD:
  assumes "cinv S c" and "i \<in> S"
  shows "ballot_ok S (grants c) i (state_of c i)"
    and "tally_ok S (grants c) i (state_of c i) (counted c i) (thr c i)"
    and "thread_ok (grants c) i j (thr c i j)"
    and "finite S" and "card S < 2 ^ 32" and "[] \<notin> S"
  using assms by (simp_all add: cinv_def)

lemma cinv_srv:
  assumes "cinv S c" and "i \<in> S" and "same_ballot (state_of c i) rs"
    and "tally_ok S (grants c) i rs (counted c i) (thr c i)"
  shows "cinv S (set_srv i (rs, st) c)"
  using assms ballot_ok_cong [OF assms(3) cinvD(1) [OF assms(1,2)]] by (simp add: cinv_def)

lemma cinv_thr:
  assumes "cinv S c" and "i \<in> S" and "thread_ok (grants c) i j t"
    and "tally_ok S (grants c) i (state_of c i) (counted c i) ((thr c i)(j := t))"
  shows "cinv S (set_thr i j t c)"
  using assms by (auto simp: cinv_def)

lemma cinv_grant:
  assumes "cinv S c" and "k \<in> S" and "ballot_ok S (insert (k, trm, d) (grants c)) k rs"
    and "tally_ok S (insert (k, trm, d) (grants c)) k rs C (thr c k)"
  shows "cinv S ((set_srv k (rs, st) c)\<lparr>grants := insert (k, trm, d) (grants c),
                                        counted := (counted c)(k := C)\<rparr>)"
proof -
  have sub: "grants c \<subseteq> insert (k, trm, d) (grants c)" by blast
  let ?G = "insert (k, trm, d) (grants c)"
  have "ballot_ok S ?G i (fst (((srv c)(k := (rs, st))) i)) \<and>
      tally_ok S ?G i (fst (((srv c)(k := (rs, st))) i)) (((counted c)(k := C)) i) (thr c i) \<and>
      (\<forall>j. thread_ok ?G i j (thr c i j))" if "i \<in> S" for i
    using assms(3,4) cinvD [OF assms(1) that] thread_ok_mono [OF sub] tally_ok_mono [OF sub]
    by (cases "i = k") (simp_all add: ballot_ok_other)
  moreover have "\<forall>(t, i) \<in> elected c. \<exists>Q. majority S Q \<and> (\<forall>k \<in> Q. (k, t, i) \<in> ?G)"
    using assms(1) sub unfolding cinv_def by blast
  ultimately show ?thesis
    using cinvD(4-6) [OF assms(1,2)] by (simp add: cinv_def del: insert_iff)
qed

section \<open>Every step keeps the invariant\<close>

lemma step_new_term:
  assumes inv: "cinv S c" and step: "cstep env (NewTerm i n) c = Some c'" and "i \<in> S"
    and "disciplined c (NewTerm i n)"
  shows "cinv S c'"
proof -
  obtain rs w where sched: "vote_schedule env n (state_of c i) = (True, rs, w)"
    using step by (auto split: prod.splits if_splits)
  then obtain s where new: "vote_new_term env rs (snd (srv c i)) = Some s"
      and c': "c' = (set_srv i s c)\<lparr>elt := (elt c)(i := EPersisted (currentTerm (fst s)))\<rparr>"
    using step by (auto split: if_splits bind_splits)
  obtain rs' st' where s: "s = (rs', st')" by (cases s)
  have rs: "rs = (state_of c i)\<lparr>role := VDIR_RAFT_ROLE_CANDIDATE\<rparr>"
    by (rule vote_schedule_start [OF sched])
  have "currentTerm rs + 1 < 2 ^ 32"
    using assms(4) rs by simp
  note frame = vote_new_term_frame [OF new [unfolded s] this]
  have "same_ballot (state_of c i) rs'" "same_tally (state_of c i) rs'"
    using frame rs by (simp_all add: same_ballot_def same_tally_def)
  then show ?thesis
    using cinv_srv [OF inv assms(3)] tally_ok_cong cinvD(2) [OF inv assms(3)] by (simp add: c' s)
qed

lemma step_launch:
  assumes inv: "cinv S c" and step: "cstep env (Launch i None) c = Some c'" and i: "i \<in> S"
  shows "cinv S c'"
proof -
  obtain trm where trm: "elt c i = EPersisted trm"
    using step by (auto split: elect_thread.splits)
  obtain b rs where launch: "vote_launch env None trm (state_of c i) = (b, rs)"
    by fastforce
  note tally = cinvD(2) [OF inv i] and ballot = cinvD(1) [OF inv i]
  show ?thesis
  proof (cases b)
    case False
    then have "c' = (set_srv i (rs, snd (srv c i)) c)\<lparr>elt := (elt c)(i := EWait)\<rparr>"
      using step trm launch by simp
    then show ?thesis
      using vote_launch_cases [OF launch] False cinv_srv [OF inv i] tally_ok_cong [OF _ tally] by simp
  next
    case True
    then have c': "c' = ((set_srv i (rs, snd (srv c i)) c)\<lparr>grants := insert (i, currentTerm rs, i) (grants c),
        counted := (counted c)(i := {})\<rparr>)\<lparr>elt := (elt c)(i := EVoting)\<rparr>"
      using step trm launch by simp
    have L: "votedFor rs = i" "votedForTerm rs = currentTerm rs" "currentTerm rs = currentTerm (state_of c i)"
        "voteConsensusCnt rs = 1" "voteConsensusTerm rs = currentTerm rs" "hostname rs = i"
        "clusterSize rs = card S" "votedForTerm (state_of c i) \<noteq> currentTerm rs \<or> votedFor (state_of c i) = []"
      using vote_launch_cases [OF launch] True tally by (auto simp: tally_ok_def)
    have "ballot_ok S (insert (i, currentTerm rs, i) (grants c)) i rs"
      using L i cinvD(6) [OF inv i] by (intro ballot_ok_grant [OF ballot]) auto
    moreover have "tally_ok S (insert (i, currentTerm rs, i) (grants c)) i rs {} (thr c i)"
      using L tally by (simp add: tally_ok_def)
    ultimately show ?thesis
      unfolding c' cinv_elt by (rule cinv_grant [OF inv i])
  qed
qed

lemma step_threads:
  assumes inv: "cinv S c" and i: "i \<in> S" and j: "j \<in> S"
  shows "cstep env (PickUp i j) c = Some c' \<Longrightarrow> cinv S c'"
    and "cstep env (Send i j) c = Some c' \<Longrightarrow> cinv S c'"
    and "cstep env (Lost i j) c = Some c' \<Longrightarrow> cinv S c'"
proof -
  note tally = cinvD(2) [OF inv i]
  have host: "hostname (state_of c i) = i"
    using tally by (simp add: tally_ok_def)
  have free: "tally_ok S (grants c) i (state_of c i) (counted c i) ((thr c i)(j := t))"
    if "j \<notin> counted c i" "j \<noteq> i" "voteConsensusCnt (state_of c i) \<noteq> 0" for t
    using tally that by (auto simp: tally_ok_def)
  have busy: "j \<notin> counted c i" "j \<noteq> i" "voteConsensusCnt (state_of c i) \<noteq> 0"
    if "thr c i j \<noteq> PIdle" "thr c i j \<noteq> PDone"
    using tally that by (auto simp: tally_ok_def split: if_splits)
  show "cinv S c'" if "cstep env (PickUp i j) c = Some c'"
  proof -
    have pick: "i \<noteq> j" "thr c i j = PIdle" "cmd (state_of c i) = ExecReqestVote" "c' = set_thr i j PVoting c"
      using that by (auto split: if_splits)
    then have "j \<notin> counted c i" "voteConsensusCnt (state_of c i) \<noteq> 0"
      using tally by (auto simp: tally_ok_def split: if_splits)
    then show ?thesis
      using cinv_thr [OF inv i _ free] pick by simp
  qed
  show "cinv S c'" if "cstep env (Send i j) c = Some c'"
  proof -
    have "thr c i j = PVoting" and c': "\<exists>t li lt. c' = set_thr i j (PSent t i li lt) c"
      using that host by (auto simp: vote_request_def split: if_splits)
    then show ?thesis
      using cinv_thr [OF inv i _ free] busy by auto
  qed
  show "cinv S c'" if "cstep env (Lost i j) c = Some c'"
  proof -
    have "thr c i j \<noteq> PIdle" "thr c i j \<noteq> PDone" "c' = set_thr i j PDone c"
      using that by (auto split: peer_thread.splits)
    then show ?thesis
      using cinv_thr [OF inv i _ free] busy by auto
  qed
qed

lemma step_finish:
  assumes inv: "cinv S c" and step: "cstep env (Finish i j) c = Some c'" and i: "i \<in> S"
  shows "cinv S c'"
proof -
  note tally = cinvD(2) [OF inv i]
  let ?rs = "(state_of c i)\<lparr>cmd := ExecNone\<rparr>"
  have fin: "thr c i j = PDone" and c': "c' = set_thr i j PIdle (set_srv i (?rs, snd (srv c i)) c)"
    using step by (auto split: if_splits)
  have ballot: "same_ballot (state_of c i) ?rs"
    by (simp add: same_ballot_def)
  have "tally_ok S (grants c) i ?rs (counted c i) (thr c i)"
    using tally by (auto simp: tally_ok_def)
  then have inv1: "cinv S (set_srv i (?rs, snd (srv c i)) c)"
    by (rule cinv_srv [OF inv i ballot])
  have "tally_ok S (grants c) i ?rs (counted c i) ((thr c i)(j := PIdle))"
    using tally fin by (auto simp: tally_ok_def split: if_splits)
  then show ?thesis
    unfolding c' by (intro cinv_thr [OF inv1 i]) simp_all
qed

lemma step_deliver:
  assumes inv: "cinv S c" and step: "cstep env (Deliver i j None dup) c = Some c'"
    and i: "i \<in> S" and j: "j \<in> S"
    and same: "\<forall>x \<in> S. \<forall>y \<in> S. env_same env x y \<longrightarrow> x = y"
  shows "cinv S c'"
proof -
  obtain trm d li lt where sent: "thr c i j = PSent trm d li lt"
    using step by (auto split: peer_thread.splits)
  then have d: "d = i"
    using cinvD(3) [OF inv i, of j] by simp
  obtain err t g rs st where reply:
      "VmDirRequestVoteGetReply env None dup trm i li lt (state_of c j) (snd (srv c j)) = Some (err, t, g, rs, st)"
      and c': "c' = (set_thr i j (PReplied trm err t g) (set_srv j (rs, st) c))
        \<lparr>grants := (if err = None \<and> g = 0 then insert (j, t, i) (grants c) else grants c)\<rparr>"
    using step sent d by (auto split: bind_splits)
  note tally_i = cinvD(2) [OF inv i] and tally_j = cinvD(2) [OF inv j] and ballot = cinvD(1) [OF inv j]
  have ij: "i \<noteq> j" "j \<notin> counted c i" "voteConsensusCnt (state_of c i) \<noteq> 0"
    using tally_i sent by (auto simp: tally_ok_def split: if_splits)
  note tally' = tally_ok_cong [OF vote_reply_tally [OF reply] tally_j]
  have S0: "[] \<notin> S"
    by (rule cinvD(6) [OF inv i])
  show ?thesis
  proof (cases "err = None \<and> g = 0")
    case True
    let ?G = "insert (j, t, i) (grants c)"
    have vote: "t = trm" "currentTerm rs = trm" "votedForTerm rs = trm" "votedFor rs = i"
        "currentTerm (state_of c j) \<le> trm"
        "votedFor (state_of c j) = [] \<or> votedForTerm (state_of c j) \<noteq> trm \<or>
         env_same env (votedFor (state_of c j)) i"
      using vote_reply_cases [OF reply] True by auto
    then have "votedFor (state_of c j) = [] \<or> votedForTerm (state_of c j) \<noteq> trm \<or> votedFor (state_of c j) = i"
      using ballot same i by (auto simp: ballot_ok_def)
    then have b: "ballot_ok S ?G j rs"
      unfolding vote(1) using vote i S0 by (intro ballot_ok_grant [OF ballot]) auto
    let ?c = "(set_srv j (rs, st) c)\<lparr>grants := ?G, counted := (counted c)(j := counted c j)\<rparr>"
    have sub: "grants c \<subseteq> ?G" by blast
    have inv1: "cinv S ?c"
      by (rule cinv_grant [OF inv j b tally_ok_mono [OF sub tally']])
    have "tally_ok S (grants ?c) i (state_of ?c i) (counted ?c i) ((thr ?c i)(j := PReplied trm err t g))"
      using tally_ok_mono [OF sub tally_i] ij by (auto simp: tally_ok_def)
    then have "cinv S (set_thr i j (PReplied trm err t g) ?c)"
      using True vote(1) by (intro cinv_thr [OF inv1 i]) auto
    then show ?thesis
      using True by (simp add: c' cinv_def)
  next
    case False
    have "ballot_ok S (grants c) j rs"
    proof (cases "g = 0")
      case True
      then have vote: "currentTerm rs = trm" "votedForTerm rs = trm" "votedFor rs = i"
          "currentTerm (state_of c j) \<le> trm"
          "votedFor (state_of c j) = [] \<or> votedForTerm (state_of c j) \<noteq> trm \<or>
           env_same env (votedFor (state_of c j)) i"
        using vote_reply_cases [OF reply] by auto
      then have "votedFor (state_of c j) = [] \<or> votedForTerm (state_of c j) \<noteq> trm \<or> votedFor (state_of c j) = i"
        using ballot same i by (auto simp: ballot_ok_def)
      then have "ballot_ok S (insert (j, trm, i) (grants c)) j rs"
        using vote i S0 by (intro ballot_ok_grant [OF ballot]) auto
      then show ?thesis
        unfolding ballot_ok_def by blast
    next
      case False
      then show ?thesis
        using vote_reply_cases [OF reply] ballot_ok_cong [OF _ ballot] by blast
    qed
    then have inv1: "cinv S (set_srv j (rs, st) c)"
      using inv j tally' by (simp add: cinv_def)
    have "tally_ok S (grants c) i (state_of c i) (counted c i) ((thr c i)(j := PReplied trm err t g))"
      using tally_i ij by (auto simp: tally_ok_def)
    then have "cinv S (set_thr i j (PReplied trm err t g) (set_srv j (rs, st) c))"
      using ij False by (intro cinv_thr [OF inv1 i]) auto
    then show ?thesis
      using False by (auto simp: c' set_thr_def set_srv_def)
  qed
qed

lemma step_answer:
  assumes inv: "cinv S c" and step: "cstep env (Answer i j) c = Some c'"
    and i: "i \<in> S" and j: "j \<in> S" and "disciplined c (Answer i j)"
  shows "cinv S c'"
proof -
  obtain trm t g where ans: "thr c i j = PReplied trm None t g"
    using step by (auto split: peer_thread.splits option.splits)
  obtain rs st where rpc: "VmDirRequestVoteRpc env t g (state_of c i) (snd (srv c i)) = Some (rs, st)"
      and c': "c' = (set_thr i j PDone (set_srv i (rs, st) c))
        \<lparr>counted := (if counts t g (state_of c i) then (counted c)(i := insert j (counted c i)) else counted c)\<rparr>"
    using step ans by (auto split: bind_splits)
  note tally = cinvD(2) [OF inv i] and frame = vote_rpc_frame [OF rpc]
  have ij: "i \<noteq> j" "j \<notin> counted c i" "voteConsensusCnt (state_of c i) \<noteq> 0"
    using tally ans by (auto simp: tally_ok_def split: if_splits)
  let ?C = "if counts t g (state_of c i) then insert j (counted c i) else counted c i"
  have "tally_ok S (grants c) i rs ?C ((thr c i)(j := PDone))"
  proof (cases "counts t g (state_of c i)")
    case False
    then have "voteConsensusCnt rs = voteConsensusCnt (state_of c i)"
      using frame(6) by (auto simp: counts_def)
    then show ?thesis
      using tally ij frame False by (auto simp: tally_ok_def)
  next
    case True
    have fin: "finite (insert i (counted c i))"
      using tally cinvD(4) [OF inv i] by (auto simp: tally_ok_def intro: finite_subset)
    have "insert i (insert j (counted c i)) \<subseteq> S"
      using tally i j by (auto simp: tally_ok_def)
    then have le: "card (insert i (insert j (counted c i))) \<le> card S"
      using cinvD(4) [OF inv i] by (rule card_mono [rotated])
    have card: "card (insert i (insert j (counted c i))) = card (insert i (counted c i)) + 1"
      using card_insert_disjoint [OF fin, of j] ij by (simp add: insert_commute [of i j])
    have cnt: "voteConsensusCnt (state_of c i) \<le> card (insert i (counted c i))"
      using tally ij by (simp add: tally_ok_def)
    then have "voteConsensusCnt (state_of c i) + 1 < 2 ^ 32"
      using le card cinvD(5) [OF inv i] by linarith
    then have new: "voteConsensusCnt rs = voteConsensusCnt (state_of c i) + 1"
      using frame(6) True by (simp add: counts_def wrap_simps)
    have "trm = voteConsensusTerm (state_of c i)" "(j, trm, i) \<in> grants c"
      using True assms(5) ans cinvD(3) [OF inv i, of j] by (auto simp: counts_def)
    then show ?thesis
      using tally ij frame(2-5) new cnt card True j by (auto simp: tally_ok_def)
  qed
  moreover have "ballot_ok S (grants c) i rs"
    by (rule ballot_ok_cong [OF frame(1) cinvD(1) [OF inv i]])
  ultimately show ?thesis
    using inv i unfolding c' cinv_def by auto
qed

lemma step_evaluate:
  assumes inv: "cinv S c" and step: "cstep env (Evaluate i be io) c = Some c'" and i: "i \<in> S"
  shows "cinv S c'"
proof -
  let ?rs = "(state_of c i)\<lparr>cmd := ExecNone\<rparr>"
  obtain l rs st where ev: "VmDirEvaluateVoteResult env be io ?rs (snd (srv c i)) = Some (l, rs, st)"
      and c': "c' = (set_srv i (rs, st) c)\<lparr>elt := (elt c)(i := EWait),
        elected := (if l = None then elected c else insert (currentTerm rs, i) (elected c))\<rparr>"
    using step by (auto split: if_splits bind_splits)
  note tally = cinvD(2) [OF inv i] and frame = evaluate_frame [OF ev]
  have "tally_ok S (grants c) i ?rs (counted c i) (thr c i)"
    using tally by (auto simp: tally_ok_def)
  then have tally': "tally_ok S (grants c) i rs (counted c i) (thr c i)"
    by (rule tally_ok_cong [OF frame(2)])
  have "same_ballot (state_of c i) rs"
    using frame(1) by (simp add: same_ballot_def)
  from cinv_srv [OF inv i this tally'] have inv1: "cinv S (set_srv i (rs, st) c)" .
  show ?thesis
  proof (cases l)
    case None
    then show ?thesis
      using inv1 by (simp add: c' cinv_def)
  next
    case (Some x)
    then have win: "currentTerm rs = voteConsensusTerm (state_of c i)"
        "card S div 2 + 1 \<le> voteConsensusCnt (state_of c i)"
      using frame(3,4) tally by (auto simp: tally_ok_def)
    let ?Q = "insert i (counted c i)"
    have "majority S ?Q" "\<forall>k \<in> ?Q. (k, currentTerm rs, i) \<in> grants c"
      using win tally i cinvD(4) [OF inv i] by (auto simp: majority_def tally_ok_def split: if_splits)
    then show ?thesis
      using inv1 Some unfolding c' cinv_def by auto
  qed
qed

lemma step_append:
  assumes inv: "cinv S c" and step: "cstep env (Append i a alloc) c = Some c'" and i: "i \<in> S"
  shows "cinv S c'"
proof -
  obtain e t n rs st where ae: "VmDirAppendEntriesGetReply env alloc a (state_of c i) (snd (srv c i)) =
        Some (e, t, n, rs, st)" and c': "c' = set_srv i (rs, st) c"
    using step by (auto split: bind_splits)
  note frame = append_entries_frame [OF ae]
  have "same_ballot (state_of c i) rs"
    using frame by (simp add: vote_frame_def same_ballot_def)
  moreover have "tally_ok S (grants c) i rs (counted c i) (thr c i)"
    using frame cinvD(2) [OF inv i] by (auto simp: vote_frame_def tally_ok_def)
  ultimately show ?thesis
    unfolding c' by (rule cinv_srv [OF inv i])
qed

lemma cinv_reachable:
  assumes "reachable S same c" and "\<forall>x \<in> S. \<forall>y \<in> S. same x y \<longrightarrow> x = y"
  shows "cinv S c"
  using assms(1)
proof (induction rule: reachable.induct)
  case (start c)
  then show ?case by (rule cinv_init)
next
  case (step c env e c')
  then show ?case
    using assms(2)
    by (cases e)
       (auto simp del: cstep.simps intro: step_new_term step_launch step_threads step_finish step_deliver
          step_answer step_evaluate step_append)
qed

text \<open>
  C1. Election safety: in every run of the cluster, however its threads interleave and
  its messages are delayed or lost, at most one server takes the lead in a term, provided that
  no server restarts, that the name of the voted candidate can be allocated, that no answer
  counts in a later term than it was asked in, and that host names differ by more than case.
\<close>

theorem election_safety:
  assumes "reachable S same c" and "\<forall>x \<in> S. \<forall>y \<in> S. same x y \<longrightarrow> x = y"
    and "(t, i) \<in> elected c" and "(t, j) \<in> elected c"
  shows "i = j"
proof -
  have inv: "cinv S c"
    by (rule cinv_reachable [OF assms(1,2)])
  obtain Q R where Q: "majority S Q" "\<forall>k \<in> Q. (k, t, i) \<in> grants c"
      and R: "majority S R" "\<forall>k \<in> R. (k, t, j) \<in> grants c"
    using inv assms(3,4) unfolding cinv_def by blast
  have "u = v" if "k \<in> S \<and> (k, t, u) \<in> grants c" "k \<in> S \<and> (k, t, v) \<in> grants c" for k u v
    using that cinvD(1) [OF inv, of k] unfolding ballot_ok_def by blast
  moreover have "\<forall>k \<in> Q. k \<in> S \<and> (k, t, i) \<in> grants c" "\<forall>k \<in> R. k \<in> S \<and> (k, t, j) \<in> grants c"
    using Q R by (auto simp: majority_def)
  ultimately show ?thesis
    using mj.backed_unique [OF Q(1) _ R(1), of "\<lambda>k u. k \<in> S \<and> (k, t, u) \<in> grants c" i j] by blast
qed

section \<open>Concrete runs\<close>

fun crun :: "raft_env \<Rightarrow> event list \<Rightarrow> cluster \<Rightarrow> cluster option" where
  "crun env [] c = Some c"
| "crun env (e # es) c = (case cstep env e c of None \<Rightarrow> None | Some c' \<Rightarrow> crun env es c')"

fun crun_disciplined :: "raft_env \<Rightarrow> event list \<Rightarrow> cluster \<Rightarrow> bool" where
  "crun_disciplined env [] c = True"
| "crun_disciplined env (e # es) c =
     (disciplined c e \<and> (case cstep env e c of None \<Rightarrow> True | Some c' \<Rightarrow> crun_disciplined env es c'))"

lemma reachable_crun:
  "reachable S (env_same env) c \<Longrightarrow> crun env es c = Some c' \<Longrightarrow> crun_disciplined env es c \<Longrightarrow>
     \<Union> (servers_of ` set es) \<subseteq> S \<Longrightarrow> reachable S (env_same env) c'"
  by (induction es arbitrary: c) (auto split: option.splits intro: reachable.step)

definition demo_cluster :: cluster where
  "demo_cluster =
     \<lparr>srv = (\<lambda>i. ((zero_state i 3)\<lparr>initialized := True, role := VDIR_RAFT_ROLE_FOLLOWER, firstLogIndex := 1\<rparr>,
                  VmDirInitRaftPsState)),
      thr = (\<lambda>_ _. PIdle), elt = (\<lambda>_. EWait), grants = {}, counted = (\<lambda>_. {}), elected = {}\<rparr>"

abbreviation demo_servers :: "string set" where
  "demo_servers \<equiv> {''a'', ''b'', ''c''}"

lemma demo_init: "init_cluster demo_servers demo_cluster"
  by (auto simp: init_cluster_def demo_cluster_def zero_state_def)

definition ask_round :: "string \<Rightarrow> string \<Rightarrow> event list" where
  "ask_round i j = [PickUp i j, Send i j, Deliver i j None None, Answer i j, Finish i j]"

definition normal_run :: "event list" where
  "normal_run = [NewTerm ''a'' 0, Launch ''a'' None] @ ask_round ''a'' ''b'' @ [Evaluate ''a'' None None]"

lemmas demo_defs = demo_cluster_def small_env_def zero_state_def VmDirInitRaftPsState_def ask_round_def

lemmas vote_defs = vote_schedule_def vote_new_term_def VmDirPersistTerm_def to_int32_def wrap32_def
  wrap64_def vote_launch_def vote_request_def VmDirRequestVoteGetReply_def vote_decision_def
  log_newer_def VmDirRequestVoteRpc_def counts_def VmDirEvaluateVoteResult_def pack_log_entry
  VmDirPersistLog_def VmDirIsEntryInCurrentLog_def set_srv_def set_thr_def empty_log_def
  unpacked_def Let_def

lemma normal_run_elects:
  "case crun small_env normal_run demo_cluster of
     None \<Rightarrow> False
   | Some c \<Rightarrow> crun_disciplined small_env normal_run demo_cluster \<and> (1, ''a'') \<in> elected c"
  by (simp add: normal_run_def demo_defs vote_defs)

theorem election_safety_witness:
  "\<exists>c. crun small_env normal_run demo_cluster = Some c \<and> (1, ''a'') \<in> elected c \<and>
       (\<exists>!i. (1, i) \<in> elected c)"
proof -
  obtain c where run: "crun small_env normal_run demo_cluster = Some c"
      and win: "(1, ''a'') \<in> elected c" and disc: "crun_disciplined small_env normal_run demo_cluster"
    using normal_run_elects by (auto split: option.splits)
  have "reachable demo_servers (env_same small_env) c"
    using reachable_crun [OF reachable.start [OF demo_init] run disc]
    by (simp add: normal_run_def ask_round_def)
  moreover have "\<forall>x \<in> demo_servers. \<forall>y \<in> demo_servers. env_same small_env x y \<longrightarrow> x = y"
    by (simp add: small_env_def)
  ultimately have "i = ''a''" if "(1, i) \<in> elected c" for i
    using election_safety [of demo_servers "env_same small_env" c 1 i "''a''"] that win by blast
  with run win show ?thesis by blast
qed

text \<open>
  Candidate \<open>a\<close> asks \<open>b\<close> in term 1 and moves on to term 2 before the answer is there; \<open>b\<close>
  grants term 1 to \<open>a\<close> and term 2 to \<open>c\<close>, and \<open>a\<close> counts the old grant for term 2.
\<close>

definition stale_run :: "event list" where
  "stale_run =
     [NewTerm ''a'' 0, Launch ''a'' None, PickUp ''a'' ''b'', Send ''a'' ''b'', Evaluate ''a'' None None,
      NewTerm ''a'' 0, Launch ''a'' None, Deliver ''a'' ''b'' None None,
      NewTerm ''c'' 0, Launch ''c'' None, Evaluate ''c'' None None,
      NewTerm ''c'' 0, Launch ''c'' None] @ ask_round ''c'' ''b'' @
     [Evaluate ''c'' None None, Answer ''a'' ''b'', Evaluate ''a'' None None]"


text \<open>Server \<open>b\<close> votes for \<open>a\<close>, restarts, and votes for \<open>c\<close> in the same term.\<close>

definition restart_run :: "event list" where
  "restart_run =
     [NewTerm ''a'' 0, Launch ''a'' None] @ ask_round ''a'' ''b'' @
     [Evaluate ''a'' None None, Restart ''b'' 0, NewTerm ''c'' 0, Launch ''c'' None] @
     ask_round ''c'' ''b'' @ [Evaluate ''c'' None None]"


end
