(* ===== verification/Raft_Peers.thy ===== *)
theory Raft_Peers
  imports Raft_State
begin

text \<open>
  The peers of a server: the list of proxies in \<open>gRaftState\<close> and the size of the cluster, as
  \<open>lwraft/server/replication/thread.c\<close> and the connection in \<open>raftldaprpc.c\<close> change them when the
  accounts of servers are added to or deleted from the directory. Names of entries are taken
  apart by the directory's functions; what they return is a parameter. The size of the cluster
  is an \<open>int\<close> of the code kept in \<open>nat\<close>: it is decremented only for a member of the cluster, when
  it is at least 2 by the invariant below.
\<close>

section \<open>Adding and removing peers\<close>

text \<open>The position of the first proxy for a host.\<close>

fun find_peer :: "raft_env \<Rightarrow> string \<Rightarrow> peer_proxy list \<Rightarrow> nat option" where
  "find_peer env pHostname [] = None"
| "find_peer env pHostname (p # ps) =
     (if env_same env (raftPeerHostname p) pHostname then Some 0
      else map_option Suc (find_peer env pHostname ps))"

definition VmDirRemovePeerInLock :: "raft_env \<Rightarrow> string \<Rightarrow> raft_state \<Rightarrow> raft_state" where
  "VmDirRemovePeerInLock env pHostname rs =
     (case find_peer env pHostname (proxies rs) of
        None \<Rightarrow> rs
      | Some i \<Rightarrow>
          (let p = proxies rs ! i in
           if \<not> isDeleted p \<and> proxy_state p \<noteq> PENDING_ADD
           then rs\<lparr>proxies := (proxies rs)[i := p\<lparr>isDeleted := True\<rparr>], clusterSize := clusterSize rs - 1\<rparr>
           else rs))"

text \<open>
  Copying a host name into the 256 bytes a proxy has for it, its terminating zero included. The
  copy into a null pointer is not reached.
\<close>

definition VmDirStringCpyA :: "nat \<Rightarrow> string \<Rightarrow> rc" where
  "VmDirStringCpyA numberOfElements strSource =
     (if length strSource + 1 > numberOfElements then Some ERROR_INVALID_PARAMETER else None)"

definition VMDIR_MAX_LDAP_URI_LEN :: nat where
  "VMDIR_MAX_LDAP_URI_LEN = 256"

text \<open>
  A new proxy, or a deleted one that comes back; \<open>thr\<close> is the result of creating its thread.
  304 is the size of the structure.
\<close>

definition VmDirNewPeerProxyInLock ::
  "raft_env \<Rightarrow> (string \<Rightarrow> rc) \<Rightarrow> string \<Rightarrow> raft_proxy_state \<Rightarrow> raft_state \<Rightarrow> rc \<times> raft_state" where
  "VmDirNewPeerProxyInLock env thr pHostname state rs =
     (case find_peer env pHostname (proxies rs) of
        Some i \<Rightarrow>
          (let p = proxies rs ! i in
           if \<not> isDeleted p then (None, rs)
           else case VmDirStringCpyA VMDIR_MAX_LDAP_URI_LEN pHostname of
                  Some e \<Rightarrow> (Some e, rs)
                | None \<Rightarrow>
                    (thr pHostname,
                     rs\<lparr>proxies := (proxies rs)[i := p\<lparr>raftPeerHostname := pHostname, isDeleted := False,
                                                     proxy_state := state\<rparr>]\<rparr>))
      | None \<Rightarrow>
          (case VmDirAllocateMemory (env_mem env) 304 of
             Some e \<Rightarrow> (Some e, rs)
           | None \<Rightarrow>
               (case VmDirStringCpyA VMDIR_MAX_LDAP_URI_LEN pHostname of
                  Some e \<Rightarrow> (Some e, rs)
                | None \<Rightarrow>
                    (thr pHostname,
                     rs\<lparr>proxies := \<lparr>isDeleted = False, proxy_state = state, raftPeerHostname = pHostname,
                                    bLogReplicated = False, matchIndex = 0\<rparr> # proxies rs\<rparr>))))"

text \<open>
  The proxies at start-up, from the accounts found in the directory: for each, an error of
  normalising its name, the server itself, an error of reading the host from its name, or the
  host of a peer.
\<close>

datatype account = AccError vmdir_error | AccSelf | AccPeer string

fun start_proxies :: "raft_env \<Rightarrow> (string \<Rightarrow> rc) \<Rightarrow> account list \<Rightarrow> raft_state \<Rightarrow> rc \<times> raft_state" where
  "start_proxies env thr [] rs = (None, rs)"
| "start_proxies env thr (a # as) rs =
     (case a of
        AccError e \<Rightarrow> (Some e, rs)
      | AccSelf \<Rightarrow> start_proxies env thr as rs
      | AccPeer h \<Rightarrow>
          (case VmDirNewPeerProxyInLock env thr h RPC_DISCONN rs of
             (Some e, rs') \<Rightarrow> (Some e, rs')
           | (None, rs') \<Rightarrow> start_proxies env thr as (rs'\<lparr>clusterSize := clusterSize rs' + 1\<rparr>)))"

definition VmDirStartProxies ::
  "raft_env \<Rightarrow> (string \<Rightarrow> rc) \<Rightarrow> bool \<Rightarrow> vmdir_error + account list \<Rightarrow> raft_state \<Rightarrow> rc \<times> raft_state" where
  "VmDirStartProxies env thr has_container found rs =
     (if \<not> has_container then (Some LDAP_OPERATIONS_ERROR, rs)
      else case found of
             Inl e \<Rightarrow> (Some e, rs)
           | Inr accounts \<Rightarrow> start_proxies env thr accounts (rs\<lparr>clusterSize := 1\<rparr>))"

text \<open>
  An account was added: \<open>dn\<close> and \<open>pdn\<close> are the entry's and its parent's names, \<open>dc\<close> the server's
  own account (\<open>None\<close> before it is configured) and \<open>container\<close> its parent, empty if unknown;
  \<open>host\<close> is what the entry's relative name gives.
\<close>

definition VmDirAddRaftProxy ::
  "raft_env \<Rightarrow> (string \<Rightarrow> rc) \<Rightarrow> string option \<Rightarrow> string \<Rightarrow> string option \<Rightarrow> string \<Rightarrow> vmdir_error + string \<Rightarrow>
     raft_state \<Rightarrow> rc \<times> raft_state" where
  "VmDirAddRaftProxy env thr dn pdn dc container host rs =
     (case (dn, dc) of
        (Some d, Some s) \<Rightarrow>
          (if pdn = [] \<or> env_same env d s then (None, rs)
           else if container = [] then (Some LDAP_OPERATIONS_ERROR, rs)
           else if \<not> env_same env pdn container then (None, rs)
           else case host of
                  Inl e \<Rightarrow> (Some e, rs)
                | Inr h \<Rightarrow>
                    (if env_same env (hostname rs) h then (None, rs)
                     else VmDirNewPeerProxyInLock env thr h PENDING_ADD rs))
      | _ \<Rightarrow> (None, rs))"

text \<open>An account is deleted; a server's own account may not be.\<close>

definition VmDirDeleteRaftProxy ::
  "raft_env \<Rightarrow> string option \<Rightarrow> vmdir_error + string \<Rightarrow> string \<Rightarrow> vmdir_error + string \<Rightarrow> vmdir_error + string \<Rightarrow>
     raft_state \<Rightarrow> rc \<times> raft_state" where
  "VmDirDeleteRaftProxy env dn_norm parent dc container host rs =
     (case dn_norm of
        None \<Rightarrow> (Some VMDIR_ERROR_INVALID_PARAMETER, rs)
      | Some dn \<Rightarrow>
          (case parent of
             Inl e \<Rightarrow> (Some e, rs)
           | Inr pdn \<Rightarrow>
               (if env_same env dn dc then (Some VMDIR_ERROR_UNWILLING_TO_PERFORM, rs)
                else case container of
                       Inl e \<Rightarrow> (Some e, rs)
                     | Inr cont \<Rightarrow>
                         (if cont = [] then (Some LDAP_OPERATIONS_ERROR, rs)
                          else if \<not> env_same env pdn cont then (None, rs)
                          else case host of
                                 Inl e \<Rightarrow> (Some e, rs)
                               | Inr h \<Rightarrow> (None, VmDirRemovePeerInLock env h rs)))))"

text \<open>A peer thread has connected to its peer: the section of \<open>VmDirLdapRpcConnect\<close> under the mutex.\<close>

definition VmDirLdapRpcConnect :: "nat \<Rightarrow> raft_state \<Rightarrow> raft_state" where
  "VmDirLdapRpcConnect i rs =
     (let p = proxies rs ! i in
      rs\<lparr>clusterSize := (if proxy_state p = PENDING_ADD then clusterSize rs + 1 else clusterSize rs),
         proxies := (proxies rs)[i := p\<lparr>proxy_state := RPC_BUSY\<rparr>]\<rparr>)"

section \<open>The size of the cluster\<close>

text \<open>A proxy is a member of the cluster unless it is deleted or still to be connected to.\<close>

definition member_proxy :: "peer_proxy \<Rightarrow> bool" where
  "member_proxy p \<longleftrightarrow> \<not> isDeleted p \<and> proxy_state p \<noteq> PENDING_ADD"

definition size_ok :: "raft_state \<Rightarrow> bool" where
  "size_ok rs \<longleftrightarrow> clusterSize rs = 1 + length (filter member_proxy (proxies rs))"

text \<open>
  The steps of the threads that touch the peers. A peer thread works on a proxy of its own
  that is not deleted: it connects, loses the connection, or is idle or busy.
\<close>

inductive peer_step :: "raft_env \<Rightarrow> raft_state \<Rightarrow> raft_state \<Rightarrow> bool" for env where
  add_peer: "VmDirAddRaftProxy env thr dn pdn dc container host rs = (err, rs') \<Longrightarrow> peer_step env rs rs'"
| delete_peer: "VmDirDeleteRaftProxy env dn parent dc' container' host rs = (err, rs') \<Longrightarrow> peer_step env rs rs'"
| connect: "i < length (proxies rs) \<Longrightarrow> \<not> isDeleted (proxies rs ! i) \<Longrightarrow> peer_step env rs (VmDirLdapRpcConnect i rs)"
| set_state: "i < length (proxies rs) \<Longrightarrow> proxy_state (proxies rs ! i) \<noteq> PENDING_ADD \<Longrightarrow> s \<noteq> PENDING_ADD \<Longrightarrow>
    peer_step env rs (rs\<lparr>proxies := (proxies rs)[i := (proxies rs ! i)\<lparr>proxy_state := s\<rparr>]\<rparr>)"

inductive_cases peer_stepE: "peer_step env rs rs'"

lemma find_peer_less: "find_peer env h ps = Some i \<Longrightarrow> i < length ps"
  by (induction ps arbitrary: i) (auto split: if_splits)

lemma length_filter_update:
  "i < length xs \<Longrightarrow>
     length (filter P (xs[i := x])) + (if P (xs ! i) then 1 else 0) = length (filter P xs) + (if P x then 1 else 0)"
proof (induction xs arbitrary: i)
  case (Cons y ys)
  then show ?case by (cases i) auto
qed simp

lemma size_ok_update:
  assumes "size_ok rs" and "i < length (proxies rs)"
    and "n + (if member_proxy (proxies rs ! i) then 1 else 0) = clusterSize rs + (if member_proxy p then 1 else 0)"
    and "proxies rs' = (proxies rs)[i := p]" and "clusterSize rs' = n"
  shows "size_ok rs'"
  using assms length_filter_update [OF assms(2), of member_proxy p] by (simp add: size_ok_def split: if_splits)

lemma remove_peer_size: "size_ok rs \<Longrightarrow> size_ok (VmDirRemovePeerInLock env h rs)"
  unfolding VmDirRemovePeerInLock_def Let_def
  by (auto split: option.splits dest!: find_peer_less)
     (rule size_ok_update, assumption+, auto simp: member_proxy_def size_ok_def)

lemma new_peer_size:
  assumes "size_ok rs" and "VmDirNewPeerProxyInLock env thr h PENDING_ADD rs = (err, rs')"
  shows "size_ok rs'"
proof (cases "find_peer env h (proxies rs)")
  case None
  then show ?thesis
    using assms by (auto simp: VmDirNewPeerProxyInLock_def size_ok_def member_proxy_def split: option.splits)
next
  case (Some i)
  let ?p = "(proxies rs ! i)\<lparr>raftPeerHostname := h, isDeleted := False, proxy_state := PENDING_ADD\<rparr>"
  have "rs' = rs \<or> isDeleted (proxies rs ! i) \<and> rs' = rs\<lparr>proxies := (proxies rs)[i := ?p]\<rparr>"
    using Some assms(2) by (auto simp: VmDirNewPeerProxyInLock_def Let_def split: if_splits option.splits)
  then show ?thesis
    using assms(1) find_peer_less [OF Some] size_ok_update [of rs i "clusterSize rs" ?p rs']
    by (auto simp: member_proxy_def)
qed

lemma connect_size:
  assumes "size_ok rs" and "i < length (proxies rs)" and "\<not> isDeleted (proxies rs ! i)"
  shows "size_ok (VmDirLdapRpcConnect i rs)"
  by (rule size_ok_update [OF assms(1,2), where p = "(proxies rs ! i)\<lparr>proxy_state := RPC_BUSY\<rparr>"
        and n = "clusterSize (VmDirLdapRpcConnect i rs)"])
     (simp_all add: assms(3) VmDirLdapRpcConnect_def Let_def member_proxy_def)

lemma peer_step_size:
  assumes "peer_step env rs rs'" and "size_ok rs"
  shows "size_ok rs'"
  using assms
proof (cases rule: peer_step.cases)
  case (add_peer thr dn pdn dc container host err)
  then show ?thesis
    using assms(2) by (auto simp: VmDirAddRaftProxy_def split: option.splits if_splits sum.splits dest: new_peer_size)
next
  case (delete_peer dn parent dc' container' host err)
  then show ?thesis
    using assms(2) by (auto simp: VmDirDeleteRaftProxy_def remove_peer_size split: option.splits if_splits sum.splits)
next
  case (connect i)
  then show ?thesis using assms(2) connect_size by blast
next
  case (set_state i s)
  show ?thesis
    by (rule size_ok_update [OF assms(2) set_state(2), where p = "(proxies rs ! i)\<lparr>proxy_state := s\<rparr>"
          and n = "clusterSize rs"]) (simp_all add: set_state member_proxy_def)
qed

text \<open>Starting with no proxies on accounts of different hosts.\<close>

primrec peer_hosts :: "account list \<Rightarrow> string list" where
  "peer_hosts [] = []"
| "peer_hosts (a # as) = (case a of AccPeer h \<Rightarrow> h # peer_hosts as | _ \<Rightarrow> peer_hosts as)"

lemma find_peer_None: "find_peer env h ps = None \<longleftrightarrow> (\<forall>p \<in> set ps. \<not> env_same env (raftPeerHostname p) h)"
  by (induction ps) auto

lemma start_proxies_size:
  assumes "start_proxies env thr as rs = (None, rs')" and "size_ok rs"
    and "pairwise (\<lambda>a b. \<not> env_same env a b) (set (peer_hosts as) \<union> raftPeerHostname ` set (proxies rs))"
    and "distinct (peer_hosts as)" and "set (peer_hosts as) \<inter> raftPeerHostname ` set (proxies rs) = {}"
  shows "size_ok rs' \<and> length (proxies rs') = length (proxies rs) + length (peer_hosts as)"
  using assms
proof (induction as arbitrary: rs)
  case (Cons a as)
  show ?case
  proof (cases a)
    case (AccPeer h)
    have "find_peer env h (proxies rs) = None"
      unfolding find_peer_None
    proof (rule ballI)
      fix p assume "p \<in> set (proxies rs)"
      then show "\<not> env_same env (raftPeerHostname p) h"
        using Cons.prems(3,5) AccPeer by (intro pairwiseD [OF Cons.prems(3)]) auto
    qed
    then obtain rs1 where "VmDirNewPeerProxyInLock env thr h RPC_DISCONN rs = (None, rs1)"
      and start: "start_proxies env thr as (rs1\<lparr>clusterSize := clusterSize rs1 + 1\<rparr>) = (None, rs')"
      and rs1: "rs1 = rs\<lparr>proxies := \<lparr>isDeleted = False, proxy_state = RPC_DISCONN, raftPeerHostname = h,
                                       bLogReplicated = False, matchIndex = 0\<rparr> # proxies rs\<rparr>"
      using Cons.prems(1) AccPeer by (auto simp: VmDirNewPeerProxyInLock_def split: prod.splits option.splits)
    have "pairwise (\<lambda>a b. \<not> env_same env a b)
            (set (peer_hosts as) \<union> raftPeerHostname ` set (proxies (rs1\<lparr>clusterSize := clusterSize rs1 + 1\<rparr>)))"
      using Cons.prems(3) by (rule pairwise_subset) (auto simp: AccPeer rs1)
    then show ?thesis
      using Cons.IH [OF start] Cons.prems(2,4,5) by (auto simp: AccPeer rs1 size_ok_def member_proxy_def)
  qed (use Cons in auto)
qed simp

inductive peers_reachable :: "raft_env \<Rightarrow> raft_state \<Rightarrow> raft_state \<Rightarrow> bool" for env rs where
  peers_start: "peers_reachable env rs rs"
| peers_next: "peers_reachable env rs s \<Longrightarrow> peer_step env s s' \<Longrightarrow> peers_reachable env rs s'"

lemma peers_reachable_size: "peers_reachable env rs s \<Longrightarrow> size_ok rs \<Longrightarrow> size_ok s"
  by (induction rule: peers_reachable.induct) (auto intro: peer_step_size)


definition peers_env :: raft_env where
  "peers_env = \<lparr>env_mem = (\<lambda>_. True), env_search = (\<lambda>_. None), env_search_from = (\<lambda>_. None),
     env_add = (\<lambda>_. None), env_delete = (\<lambda>_. None), env_modify = None, env_time = 0,
     env_shutdown = False, env_same = (=)\<rparr>"

definition lone_server :: raft_state where
  "lone_server =
     \<lparr>role = VDIR_RAFT_ROLE_FOLLOWER, cmd = ExecNone, hostname = ''a'', clusterSize = 0,
      voteConsensusCnt = 0, voteDeniedCnt = 0, voteConsensusTerm = 0, initialized = True,
      lastPingRecvTime = 0, commitIndex = 0, commitIndexTerm = 0, lastLogIndex = 0,
      firstLogIndex = 0, indexToApply = 0, opCounts = 0, lastLogTerm = 0, leader = [],
      disallowUpdates = False, proxies = [], bHasPrevLog = False, lastApplied = 0,
      currentTerm = 0, votedForTerm = 0, votedFor = []\<rparr>"

definition three_servers :: raft_state where
  "three_servers =
     snd (VmDirStartProxies peers_env (\<lambda>_. None) True (Inr [AccPeer ''b'', AccSelf, AccPeer ''c'']) lone_server)"


text \<open>
  Deleting the account of a server to which no connection was made yet is lost: the proxy
  is not marked, its thread keeps trying, and the first connection adds a server without an
  account to the size of the cluster.
\<close>
lemma delete_pending_peer_lost:
  assumes "find_peer env h (proxies rs) = Some i" and "proxy_state (proxies rs ! i) = PENDING_ADD"
    and "\<not> env_same env dn dc" and "container \<noteq> []" and "env_same env pdn container"
  shows "VmDirDeleteRaftProxy env (Some dn) (Inr pdn) dc (Inr container) (Inr h) rs = (None, rs) \<and>
         clusterSize (VmDirLdapRpcConnect i rs) = clusterSize rs + 1"
  using assms by (simp add: VmDirDeleteRaftProxy_def VmDirRemovePeerInLock_def VmDirLdapRpcConnect_def Let_def)

end
