(* ===== verification/Raft_Prepare.thy ===== *)
theory Raft_Prepare
  imports Raft_Peers
begin

text \<open>
  The consensus on a log entry: the three callbacks of \<open>lwraft/server/replication/thread.c\<close> that
  the commit of the database library makes. \<open>VmDirRaftPrepareCommit\<close> waits until a majority of the
  servers has replicated \<open>gLogEntry\<close>; the committing thread holds the mutex and releases it only
  in a wait. What the other threads make of the Raft state during the \<open>n\<close>-th wait and what the
  wait returns is the schedule \<open>raft_sched\<close>, any function of \<open>n\<close> and the state; so is whether the
  server is shutting down after \<open>n\<close> waits. All results carry the number of waits.
\<close>

section \<open>Waiting for peers\<close>

datatype wait_rc = WaitOk | WaitTimedOut | WaitError

record raft_sched =
  sc_wait :: "nat \<Rightarrow> raft_state \<Rightarrow> wait_rc \<times> raft_state"
  sc_shutdown :: "nat \<Rightarrow> bool"

definition RAFT_NOOP :: "32 word" where "RAFT_NOOP = 0"
definition RAFT_MULTILOG :: "32 word" where "RAFT_MULTILOG = 1"

definition may_continue :: "raft_sched \<Rightarrow> nat \<Rightarrow> raft_state \<Rightarrow> bool" where
  "may_continue sc n rs \<longleftrightarrow> role rs = VDIR_RAFT_ROLE_LEADER \<and> \<not> sc_shutdown sc n"

text \<open>
  The loop that waits until half of the peer threads are idle: error, retry counter, waits and
  state.
\<close>

function wait_peers :: "raft_sched \<Rightarrow> nat \<Rightarrow> nat \<Rightarrow> raft_state \<Rightarrow> rc \<times> nat \<times> nat \<times> raft_state" where
  "wait_peers sc retry n rs =
     (if \<not> may_continue sc n rs then (Some VMDIR_ERROR_UNWILLING_TO_PERFORM, retry, n, rs)
      else if VmDirPeersIdleInLock rs < clusterSize rs div 2 then
        (if retry \<ge> 32 then (Some LDAP_OPERATIONS_ERROR, retry, n, rs\<lparr>role := VDIR_RAFT_ROLE_FOLLOWER\<rparr>)
         else case sc_wait sc n rs of
                (WaitTimedOut, rs1) \<Rightarrow> wait_peers sc (retry + 1) (n + 1) rs1
              | (WaitError, rs1) \<Rightarrow>
                  (Some LDAP_OPERATIONS_ERROR, retry + 1, n + 1, rs1\<lparr>role := VDIR_RAFT_ROLE_FOLLOWER\<rparr>)
              | (WaitOk, rs1) \<Rightarrow> (None, retry + 1, n + 1, rs1))
      else (None, retry, n, rs))"
  by pat_completeness auto
termination
  by (relation "measure (\<lambda>(sc, retry, n, rs). 33 - retry)") auto

declare wait_peers.simps [simp del]

text \<open>The waits of the loop are counted by the retries; both only grow.\<close>

lemma wait_peers_retry:
  "wait_peers sc retry n rs = (err, retry', n', rs') \<Longrightarrow>
     retry \<le> retry' \<and> n' = n + (retry' - retry) \<and> (retry \<le> 32 \<longrightarrow> retry' \<le> 32)"
proof (induction sc retry n rs rule: wait_peers.induct)
  case (1 sc retry n rs)
  show ?case
    using 1(2) 1(1) [simplified]
    by (subst (asm) wait_peers.simps) (fastforce split: if_splits prod.splits wait_rc.splits)
qed

section \<open>Consensus\<close>

text \<open>
  From \<open>get_consensus_begin\<close> to \<open>raft_commit_done\<close>. The log is sent by the peer threads, which
  the assignment of \<open>cmd\<close> and the broadcast start.
\<close>

function get_consensus :: "raft_sched \<Rightarrow> raft_log \<Rightarrow> nat \<Rightarrow> nat \<Rightarrow> raft_state \<Rightarrow> rc \<times> nat \<times> raft_state" where
  "get_consensus sc l retry n rs =
     (case wait_peers sc retry n rs of
        (Some e, retry1, n1, rs1) \<Rightarrow> (Some e, n1, rs1)
      | (None, retry1, n1, rs1) \<Rightarrow>
          (if \<not> may_continue sc n1 rs1 then (Some VMDIR_ERROR_UNWILLING_TO_PERFORM, n1, rs1)
           else
             (let rs2 = snd (sc_wait sc n1 (VmDirClearProxyLogReplicatedInLock (rs1\<lparr>cmd := ExecAppendEntries\<rparr>))) in
              if \<not> may_continue sc (n1 + 1) rs2 \<or> of_nat (currentTerm rs2) \<noteq> log_term l
              then (Some VMDIR_ERROR_UNWILLING_TO_PERFORM, n1 + 1, rs2)
              else if VmDirGetAppendEntriesConsensusCountInLock rs2 < clusterSize rs2 div 2 + 1 then
                (if retry1 \<ge> 32
                 then (Some LDAP_OPERATIONS_ERROR, n1 + 1, rs2\<lparr>role := VDIR_RAFT_ROLE_FOLLOWER\<rparr>)
                 else get_consensus sc l (retry1 + 1) (n1 + 1) rs2)
              else (None, n1 + 1, rs2))))"
  by pat_completeness auto
termination
proof (relation "measure (\<lambda>(sc, l, retry, n, rs). 33 - retry)", goal_cases)
  case (2 sc l retry n rs err x retry1 y n1 rs1 rs2)
  then show ?case using wait_peers_retry [of sc retry n rs None retry1 n1 rs1] by auto
qed auto

declare get_consensus.simps [simp del]

record commit_ctx =
  logIndex :: "64 word"
  logTerm :: "32 word"
  logRequestCode :: "32 word"

text \<open>
  The bookkeeping after consensus. The commit context is allocated last; with it the mutex stays
  locked. 16 is the size of the structure.
\<close>

definition raft_commit_done :: "raft_env \<Rightarrow> raft_log \<Rightarrow> raft_state \<Rightarrow> rc \<times> commit_ctx option \<times> raft_state" where
  "raft_commit_done env l rs =
     (let rs1 = rs\<lparr>opCounts := opCounts rs + 1\<rparr> in
      if log_index l = 0 then (None, None, rs1)
      else
        (let rs2 = rs1\<lparr>commitIndex := unat (log_index l), lastLogIndex := unat (log_index l),
                       commitIndexTerm := unat (log_term l), lastLogTerm := unat (log_term l),
                       lastApplied := (if log_requestCode l \<noteq> RAFT_NOOP then unat (log_index l) else lastApplied rs1),
                       cmd := ExecNone\<rparr> in
         case VmDirAllocateMemory (env_mem env) 16 of
           Some e \<Rightarrow> (Some e, None, rs2)
         | None \<Rightarrow> (None, Some \<lparr>logIndex = log_index l, logTerm = log_term l, logRequestCode = log_requestCode l\<rparr>, rs2)))"

text \<open>
  The callback: error, commit context, state, \<open>gLogEntry\<close> (which is cleared on every path) and
  the number of waits. \<open>ov\<close> is the quorum override.
\<close>

definition VmDirRaftPrepareCommit ::
  "raft_env \<Rightarrow> raft_sched \<Rightarrow> nat \<Rightarrow> raft_log \<Rightarrow> raft_state \<Rightarrow>
     rc \<times> commit_ctx option \<times> raft_state \<times> raft_log \<times> nat" where
  "VmDirRaftPrepareCommit env sc ov l rs =
     (case (if log_index l = 0 \<or> ov \<noteq> 0 \<or> clusterSize rs < 2 then (None, 0, rs) else get_consensus sc l 0 0 rs) of
        (Some e, n, rs1) \<Rightarrow> (Some e, None, rs1\<lparr>cmd := ExecNone\<rparr>, empty_log, n)
      | (None, n, rs1) \<Rightarrow>
          (case raft_commit_done env l rs1 of
             (Some e, ctx, rs2) \<Rightarrow> (Some e, ctx, rs2\<lparr>cmd := ExecNone\<rparr>, empty_log, n)
           | (None, ctx, rs2) \<Rightarrow> (None, ctx, rs2, empty_log, n)))"

text \<open>After the database has committed: unlocking; the state is not touched.\<close>

definition VmDirRaftPostCommit :: "commit_ctx option \<Rightarrow> raft_state \<Rightarrow> raft_state" where
  "VmDirRaftPostCommit ctx rs = rs"

definition VmDirRaftCommitFail :: "raft_env \<Rightarrow> commit_ctx option \<Rightarrow> raft_state \<Rightarrow> raft_state" where
  "VmDirRaftCommitFail env ctx rs =
     (case ctx of
        None \<Rightarrow> rs
      | Some _ \<Rightarrow> rs\<lparr>role := VDIR_RAFT_ROLE_FOLLOWER, lastPingRecvTime := env_time env, cmd := ExecNone\<rparr>)"

section \<open>What a commit has seen\<close>

lemma wait_peers_error:
  "wait_peers sc retry n rs = (Some e, retry', n', rs') \<Longrightarrow> \<not> may_continue sc n' rs'"
proof (induction sc retry n rs rule: wait_peers.induct)
  case (1 sc retry n rs)
  show ?case
    using 1(2) 1(1) [simplified]
    by (subst (asm) wait_peers.simps)
       (fastforce simp: may_continue_def split: if_splits prod.splits wait_rc.splits)
qed

lemma get_consensus_ok:
  "get_consensus sc l retry n rs = (None, n', rs') \<Longrightarrow>
     may_continue sc n' rs' \<and> of_nat (currentTerm rs') = log_term l \<and>
     clusterSize rs' < 2 * VmDirGetAppendEntriesConsensusCountInLock rs'"
proof (induction sc l retry n rs rule: get_consensus.induct)
  case (1 sc l retry n rs)
  show ?case
    using 1(2) 1(1) [simplified]
    by (subst (asm) get_consensus.simps) (fastforce simp: Let_def split: if_splits prod.splits option.splits)
qed

lemma get_consensus_error:
  "get_consensus sc l retry n rs = (Some e, n', rs') \<Longrightarrow>
     \<not> may_continue sc n' rs' \<or> of_nat (currentTerm rs') \<noteq> log_term l"
proof (induction sc l retry n rs rule: get_consensus.induct)
  case (1 sc l retry n rs)
  show ?case
    using 1(2) 1(1) [simplified] wait_peers_error [of sc retry n rs]
    by (subst (asm) get_consensus.simps)
       (fastforce simp: Let_def may_continue_def split: if_splits prod.splits option.splits)
qed

lemma get_consensus_waits:
  "get_consensus sc l retry n rs = (err, n', rs') \<Longrightarrow> retry \<le> 32 \<Longrightarrow> n' \<le> n + (33 - retry)"
proof (induction sc l retry n rs rule: get_consensus.induct)
  case (1 sc l retry n rs)
  obtain err1 retry1 n1 rs1 where w: "wait_peers sc retry n rs = (err1, retry1, n1, rs1)"
    by (metis prod_cases4)
  show ?case
    using 1(2,3) 1(1) [OF w [symmetric]] wait_peers_retry [OF w] w
    by (subst (asm) get_consensus.simps) (fastforce simp: Let_def split: if_splits option.splits)
qed

text \<open>
  A schedule that lets a log through: the server stays the leader of the log's term, after a
  wait half of the peer threads are idle, no wait fails, and from the \<open>k\<close>-th wait on a majority
  has replicated the log.
\<close>

definition leads :: "raft_log \<Rightarrow> raft_state \<Rightarrow> bool" where
  "leads l rs \<longleftrightarrow> role rs = VDIR_RAFT_ROLE_LEADER \<and> of_nat (currentTerm rs) = log_term l"

definition peers_idle :: "raft_state \<Rightarrow> bool" where
  "peers_idle rs \<longleftrightarrow> clusterSize rs div 2 \<le> VmDirPeersIdleInLock rs"

definition good_wait :: "raft_log \<Rightarrow> nat \<Rightarrow> nat \<Rightarrow> wait_rc \<times> raft_state \<Rightarrow> bool" where
  "good_wait l k n r \<longleftrightarrow> fst r \<noteq> WaitError \<and> leads l (snd r) \<and> peers_idle (snd r) \<and>
     (k \<le> n \<longrightarrow> clusterSize (snd r) div 2 + 1 \<le> VmDirGetAppendEntriesConsensusCountInLock (snd r))"

definition good_sched :: "raft_sched \<Rightarrow> raft_log \<Rightarrow> nat \<Rightarrow> bool" where
  "good_sched sc l k \<longleftrightarrow> (\<forall>n. \<not> sc_shutdown sc n) \<and> (\<forall>n rs. leads l rs \<longrightarrow> good_wait l k n (sc_wait sc n rs))"

lemma good_schedD:
  assumes "good_sched sc l k" and "leads l rs" and "sc_wait sc n rs = (r, rs')"
  shows "r \<noteq> WaitError" and "leads l rs'" and "peers_idle rs'" and "\<not> sc_shutdown sc n'"
    and "k \<le> n \<Longrightarrow> clusterSize rs' div 2 + 1 \<le> VmDirGetAppendEntriesConsensusCountInLock rs'"
proof -
  have "good_wait l k n (r, rs')"
    using assms unfolding good_sched_def by metis
  then show "r \<noteq> WaitError" and "leads l rs'" and "peers_idle rs'"
    and "k \<le> n \<Longrightarrow> clusterSize rs' div 2 + 1 \<le> VmDirGetAppendEntriesConsensusCountInLock rs'"
    by (simp_all add: good_wait_def)
  show "\<not> sc_shutdown sc n'" using assms(1) by (simp add: good_sched_def)
qed

lemma leads_send [simp]: "leads l (VmDirClearProxyLogReplicatedInLock (rs\<lparr>cmd := c\<rparr>)) = leads l rs"
  by (simp add: leads_def VmDirClearProxyLogReplicatedInLock_def)

lemma leads_may_continue: "good_sched sc l k \<Longrightarrow> leads l rs \<Longrightarrow> may_continue sc n rs"
  by (simp add: may_continue_def leads_def good_sched_def)

lemma wait_peers_idle:
  "good_sched sc l k \<Longrightarrow> leads l rs \<Longrightarrow> peers_idle rs \<Longrightarrow> wait_peers sc retry n rs = (None, retry, n, rs)"
  by (simp add: wait_peers.simps leads_may_continue peers_idle_def)

lemma wait_peers_live:
  assumes "good_sched sc l k" and "leads l rs" and "retry \<le> n" and "n = 0 \<or> peers_idle rs"
  obtains retry1 n1 rs1 where "wait_peers sc retry n rs = (None, retry1, n1, rs1)" and "leads l rs1"
    and "retry1 \<le> n1" and "n1 \<le> n + 1" and "0 < n \<Longrightarrow> n1 = n"
proof (cases "peers_idle rs")
  case True
  then show ?thesis using assms that by (simp add: wait_peers_idle)
next
  case False
  with assms have "n = 0" and "retry = 0" by auto
  obtain r rs1 where r: "sc_wait sc 0 rs = (r, rs1)" by fastforce
  note * = good_schedD(1-3) [OF assms(1,2) r]
  have "wait_peers sc 0 0 rs = (None, 1, 1, rs1)"
    using * r False assms(1,2) wait_peers_idle [OF assms(1) *(2,3), of 1 1]
    by (subst wait_peers.simps) (auto simp: leads_may_continue peers_idle_def split: wait_rc.splits)
  then show ?thesis using that * \<open>n = 0\<close> \<open>retry = 0\<close> by simp
qed

lemma get_consensus_live:
  assumes "good_sched sc l k" and "k \<le> 32"
  shows "leads l rs \<Longrightarrow> retry \<le> n \<Longrightarrow> n \<le> k \<Longrightarrow> n = 0 \<or> peers_idle rs \<Longrightarrow>
    \<exists>n' rs'. get_consensus sc l retry n rs = (None, n', rs') \<and> n' \<le> max k 1 + 1"
  using assms
proof (induction sc l retry n rs rule: get_consensus.induct)
  case (1 sc l retry n rs)
  obtain retry1 n1 rs1 where w: "wait_peers sc retry n rs = (None, retry1, n1, rs1)" "leads l rs1"
    "retry1 \<le> n1" "n1 \<le> n + 1" "0 < n \<Longrightarrow> n1 = n"
    using wait_peers_live [OF 1(6,2,3,5)] by blast
  define sent where "sent = VmDirClearProxyLogReplicatedInLock (rs1\<lparr>cmd := ExecAppendEntries\<rparr>)"
  obtain r rs2 where r: "sc_wait sc n1 sent = (r, rs2)" by fastforce
  have "leads l sent" using w(2) by (simp add: sent_def)
  note g = good_schedD [OF 1(6) this r]
  have more: "may_continue sc n1 rs1" "may_continue sc (n1 + 1) rs2" "of_nat (currentTerm rs2) = log_term l"
    using leads_may_continue [OF 1(6)] w(2) g(2) by (auto simp: leads_def)
  show ?case
  proof (cases "VmDirGetAppendEntriesConsensusCountInLock rs2 < clusterSize rs2 div 2 + 1")
    case True
    then have "n1 < k" using g(5) by linarith
    moreover have "\<not> 32 \<le> retry1" using \<open>n1 < k\<close> w(3) 1(7) by linarith
    ultimately have "get_consensus sc l retry n rs = get_consensus sc l (retry1 + 1) (n1 + 1) rs2"
      using w(1) more True r by (subst get_consensus.simps) (simp add: sent_def)
    moreover have "\<exists>n' rs'. get_consensus sc l (retry1 + 1) (n1 + 1) rs2 = (None, n', rs') \<and> n' \<le> max k 1 + 1"
      using 1(1) [OF w(1) [symmetric] refl refl refl, of rs2] more True r g(2,3) \<open>n1 < k\<close> \<open>\<not> 32 \<le> retry1\<close> w(3) 1(6,7)
      by (simp add: sent_def)
    ultimately show ?thesis by simp
  next
    case False
    then have "get_consensus sc l retry n rs = (None, n1 + 1, rs2)"
      using w(1) more r by (subst get_consensus.simps) (simp add: sent_def)
    then show ?thesis using w(4,5) 1(4) by (cases "n = 0") auto
  qed
qed

section \<open>Properties\<close>


text \<open>A leader of three whose peers answer in the first wait, or never do.\<close>

definition idle_peer :: "string \<Rightarrow> peer_proxy" where
  "idle_peer h = \<lparr>isDeleted = False, proxy_state = RPC_IDLE, raftPeerHostname = h, bLogReplicated = False, matchIndex = 0\<rparr>"

definition leader_of_three :: raft_state where
  "leader_of_three = lone_server\<lparr>role := VDIR_RAFT_ROLE_LEADER, clusterSize := 3, currentTerm := 2,
                                 proxies := [idle_peer ''b'', idle_peer ''c'']\<rparr>"

definition one_answers :: raft_sched where
  "one_answers =
     \<lparr>sc_wait = (\<lambda>n rs. (WaitOk, rs\<lparr>proxies := map (\<lambda>p. p\<lparr>bLogReplicated := raftPeerHostname p = ''b''\<rparr>) (proxies rs)\<rparr>)),
      sc_shutdown = (\<lambda>n. False)\<rparr>"

definition none_answers :: raft_sched where
  "none_answers = \<lparr>sc_wait = (\<lambda>n rs. (WaitTimedOut, rs)), sc_shutdown = (\<lambda>n. False)\<rparr>"

definition log_7_2 :: raft_log where
  "log_7_2 = empty_log\<lparr>log_index := 7, log_term := 2, log_requestCode := 0x68\<rparr>"


text \<open>
  C26. A commit is refused only when it must be: if the callback returns an error and memory
  was available, the server is no longer leader, is shutting down, or is in another term than
  the log; so the index of the refused log is not used again by this leader in its term.
\<close>
theorem prepare_commit_refused:
  assumes "VmDirRaftPrepareCommit env sc ov l rs = (Some e, ctx, rs', l', n)" and "env_mem env 16"
  shows "role rs' \<noteq> VDIR_RAFT_ROLE_LEADER \<or> sc_shutdown sc n \<or> of_nat (currentTerm rs') \<noteq> log_term l"
proof -
  have "VmDirAllocateMemory (env_mem env) 16 = None"
    using assms(2) by (simp add: VmDirAllocateMemory_def)
  then obtain rs1 where "get_consensus sc l 0 0 rs = (Some e, n, rs1)" and "rs' = rs1\<lparr>cmd := ExecNone\<rparr>"
    using assms
    by (auto simp: VmDirRaftPrepareCommit_def raft_commit_done_def Let_def split: prod.splits option.splits if_splits)
  then show ?thesis using get_consensus_error [of sc l 0 0 rs e n rs1] by (auto simp: may_continue_def)
qed

lemma prepare_commit_refused_witness:
  "case VmDirRaftPrepareCommit peers_env none_answers 0 log_7_2 leader_of_three of (err, ctx, rs', l', n) \<Rightarrow>
     err = Some LDAP_OPERATIONS_ERROR \<and> role rs' \<noteq> VDIR_RAFT_ROLE_LEADER \<and> n = 33"
proof -
  have "VmDirRaftPrepareCommit peers_env none_answers 0 log_7_2 leader_of_three =
     (Some LDAP_OPERATIONS_ERROR, None, leader_of_three\<lparr>role := VDIR_RAFT_ROLE_FOLLOWER\<rparr>, empty_log, 33)"
    by code_simp
  from prepare_commit_refused [OF this] this show ?thesis
    by (simp add: peers_env_def none_answers_def leader_of_three_def log_7_2_def)
qed

text \<open>
  C27. The callback returns after at most 33 waits, whatever the other threads do.
\<close>
theorem prepare_commit_waits:
  "snd (snd (snd (snd (VmDirRaftPrepareCommit env sc ov l rs)))) \<le> 33"
  using get_consensus_waits [of sc l 0 0 rs]
  by (fastforce simp: VmDirRaftPrepareCommit_def split: prod.splits option.splits)


definition one_answered :: raft_sched where
  "one_answered =
     \<lparr>sc_wait = (\<lambda>n rs. (WaitOk, leader_of_three\<lparr>proxies := [(idle_peer ''b'')\<lparr>bLogReplicated := 5 \<le> n\<rparr>, idle_peer ''c'']\<rparr>)),
      sc_shutdown = (\<lambda>n. False)\<rparr>"


text \<open>
  When the allocation of the commit context fails the callback has already moved the commit
  index, the last log and the last applied index; it then has the transaction aborted, and the
  server stays leader.
\<close>
lemma commit_ctx_failure:
  assumes "get_consensus sc l 0 0 rs = (None, n, rs1)" and "2 \<le> clusterSize rs" and "log_index l \<noteq> 0"
    and "\<not> env_mem env 16"
  shows "\<exists>rs'. VmDirRaftPrepareCommit env sc 0 l rs = (Some ERROR_NO_MEMORY, None, rs', empty_log, n) \<and>
           role rs' = VDIR_RAFT_ROLE_LEADER \<and> commitIndex rs' = unat (log_index l) \<and>
           lastLogIndex rs' = unat (log_index l)"
  using assms get_consensus_ok [OF assms(1)]
  by (simp add: VmDirRaftPrepareCommit_def raft_commit_done_def VmDirAllocateMemory_def Let_def may_continue_def)

end
