(* ===== verification/Mdb_Txn.thy ===== *)
theory Mdb_Txn
  imports Raft_Log_Codec
begin

text \<open>
  Transactions of a thread: \<open>lwraft/server/mdb-store/txn.c\<close>, the start of a user transaction in
  \<open>lwraft/server/middle-layer/txn.c\<close> and the thread's context of \<open>lwraft/common/threadcontext.c\<close>.
  A thread has one context for the main database and one for a log database; a user transaction
  is a parent transaction with a child per operation. Transaction handles are numbers. The calls
  the code makes to the database library are recorded in \<open>tw_calls\<close> with their results, which
  the environment \<open>txn_env\<close> supplies as a function of the calls made before; \<open>te_main\<close> says
  which backend is a main database. The outer \<open>None\<close> of a result is a failed assertion.
\<close>

section \<open>Contexts\<close>

datatype txn_state = TXN_NONE | TXN_PENDING_START | TXN_USER_IN_PROGRESS | TXN_OP_IN_PROGRESS

datatype txn_mode = VDIR_BACKEND_TXN_READ | VDIR_BACKEND_TXN_WRITE

record txn_context =
  txnState :: txn_state
  txnBE :: "nat option"
  pszTxnId :: "string option"
  pTxnParent :: "nat option"
  pTxnChild :: "nat option"
  txnStartTime :: nat
  txnMode :: txn_mode

record thread_txn =
  mainDbTxnCtx :: txn_context
  logDbTxnCtx :: txn_context
  chgLogs :: deque

record be_ctx =
  pBE :: nat
  be_pszTxnId :: "string option"
  pBEPrivate :: "nat option"

datatype mdb_call =
    MdbBegin "nat option" bool "vmdir_error + nat"
  | MdbCommit nat rc
  | MdbAbort nat

record txn_world =
  tw_ctx :: "thread_txn option"
  tw_heap :: "raft_log deque_heap"
  tw_calls :: "mdb_call list"

record txn_env =
  te_main :: "nat \<Rightarrow> bool"
  te_begin :: "mdb_call list \<Rightarrow> nat option \<Rightarrow> bool \<Rightarrow> vmdir_error + nat"
  te_commit :: "mdb_call list \<Rightarrow> nat \<Rightarrow> rc"
  te_same :: "string \<Rightarrow> string \<Rightarrow> bool"
  te_now :: nat
  te_maxtime :: nat
  te_alloc :: rc

text \<open>A context as \<open>calloc\<close> leaves it.\<close>

definition empty_txn :: txn_context where
  "empty_txn = \<lparr>txnState = TXN_NONE, txnBE = None, pszTxnId = None, pTxnParent = None,
                pTxnChild = None, txnStartTime = 0, txnMode = VDIR_BACKEND_TXN_READ\<rparr>"

definition empty_thread_txn :: thread_txn where
  "empty_thread_txn = \<lparr>mainDbTxnCtx = empty_txn, logDbTxnCtx = empty_txn,
                       chgLogs = \<lparr>pHead = None, pTail = None, iSize = 0\<rparr>\<rparr>"

definition VmDirAllocAndSetThrTxnCtx :: "txn_env \<Rightarrow> 'w txn_world_scheme \<Rightarrow> rc \<times> 'w txn_world_scheme" where
  "VmDirAllocAndSetThrTxnCtx te w =
     (case tw_ctx w of
        Some _ \<Rightarrow> (None, w)
      | None \<Rightarrow> (case te_alloc te of
                   Some e \<Rightarrow> (Some e, w)
                 | None \<Rightarrow> (None, w\<lparr>tw_ctx := Some empty_thread_txn\<rparr>)))"

text \<open>Freeing the change logs collected so far.\<close>

partial_function (option) free_logs_loop ::
  "raft_log deque_heap \<Rightarrow> deque option \<Rightarrow> raft_log list \<Rightarrow>
     ((raft_log deque_heap \<times> deque option) \<times> raft_log list) option" where
  "free_logs_loop h d freed =
     (if dequeIsEmpty d then Some ((h, d), freed)
      else do {
        (_, pChgLog, h', d') \<leftarrow> dequePopLeft True h d;
        free_logs_loop h' d' (case pChgLog of None \<Rightarrow> freed | Some x \<Rightarrow> freed @ [x])
      })"

definition VmDirFreeTxnLogs :: "thread_txn \<times> raft_log deque_heap \<Rightarrow> (thread_txn \<times> raft_log deque_heap) option" where
  "VmDirFreeTxnLogs th =
     (case th of (t, h) \<Rightarrow>
        if iSize (chgLogs t) > 0 then
          do {
            ((h', d'), _) \<leftarrow> free_logs_loop h (Some (chgLogs t)) [];
            q \<leftarrow> d';
            Some (t\<lparr>chgLogs := q\<rparr>, h')
          }
        else Some (t, h))"

section \<open>Beginning a transaction\<close>

text \<open>
  The flag for the database library, \<open>True\<close> for a read-only transaction, from the requested
  mode and the outstanding transaction.
\<close>

definition main_txn_flag :: "txn_mode \<Rightarrow> txn_context \<Rightarrow> vmdir_error + bool" where
  "main_txn_flag mode c =
     (if txnState c = TXN_NONE then Inr (mode = VDIR_BACKEND_TXN_READ)
      else if txnMode c = VDIR_BACKEND_TXN_WRITE then Inr False
      else if mode = VDIR_BACKEND_TXN_WRITE then
        (if txnState c = TXN_PENDING_START then Inr False else Inl VMDIR_ERROR_UNWILLING_TO_PERFORM)
      else if txnState c = TXN_PENDING_START \<or> txnState c = TXN_USER_IN_PROGRESS then Inr False
      else Inr True)"

definition log_txn_flag :: "txn_mode \<Rightarrow> txn_context \<Rightarrow> vmdir_error + bool" where
  "log_txn_flag mode c =
     (if txnState c = TXN_NONE then Inr (mode = VDIR_BACKEND_TXN_READ)
      else if txnMode c = VDIR_BACKEND_TXN_WRITE then Inr False
      else if mode = VDIR_BACKEND_TXN_WRITE then Inl VMDIR_ERROR_UNWILLING_TO_PERFORM
      else Inr True)"

text \<open>
  One call to begin a transaction of the library: the calls so far with this one, and its
  result.
\<close>

definition mdb_begin ::
  "txn_env \<Rightarrow> mdb_call list \<Rightarrow> nat option \<Rightarrow> bool \<Rightarrow> (vmdir_error + nat) \<times> mdb_call list" where
  "mdb_begin te calls parent rdonly =
     (let r = te_begin te calls parent rdonly in (r, calls @ [MdbBegin parent rdonly r]))"

text \<open>
  The stages on a main and on a log database: error, whether a transaction was begun, the
  handle for the caller, context and calls.
\<close>

type_synonym begin_result = "rc \<times> bool \<times> nat option \<times> txn_context \<times> mdb_call list"

definition txn_id_match :: "txn_env \<Rightarrow> string option \<Rightarrow> txn_context \<Rightarrow> bool" where
  "txn_id_match te txid c =
     (case (txid, pszTxnId c) of (Some a, Some b) \<Rightarrow> te_same te a b | _ \<Rightarrow> False)"

definition begin_pending :: "txn_env \<Rightarrow> be_ctx \<Rightarrow> bool \<Rightarrow> txn_context \<Rightarrow> mdb_call list \<Rightarrow> begin_result option" where
  "begin_pending te be flag c calls =
     (if txnBE c \<noteq> None \<or> pTxnParent c \<noteq> None \<or> pTxnChild c \<noteq> None then None
      else
        (let c1 = c\<lparr>txnBE := Some (pBE be)\<rparr> in
         if \<not> txn_id_match te (be_pszTxnId be) c
         then Some (Some VMDIR_ERROR_UNWILLING_TO_PERFORM, False, None, c1, calls)
         else case mdb_begin te calls None flag of
                (Inl e, calls1) \<Rightarrow> Some (Some e, False, None, c1, calls1)
              | (Inr parent, calls1) \<Rightarrow>
                  (case mdb_begin te calls1 (Some parent) flag of
                     (Inl e, calls2) \<Rightarrow> Some (Some e, True, None, c1, calls2)
                   | (Inr child, calls2) \<Rightarrow>
                       Some (None, True, Some child,
                             c1\<lparr>txnState := TXN_USER_IN_PROGRESS, pTxnParent := Some parent,
                                pTxnChild := Some child, txnMode := VDIR_BACKEND_TXN_WRITE\<rparr>, calls2))))"

definition begin_user ::
  "txn_env \<Rightarrow> be_ctx \<Rightarrow> txn_mode \<Rightarrow> bool \<Rightarrow> txn_context \<Rightarrow> mdb_call list \<Rightarrow> begin_result option" where
  "begin_user te be mode flag c calls =
     (if pTxnParent c = None \<or> pszTxnId c = None then None
      else if txnMode c = VDIR_BACKEND_TXN_READ \<and> mode = VDIR_BACKEND_TXN_WRITE
      then Some (Some VMDIR_ERROR_INVALID_PARAMETER, False, None, c, calls)
      else if pTxnChild c \<noteq> None then Some (None, False, pTxnChild c, c, calls)
      else if be_pszTxnId be \<noteq> None \<and> \<not> txn_id_match te (be_pszTxnId be) c
      then Some (Some VMDIR_ERROR_UNWILLING_TO_PERFORM, False, None, c, calls)
      else if wrap64 (te_now te + 2 ^ 64 - txnStartTime c) > te_maxtime te
      then Some (Some VMDIR_ERROR_UNWILLING_TO_PERFORM, False, None, c, calls)
      else case mdb_begin te calls (pTxnParent c) flag of
             (Inl e, calls1) \<Rightarrow> Some (Some e, False, None, c, calls1)
           | (Inr child, calls1) \<Rightarrow> Some (None, True, Some child, c\<lparr>pTxnChild := Some child\<rparr>, calls1))"

definition begin_none ::
  "txn_env \<Rightarrow> be_ctx \<Rightarrow> txn_mode \<Rightarrow> bool \<Rightarrow> txn_context \<Rightarrow> mdb_call list \<Rightarrow> begin_result option" where
  "begin_none te be mode flag c calls =
     (if pTxnParent c \<noteq> None then None
      else if be_pszTxnId be \<noteq> None then Some (Some VMDIR_ERROR_UNWILLING_TO_PERFORM, False, None, c, calls)
      else case mdb_begin te calls None flag of
             (Inl e, calls1) \<Rightarrow> Some (Some e, False, None, c, calls1)
           | (Inr parent, calls1) \<Rightarrow>
               Some (None, True, Some parent,
                     c\<lparr>txnBE := Some (pBE be), txnState := TXN_OP_IN_PROGRESS,
                       pTxnParent := Some parent, txnMode := mode\<rparr>, calls1))"

definition begin_op :: "txn_mode \<Rightarrow> txn_context \<Rightarrow> mdb_call list \<Rightarrow> begin_result option" where
  "begin_op mode c calls =
     (if pTxnChild c \<noteq> None \<or> pTxnParent c = None then None
      else if txnMode c = VDIR_BACKEND_TXN_READ \<and> mode = VDIR_BACKEND_TXN_WRITE
      then Some (Some VMDIR_ERROR_INVALID_PARAMETER, False, None, c, calls)
      else Some (None, False, pTxnParent c, c, calls))"

definition begin_main ::
  "txn_env \<Rightarrow> be_ctx \<Rightarrow> txn_mode \<Rightarrow> txn_context \<Rightarrow> mdb_call list \<Rightarrow> begin_result option" where
  "begin_main te be mode c calls =
     (case main_txn_flag mode c of
        Inl e \<Rightarrow> Some (Some e, False, None, c, calls)
      | Inr flag \<Rightarrow>
          (case txnState c of
             TXN_PENDING_START \<Rightarrow> begin_pending te be flag c calls
           | TXN_USER_IN_PROGRESS \<Rightarrow> begin_user te be mode flag c calls
           | TXN_NONE \<Rightarrow> begin_none te be mode flag c calls
           | TXN_OP_IN_PROGRESS \<Rightarrow> begin_op mode c calls))"

definition begin_log ::
  "txn_env \<Rightarrow> be_ctx \<Rightarrow> txn_mode \<Rightarrow> txn_context \<Rightarrow> mdb_call list \<Rightarrow> begin_result option" where
  "begin_log te be mode c calls =
     (case log_txn_flag mode c of
        Inl e \<Rightarrow> Some (Some e, False, None, c, calls)
      | Inr flag \<Rightarrow>
          (if txnBE c \<noteq> None \<and> txnBE c \<noteq> Some (pBE be) then None
           else case txnState c of
                  TXN_NONE \<Rightarrow>
                    (case mdb_begin te calls None flag of
                       (Inl e, calls1) \<Rightarrow> Some (Some e, False, None, c, calls1)
                     | (Inr parent, calls1) \<Rightarrow>
                         Some (None, True, Some parent,
                               c\<lparr>txnBE := Some (pBE be), pTxnParent := Some parent, txnMode := mode,
                                 txnState := TXN_OP_IN_PROGRESS\<rparr>, calls1))
                | TXN_OP_IN_PROGRESS \<Rightarrow>
                    (if txnBE c = None \<or> pTxnParent c = None then None
                     else Some (None, False, pTxnParent c, c, calls))
                | _ \<Rightarrow> Some (Some LDAP_OPERATIONS_ERROR, False, None, c, calls)))"

text \<open>The error path: abort the outstanding transaction and clear the context.\<close>

definition abort_call :: "nat option \<Rightarrow> mdb_call list \<Rightarrow> mdb_call list" where
  "abort_call handle calls = (case handle of None \<Rightarrow> calls | Some n \<Rightarrow> calls @ [MdbAbort n])"

definition begin_clear :: "txn_context \<Rightarrow> txn_context" where
  "begin_clear c = c\<lparr>txnState := TXN_NONE, pTxnParent := None, pTxnChild := None, txnBE := None, pszTxnId := None\<rparr>"

definition set_ctx :: "bool \<Rightarrow> txn_context \<Rightarrow> thread_txn \<Rightarrow> thread_txn" where
  "set_ctx main c t = (if main then t\<lparr>mainDbTxnCtx := c\<rparr> else t\<lparr>logDbTxnCtx := c\<rparr>)"

definition VmDirMDBTxnBegin ::
  "txn_env \<Rightarrow> be_ctx \<Rightarrow> txn_mode \<Rightarrow> 'w txn_world_scheme \<Rightarrow> (rc \<times> bool \<times> be_ctx \<times> 'w txn_world_scheme) option" where
  "VmDirMDBTxnBegin te be mode w =
     (case VmDirAllocAndSetThrTxnCtx te w of
        (Some e, w1) \<Rightarrow> Some (Some e, False, be, w1)
      | (None, w1) \<Rightarrow>
          do {
            t \<leftarrow> tw_ctx w1;
            let main = te_main te (pBE be);
            (err, bNewTxn, handle, c, calls) \<leftarrow>
              (if main then begin_main te be mode (mainDbTxnCtx t) (tw_calls w1)
               else begin_log te be mode (logDbTxnCtx t) (tw_calls w1));
            (case err of
               None \<Rightarrow>
                 Some (None, bNewTxn, be\<lparr>pBEPrivate := handle\<rparr>,
                       w1\<lparr>tw_ctx := Some (set_ctx main c t), tw_calls := calls\<rparr>)
             | Some e \<Rightarrow>
                 do {
                   (t', h') \<leftarrow> VmDirFreeTxnLogs (t, tw_heap w1);
                   Some (Some e, False, be\<lparr>pBEPrivate := None\<rparr>,
                         w1\<lparr>tw_ctx := Some (set_ctx main (begin_clear c) t'), tw_heap := h',
                            tw_calls := abort_call (pTxnParent c) calls\<rparr>)
                 })
          })"

section \<open>Aborting\<close>

definition end_op :: "txn_context \<Rightarrow> txn_context" where
  "end_op c = c\<lparr>pTxnParent := None, pTxnChild := None, txnState := TXN_NONE\<rparr>"

definition VmDirMDBTxnAbort ::
  "txn_env \<Rightarrow> be_ctx \<Rightarrow> 'w txn_world_scheme \<Rightarrow> (be_ctx \<times> 'w txn_world_scheme) option" where
  "VmDirMDBTxnAbort te be w =
     do {
       t \<leftarrow> tw_ctx w;
       if te_main te (pBE be) then
         (let c = mainDbTxnCtx t in
          if txnState c = TXN_NONE then Some (be, w)
          else if txnBE c = None then None
          else if txnBE c \<noteq> Some (pBE be) then Some (be, w)
          else
            do {
              (be', c', calls) \<leftarrow>
                (case txnState c of
                   TXN_USER_IN_PROGRESS \<Rightarrow>
                     (if pTxnChild c \<noteq> None
                      then Some (be\<lparr>pBEPrivate := None\<rparr>, c\<lparr>pTxnChild := None\<rparr>, abort_call (pTxnChild c) (tw_calls w))
                      else if pTxnParent c \<noteq> None
                      then Some (be\<lparr>pBEPrivate := None\<rparr>, end_op c, abort_call (pTxnParent c) (tw_calls w))
                      else Some (be, c, tw_calls w))
                 | TXN_OP_IN_PROGRESS \<Rightarrow>
                     (if pTxnChild c \<noteq> None \<or> pTxnParent c = None then None
                      else Some (be\<lparr>pBEPrivate := None\<rparr>, end_op c, abort_call (pTxnParent c) (tw_calls w)))
                 | _ \<Rightarrow> Some (be, c, tw_calls w));
              (t', h') \<leftarrow> VmDirFreeTxnLogs (t, tw_heap w);
              Some (be', w\<lparr>tw_ctx := Some (t'\<lparr>mainDbTxnCtx := c'\<rparr>), tw_heap := h', tw_calls := calls\<rparr>)
            })
       else
         (let c = logDbTxnCtx t in
          if txnBE c = None \<or> pTxnChild c \<noteq> None \<or> pTxnParent c = None \<or> txnState c \<noteq> TXN_OP_IN_PROGRESS then None
          else Some (be\<lparr>pBEPrivate := None\<rparr>,
                     w\<lparr>tw_ctx := Some (t\<lparr>logDbTxnCtx := c\<lparr>pTxnParent := None, txnState := TXN_NONE\<rparr>\<rparr>),
                        tw_calls := abort_call (pTxnParent c) (tw_calls w)\<rparr>))
     }"

definition VmDirMDBTxnAbortAll :: "'w txn_world_scheme \<Rightarrow> 'w txn_world_scheme option" where
  "VmDirMDBTxnAbortAll w =
     do {
       t \<leftarrow> tw_ctx w;
       (t', h') \<leftarrow> VmDirFreeTxnLogs (t, tw_heap w);
       let clear = (\<lambda>c. if pTxnParent c \<noteq> None then (end_op c)\<lparr>txnBE := None\<rparr> else c);
       let mc = mainDbTxnCtx t;
       let lc = logDbTxnCtx t;
       Some (w\<lparr>tw_ctx := Some (t'\<lparr>mainDbTxnCtx := (clear mc)\<lparr>pszTxnId := None\<rparr>, logDbTxnCtx := clear lc\<rparr>),
               tw_heap := h', tw_calls := abort_call (pTxnParent lc) (abort_call (pTxnParent mc) (tw_calls w))\<rparr>)
     }"

section \<open>User transactions\<close>

text \<open>
  The start of a user transaction. \<open>denied\<close> is an anonymous or failed bind and \<open>txid\<close> the
  generated transaction id or the error of generating it. On an error everything outstanding on
  the thread is aborted.
\<close>

definition VmDirMLTxnStart ::
  "txn_env \<Rightarrow> bool \<Rightarrow> vmdir_error + string \<Rightarrow> 'w txn_world_scheme \<Rightarrow> (rc \<times> 'w txn_world_scheme) option" where
  "VmDirMLTxnStart te denied txid w =
     (let fail = (\<lambda>e w. map_option (\<lambda>w'. (Some e, w')) (VmDirMDBTxnAbortAll w)) in
      if denied then fail LDAP_INSUFFICIENT_ACCESS w
      else case VmDirAllocAndSetThrTxnCtx te w of
             (Some e, w1) \<Rightarrow> fail e w1
           | (None, w1) \<Rightarrow>
               do {
                 t \<leftarrow> tw_ctx w1;
                 let c = mainDbTxnCtx t;
                 if txnState c \<noteq> TXN_NONE then fail VMDIR_ERROR_UNWILLING_TO_PERFORM w1
                 else
                   (let c1 = c\<lparr>pszTxnId := None, txnBE := None, pTxnParent := None, pTxnChild := None\<rparr> in
                    case txid of
                      Inl e \<Rightarrow> fail e (w1\<lparr>tw_ctx := Some (t\<lparr>mainDbTxnCtx := c1\<rparr>)\<rparr>)
                    | Inr s \<Rightarrow>
                        Some (None, w1\<lparr>tw_ctx := Some (t\<lparr>mainDbTxnCtx :=
                                c1\<lparr>pszTxnId := Some s, txnState := TXN_PENDING_START, txnStartTime := te_now te\<rparr>\<rparr>)\<rparr>))
               })"

definition LDAP_REQ_SEARCH :: nat where
  "LDAP_REQ_SEARCH = 0x63"

definition VmDirValidTxnState :: "txn_env \<Rightarrow> be_ctx \<Rightarrow> nat \<Rightarrow> 'w txn_world_scheme \<Rightarrow> bool option" where
  "VmDirValidTxnState te be reqCode w =
     (if reqCode \<noteq> LDAP_REQ_SEARCH \<and> \<not> te_main te (pBE be) then Some False
      else case tw_ctx w of
             None \<Rightarrow> Some True
           | Some t \<Rightarrow>
               (let c = mainDbTxnCtx t in
                if txnState c \<noteq> TXN_USER_IN_PROGRESS then Some True
                else if pszTxnId c = None then None
                else Some (txn_id_match te (be_pszTxnId be) c)))"

definition VmDirIsInUserTxn :: "'w txn_world_scheme \<Rightarrow> bool" where
  "VmDirIsInUserTxn w =
     (case tw_ctx w of
        None \<Rightarrow> False
      | Some t \<Rightarrow> txnState (mainDbTxnCtx t) \<in> {TXN_USER_IN_PROGRESS, TXN_PENDING_START})"


section \<open>Open transactions\<close>

text \<open>
  The transactions that are open after a sequence of calls, each with its parent and whether it
  is read-only. Ending a transaction ends its children; a commit ends it whatever it returns.
\<close>

fun open_step :: "(nat \<times> nat option \<times> bool) set \<Rightarrow> mdb_call \<Rightarrow> (nat \<times> nat option \<times> bool) set" where
  "open_step S (MdbBegin p rd (Inr n)) = insert (n, p, rd) S"
| "open_step S (MdbBegin p rd (Inl e)) = S"
| "open_step S (MdbCommit n r) = {(k, p, rd) \<in> S. k \<noteq> n \<and> p \<noteq> Some n}"
| "open_step S (MdbAbort n) = {(k, p, rd) \<in> S. k \<noteq> n \<and> p \<noteq> Some n}"

definition outstanding :: "mdb_call list \<Rightarrow> (nat \<times> nat option \<times> bool) set" where
  "outstanding calls = foldl open_step {} calls"

lemma outstanding_simps [simp]:
  "outstanding [] = {}" "outstanding (calls @ xs) = foldl open_step (outstanding calls) xs"
  by (simp_all add: outstanding_def)

text \<open>What a context says is open.\<close>

definition ctx_open :: "txn_context \<Rightarrow> (nat \<times> nat option \<times> bool) set" where
  "ctx_open c =
     (case pTxnParent c of
        None \<Rightarrow> {}
      | Some p \<Rightarrow> insert (p, None, txnMode c = VDIR_BACKEND_TXN_READ)
                   (case pTxnChild c of
                      None \<Rightarrow> {}
                    | Some k \<Rightarrow> {(k, Some p, txnMode c = VDIR_BACKEND_TXN_READ)}))"

definition main_ok :: "txn_context \<Rightarrow> bool" where
  "main_ok c =
     ((case txnState c of
         TXN_NONE \<Rightarrow> pTxnParent c = None \<and> pTxnChild c = None
       | TXN_PENDING_START \<Rightarrow> pTxnParent c = None \<and> pTxnChild c = None \<and> txnBE c = None
       | TXN_USER_IN_PROGRESS \<Rightarrow> pTxnParent c \<noteq> None \<and> txnBE c \<noteq> None \<and> pszTxnId c \<noteq> None \<and>
                                  txnMode c = VDIR_BACKEND_TXN_WRITE
       | TXN_OP_IN_PROGRESS \<Rightarrow> pTxnParent c \<noteq> None \<and> pTxnChild c = None \<and> txnBE c \<noteq> None) \<and>
      (pTxnParent c = pTxnChild c \<longrightarrow> pTxnChild c = None))"

definition log_ok :: "txn_context \<Rightarrow> bool" where
  "log_ok c =
     (pTxnChild c = None \<and>
      (case txnState c of
         TXN_NONE \<Rightarrow> pTxnParent c = None
       | TXN_OP_IN_PROGRESS \<Rightarrow> pTxnParent c \<noteq> None \<and> txnBE c \<noteq> None
       | _ \<Rightarrow> False))"

text \<open>
  What the library promises: a handle it returns is not one of an open transaction. The second
  condition, that a child of an open transaction can be begun, is not promised; it marks where
  the code relies on it.
\<close>

definition fresh_handles :: "txn_env \<Rightarrow> bool" where
  "fresh_handles te \<longleftrightarrow>
     (\<forall>calls p rd n. te_begin te calls p rd = Inr n \<longrightarrow> (\<forall>q rd'. (n, q, rd') \<notin> outstanding calls))"

definition nested_begins :: "txn_env \<Rightarrow> bool" where
  "nested_begins te \<longleftrightarrow> (\<forall>calls p rd. \<exists>n. te_begin te calls (Some p) rd = Inr n)"

text \<open>
  The open transactions besides those of a context: they contain the parents of their children
  and none of the context's handles.
\<close>

definition closed :: "(nat \<times> nat option \<times> bool) set \<Rightarrow> bool" where
  "closed R \<longleftrightarrow> (\<forall>k p rd. (k, Some p, rd) \<in> R \<longrightarrow> (\<exists>q rd'. (p, q, rd') \<in> R))"

definition apart :: "(nat \<times> nat option \<times> bool) set \<Rightarrow> txn_context \<Rightarrow> bool" where
  "apart R c \<longleftrightarrow>
     closed R \<and> (\<forall>k p rd. (k, p, rd) \<in> R \<longrightarrow> pTxnParent c \<noteq> Some k \<and> pTxnChild c \<noteq> Some k)"

lemma fresh_handlesD:
  "fresh_handles te \<Longrightarrow> te_begin te calls p rd = Inr n \<Longrightarrow> outstanding calls = S \<Longrightarrow> (n, q, rd') \<notin> S"
  unfolding fresh_handles_def by blast

definition begin_good ::
  "(txn_context \<Rightarrow> bool) \<Rightarrow> (nat \<times> nat option \<times> bool) set \<Rightarrow> txn_mode \<Rightarrow> begin_result \<Rightarrow> bool" where
  "begin_good ok R mode r =
     (case r of (err, new, handle, c, calls) \<Rightarrow>
        if err = None
        then ok c \<and> outstanding calls = ctx_open c \<union> R \<and> apart R c \<and>
             (\<exists>n p rd. handle = Some n \<and> (n, p, rd) \<in> ctx_open c \<and> (mode = VDIR_BACKEND_TXN_WRITE \<longrightarrow> \<not> rd))
        else outstanding (abort_call (pTxnParent c) calls) = R)"

text \<open>The handles of a context are its own.\<close>

definition ctx_ok :: "txn_context \<Rightarrow> bool" where
  "ctx_ok c \<longleftrightarrow> (pTxnParent c = None \<longrightarrow> pTxnChild c = None) \<and> (pTxnParent c = pTxnChild c \<longrightarrow> pTxnChild c = None)"

lemma end_parent:
  assumes "apart R c" and "ctx_ok c" and "pTxnParent c = Some p"
  shows "{(k, q, rd) \<in> ctx_open c \<union> R. k \<noteq> p \<and> q \<noteq> Some p} = R"
  using assms by (fastforce simp: apart_def closed_def ctx_ok_def ctx_open_def split: option.splits)

lemma end_child:
  assumes "apart R c" and "ctx_ok c" and "pTxnChild c = Some k"
  shows "{(n, q, rd) \<in> ctx_open c \<union> R. n \<noteq> k \<and> q \<noteq> Some k} = ctx_open (c\<lparr>pTxnChild := None\<rparr>) \<union> R"
  using assms by (fastforce simp: apart_def closed_def ctx_ok_def ctx_open_def split: option.splits)

lemma abort_parent:
  assumes "apart R c" and "ctx_ok c" and "outstanding calls = ctx_open c \<union> R"
  shows "outstanding (abort_call (pTxnParent c) calls) = R"
  using assms end_parent [OF assms(1,2)]
  by (cases "pTxnParent c") (auto simp: abort_call_def ctx_open_def)

lemma begin_good_err:
  assumes "apart R c" and "ctx_ok c" and "outstanding calls = ctx_open c \<union> R"
  shows "begin_good ok R mode (Some e, new, handle, c, calls)"
  using abort_parent [OF assms] by (simp add: begin_good_def)

lemma begin_good_keep:
  assumes "apart R c" and "outstanding calls = ctx_open c \<union> R" 
    and "(n, p, rd) \<in> ctx_open c" and "mode = VDIR_BACKEND_TXN_WRITE \<longrightarrow> \<not> rd" and "ok c"
  shows "begin_good ok R mode (None, new, Some n, c, calls)"
  using assms by (auto simp: begin_good_def)

lemma begin_good_top:
  assumes "fresh_handles te" and "te_begin te calls None rd = Inr n" and "outstanding calls = R"
    and "closed R"
    and "pTxnParent c = Some n" and "pTxnChild c = None" and "rd \<longleftrightarrow> txnMode c = VDIR_BACKEND_TXN_READ"
    and "mode = VDIR_BACKEND_TXN_WRITE \<longrightarrow> \<not> rd" and "ok c"
  shows "begin_good ok R mode (None, new, Some n, c, calls @ [MdbBegin None rd (Inr n)])"
  using assms(3-) fresh_handlesD [OF assms(1-3)]
  by (auto simp: begin_good_def apart_def ctx_open_def)

lemma begin_good_child:
  assumes "fresh_handles te" and "te_begin te calls (Some p) False = Inr n"
    and "outstanding calls = insert (p, None, False) R" and "closed R" and "\<forall>q rd. (p, q, rd) \<notin> R"
    and "pTxnParent c = Some p" and "pTxnChild c = Some n" and "txnMode c = VDIR_BACKEND_TXN_WRITE" and "ok c"
  shows "begin_good ok R mode (None, new, Some n, c, calls @ [MdbBegin (Some p) False (Inr n)])"
  using assms(3-) fresh_handlesD [OF assms(1-3)]
  by (auto simp: begin_good_def apart_def ctx_open_def)

lemma main_ok_ctx_ok: "main_ok c \<Longrightarrow> ctx_ok c"
  by (auto simp: main_ok_def ctx_ok_def split: txn_state.splits)

definition begin_failed :: "mdb_call list \<Rightarrow> txn_context \<Rightarrow> begin_result \<Rightarrow> bool" where
  "begin_failed calls c r \<longleftrightarrow> (\<exists>e new handle calls'. r = (Some e, new, handle, c, calls') \<and> outstanding calls' = outstanding calls)"

lemma begin_failedI: "outstanding calls' = outstanding calls \<Longrightarrow> begin_failed calls c (Some e, new, handle, c, calls')"
  by (simp add: begin_failed_def)

lemma begin_failed_good:
  assumes "begin_failed calls c r" and "apart R c" and "ctx_ok c" and "outstanding calls = ctx_open c \<union> R"
  shows "begin_good ok R mode r"
  using assms begin_good_err [OF assms(2,3)] by (auto simp: begin_failed_def)

lemma begin_none_cases:
  assumes "begin_none te be mode flag c calls = Some r"
  obtains "begin_failed calls c r"
  | n where "te_begin te calls None flag = Inr n"
      and "r = (None, True, Some n, c\<lparr>txnBE := Some (pBE be), txnState := TXN_OP_IN_PROGRESS,
                 pTxnParent := Some n, txnMode := mode\<rparr>, calls @ [MdbBegin None flag (Inr n)])"
  using assms by (auto simp: begin_none_def begin_failedI mdb_begin_def Let_def split: if_splits sum.splits)

lemma begin_pending_cases:
  assumes "begin_pending te be flag c calls = Some r" and "nested_begins te"
  obtains "begin_failed calls (c\<lparr>txnBE := Some (pBE be)\<rparr>) r"
  | n k where "pszTxnId c \<noteq> None" and "te_begin te calls None flag = Inr n"
      and "te_begin te (calls @ [MdbBegin None flag (Inr n)]) (Some n) flag = Inr k"
      and "r = (None, True, Some k, c\<lparr>txnBE := Some (pBE be), txnState := TXN_USER_IN_PROGRESS,
                 pTxnParent := Some n, pTxnChild := Some k, txnMode := VDIR_BACKEND_TXN_WRITE\<rparr>,
               (calls @ [MdbBegin None flag (Inr n)]) @ [MdbBegin (Some n) flag (Inr k)])"
proof (cases "te_begin te calls None flag")
  case (Inl e)
  then show ?thesis
    using assms(1) that(1) by (auto simp: begin_pending_def begin_failedI mdb_begin_def Let_def split: if_splits)
next
  case (Inr n)
  obtain k where "te_begin te (calls @ [MdbBegin None flag (Inr n)]) (Some n) flag = Inr k"
    using assms(2) unfolding nested_begins_def by blast
  then show ?thesis
    using assms(1) that Inr by (auto simp: txn_id_match_def begin_pending_def begin_failedI mdb_begin_def Let_def split: if_splits option.splits)
qed

lemma begin_user_cases:
  assumes "begin_user te be mode flag c calls = Some r"
  obtains "begin_failed calls c r"
  | n where "pTxnChild c = Some n" and "r = (None, False, Some n, c, calls)"
  | p n where "pTxnChild c = None" and "pTxnParent c = Some p" and "te_begin te calls (Some p) flag = Inr n"
      and "r = (None, True, Some n, c\<lparr>pTxnChild := Some n\<rparr>, calls @ [MdbBegin (Some p) flag (Inr n)])"
  using assms by (fastforce simp: begin_user_def begin_failedI mdb_begin_def Let_def split: if_splits sum.splits)

lemma begin_op_cases:
  assumes "begin_op mode c calls = Some r"
  obtains "begin_failed calls c r"
  | n where "pTxnParent c = Some n" and "r = (None, False, Some n, c, calls)"
      and "mode = VDIR_BACKEND_TXN_WRITE \<Longrightarrow> txnMode c = VDIR_BACKEND_TXN_WRITE"
  using assms by (cases "txnMode c") (auto simp: begin_op_def begin_failedI split: if_splits)

text \<open>Every stage keeps the invariant or leaves only the transaction its error path aborts.\<close>

lemma begin_none_good:
  assumes "main_ok c" and "fresh_handles te" and "txnState c = TXN_NONE"
    and "outstanding calls = ctx_open c \<union> R" and "apart R c"
    and "begin_none te be mode (mode = VDIR_BACKEND_TXN_READ) c calls = Some r"
  shows "begin_good main_ok R mode r"
  using assms(6)
proof (cases rule: begin_none_cases)
  case 1
  then show ?thesis
    by (rule begin_failed_good [OF _ assms(5) main_ok_ctx_ok [OF assms(1)] assms(4)])
next
  case (2 n)
  have "outstanding calls = R" "closed R" "pTxnChild c = None"
    using assms by (auto simp: ctx_open_def main_ok_def apart_def)
  then show ?thesis
    unfolding 2(2) using 2(1) by (intro begin_good_top [OF assms(2)]) (auto simp: main_ok_def)
qed

lemma begin_pending_good:
  assumes "main_ok c" and "fresh_handles te" and "txnState c = TXN_PENDING_START" and "nested_begins te"
    and "outstanding calls = ctx_open c \<union> R" and "apart R c"
    and "begin_pending te be False c calls = Some r"
  shows "begin_good main_ok R mode r"
proof -
  have none: "pTxnParent c = None" "pTxnChild c = None"
    using assms by (auto simp: main_ok_def)
  have out: "outstanding calls = R" and R: "closed R"
    using assms none by (auto simp: ctx_open_def apart_def)
  from assms(7,4) show ?thesis
  proof (cases rule: begin_pending_cases)
    case 1
    show ?thesis
      by (rule begin_failed_good [OF 1]) (use none out assms(6) in \<open>auto simp: ctx_ok_def apart_def ctx_open_def\<close>)
  next
    case (2 n k)
    let ?calls = "calls @ [MdbBegin None False (Inr n)]"
    have o1: "outstanding ?calls = insert (n, None, False) R" "closed R" "\<forall>q rd. (n, q, rd) \<notin> R"
      using out R fresh_handlesD [OF assms(2) 2(2) out] by auto
    have "k \<noteq> n"
      using fresh_handlesD [OF assms(2) 2(3) o1(1), of None False] by auto
    then show ?thesis
      unfolding 2(4) using none 2(1)
      by (intro begin_good_child [OF assms(2) 2(3) o1]) (auto simp: main_ok_def)
  qed
qed

lemma begin_user_good:
  assumes "main_ok c" and "fresh_handles te" and "txnState c = TXN_USER_IN_PROGRESS"
    and "outstanding calls = ctx_open c \<union> R" and "apart R c"
    and "begin_user te be mode False c calls = Some r"
  shows "begin_good main_ok R mode r"
proof -
  have w: "txnMode c = VDIR_BACKEND_TXN_WRITE" and pp: "pTxnParent c \<noteq> None"
    using assms(1,3) by (auto simp: main_ok_def)
  from assms(6) show ?thesis
  proof (cases rule: begin_user_cases)
    case 1
    then show ?thesis
      by (rule begin_failed_good [OF _ assms(5) main_ok_ctx_ok [OF assms(1)] assms(4)])
  next
    case (2 n)
    then have "(n, pTxnParent c, False) \<in> ctx_open c"
      using pp w by (auto simp: ctx_open_def)
    then show ?thesis
      unfolding 2(2) using assms(1) by (intro begin_good_keep [OF assms(5,4)]) auto
  next
    case (3 p n)
    have out: "outstanding calls = insert (p, None, False) R" "closed R" "\<forall>q rd. (p, q, rd) \<notin> R"
      using assms(4,5) 3(1,2) w by (auto simp: ctx_open_def apart_def)
    have "n \<noteq> p"
      using fresh_handlesD [OF assms(2) 3(3) out(1), of None False] by auto
    then show ?thesis
      unfolding 3(4) using assms(1,3) 3(2) w
      by (intro begin_good_child [OF assms(2) 3(3) out]) (auto simp: main_ok_def)
  qed
qed

lemma begin_op_good:
  assumes "main_ok c" and "outstanding calls = ctx_open c \<union> R" and "apart R c"
    and "begin_op mode c calls = Some r"
  shows "begin_good main_ok R mode r"
  using assms(4)
proof (cases rule: begin_op_cases)
  case 1
  then show ?thesis
    by (rule begin_failed_good [OF _ assms(3) main_ok_ctx_ok [OF assms(1)] assms(2)])
next
  case (2 n)
  then have "(n, None, txnMode c = VDIR_BACKEND_TXN_READ) \<in> ctx_open c"
    by (simp add: ctx_open_def)
  then show ?thesis
    unfolding 2(2) using assms(1) 2(3) by (intro begin_good_keep [OF assms(3,2)]) auto
qed

lemma begin_main_returns: "main_ok c \<Longrightarrow> begin_main te be mode c calls \<noteq> None"
  by (cases "txnState c")
     (auto simp: begin_main_def main_ok_def begin_pending_def begin_user_def begin_none_def begin_op_def
        mdb_begin_def Let_def split: sum.splits)

lemma begin_main_good:
  assumes "main_ok c" and "fresh_handles te" and "txnState c = TXN_PENDING_START \<longrightarrow> nested_begins te"
    and "outstanding calls = ctx_open c \<union> R" and "apart R c" and r: "begin_main te be mode c calls = Some r"
  shows "begin_good main_ok R mode r"
proof (cases "main_txn_flag mode c")
  case (Inl e)
  then have "begin_failed calls c r"
    using r by (auto simp: begin_main_def begin_failedI)
  then show ?thesis
    by (rule begin_failed_good [OF _ assms(5) main_ok_ctx_ok [OF assms(1)] assms(4)])
next
  case (Inr flag)
  show ?thesis
  proof (cases "txnState c")
    case TXN_NONE
    then have "begin_none te be mode (mode = VDIR_BACKEND_TXN_READ) c calls = Some r"
      using r by (simp add: begin_main_def main_txn_flag_def)
    then show ?thesis
      by (rule begin_none_good [OF assms(1,2) TXN_NONE assms(4,5)])
  next
    case TXN_PENDING_START
    then have "begin_pending te be False c calls = Some r"
      using r Inr by (cases mode) (auto simp: begin_main_def main_txn_flag_def split: if_splits)
    then show ?thesis
      using assms(3) TXN_PENDING_START by (intro begin_pending_good [OF assms(1,2) _ _ assms(4,5)]) auto
  next
    case TXN_USER_IN_PROGRESS
    then have "begin_user te be mode False c calls = Some r"
      using r assms(1) by (simp add: begin_main_def main_txn_flag_def main_ok_def)
    then show ?thesis
      by (rule begin_user_good [OF assms(1,2) TXN_USER_IN_PROGRESS assms(4,5)])
  next
    case TXN_OP_IN_PROGRESS
    then have "begin_op mode c calls = Some r"
      using r Inr by (simp add: begin_main_def)
    then show ?thesis
      by (rule begin_op_good [OF assms(1,4,5)])
  qed
qed

lemma begin_log_good:
  assumes "log_ok c" and "fresh_handles te" and "outstanding calls = ctx_open c \<union> R" and "apart R c"
    and "txnBE c = None \<or> txnBE c = Some (pBE be)"
  shows "\<exists>r. begin_log te be mode c calls = Some r \<and> begin_good log_ok R mode r"
proof (cases "txnState c")
  case TXN_NONE
  have out: "outstanding calls = R" "closed R" and none: "pTxnParent c = None" "pTxnChild c = None"
    using assms TXN_NONE by (auto simp: ctx_open_def log_ok_def apart_def)
  show ?thesis
  proof (cases "te_begin te calls None (mode = VDIR_BACKEND_TXN_READ)")
    case (Inl e)
    then have "begin_log te be mode c calls =
        Some (Some e, False, None, c, calls @ [MdbBegin None (mode = VDIR_BACKEND_TXN_READ) (Inl e)])"
      using assms(5) TXN_NONE by (auto simp: begin_log_def log_txn_flag_def mdb_begin_def Let_def)
    then show ?thesis
      using none out by (simp add: begin_good_def abort_call_def)
  next
    case (Inr n)
    let ?c = "c\<lparr>txnBE := Some (pBE be), pTxnParent := Some n, txnMode := mode, txnState := TXN_OP_IN_PROGRESS\<rparr>"
    have "begin_log te be mode c calls =
        Some (None, True, Some n, ?c, calls @ [MdbBegin None (mode = VDIR_BACKEND_TXN_READ) (Inr n)])"
      using Inr assms(5) TXN_NONE by (auto simp: begin_log_def log_txn_flag_def mdb_begin_def Let_def)
    moreover have "begin_good log_ok R mode
        (None, True, Some n, ?c, calls @ [MdbBegin None (mode = VDIR_BACKEND_TXN_READ) (Inr n)])"
      using none by (intro begin_good_top [OF assms(2) Inr out]) (auto simp: log_ok_def)
    ultimately show ?thesis by simp
  qed
next
  case TXN_OP_IN_PROGRESS
  then obtain p where p: "pTxnParent c = Some p" "txnBE c = Some (pBE be)" "pTxnChild c = None"
    using assms(1,5) by (auto simp: log_ok_def)
  have ok: "ctx_ok c" and mem: "(p, None, txnMode c = VDIR_BACKEND_TXN_READ) \<in> ctx_open c"
    using p by (auto simp: ctx_ok_def ctx_open_def)
  have "begin_log te be mode c calls =
      Some (if txnMode c = VDIR_BACKEND_TXN_READ \<and> mode = VDIR_BACKEND_TXN_WRITE
            then (Some VMDIR_ERROR_UNWILLING_TO_PERFORM, False, None, c, calls)
            else (None, False, Some p, c, calls))"
    using TXN_OP_IN_PROGRESS p by (cases "txnMode c"; cases mode) (auto simp: begin_log_def log_txn_flag_def)
  moreover note begin_good_err [OF assms(4) ok assms(3)]
  moreover have "begin_good log_ok R mode (None, False, Some p, c, calls)"
    if "\<not> (txnMode c = VDIR_BACKEND_TXN_READ \<and> mode = VDIR_BACKEND_TXN_WRITE)"
    using that assms(1) by (intro begin_good_keep [OF assms(4,3) mem]) auto
  ultimately show ?thesis by simp
qed (use assms(1) in \<open>auto simp: log_ok_def\<close>)

section \<open>The collected change logs\<close>

definition dq_free_logs ::
  "raft_log deque_heap \<times> deque option \<Rightarrow> raft_log list \<Rightarrow> ((raft_log deque_heap \<times> deque option) \<times> raft_log list) option" where
  "dq_free_logs s freed = free_logs_loop (fst s) (snd s) freed"

interpretation dq_logs: fifo_drain "deque_rep h\<^sub>0" dq_isempty dq_popl dq_push "\<lambda>a s. a \<notin> dom (fst s)"
    dq_free_logs "\<lambda>x freed. freed @ [x]"
  for h\<^sub>0 :: "raft_log deque_heap"
proof (unfold_locales, goal_cases)
  case (1 s acc)
  then show ?case
    by (cases s) (simp add: dq_defs dq_free_logs_def free_logs_loop.simps)
next
  case (2 s x s' acc)
  then show ?case
    unfolding dq_free_logs_def
    by (subst free_logs_loop.simps) (cases s; cases s'; auto simp: dq_defs)
qed

lemma free_txn_logs:
  assumes "deque_rep h\<^sub>0 (h, Some (chgLogs t)) xs" and "length xs < 2 ^ 64"
  shows "\<exists>q. VmDirFreeTxnLogs (t, h) = Some (t\<lparr>chgLogs := q\<rparr>, h\<^sub>0) \<and> deque_rep h\<^sub>0 (h\<^sub>0, Some q) []"
proof (cases "xs = []")
  case True
  then have "h = h\<^sub>0" "iSize (chgLogs t) = 0"
    using assms(1) deque_rep_empty [of h\<^sub>0 h "Some (chgLogs t)"] by (auto elim!: deque_repE simp: wrap64_def)
  then show ?thesis
    using assms(1) True by (intro exI [of _ "chgLogs t"]) (simp add: VmDirFreeTxnLogs_def)
next
  case False
  then have "iSize (chgLogs t) > 0"
    using assms by (auto elim!: deque_repE simp: wrap64_id)
  moreover obtain h' d' where loop: "free_logs_loop h (Some (chgLogs t)) [] = Some ((h', d'), fold (\<lambda>x freed. freed @ [x]) xs [])"
      and rep: "deque_rep h\<^sub>0 (h', d') []"
    using dq_logs.drain [OF assms(1), of "[]"] by (auto simp: dq_free_logs_def)
  moreover obtain q where "d' = Some q"
    using rep by (rule deque_repE)
  ultimately show ?thesis
    using deque_rep_empty [OF rep] rep by (auto simp: VmDirFreeTxnLogs_def)
qed

section \<open>The invariant of a thread's transactions\<close>

text \<open>
  Both contexts are well formed, the library's open transactions are exactly those the contexts
  hold, and the change logs collected so far are \<open>xs\<close>.
\<close>

definition txn_inv :: "raft_log deque_heap \<Rightarrow> raft_log list \<Rightarrow> 'w txn_world_scheme \<Rightarrow> bool" where
  "txn_inv h\<^sub>0 xs w =
     (case tw_ctx w of
        None \<Rightarrow> outstanding (tw_calls w) = {} \<and> xs = [] \<and> tw_heap w = h\<^sub>0
      | Some t \<Rightarrow>
          main_ok (mainDbTxnCtx t) \<and> log_ok (logDbTxnCtx t) \<and>
          outstanding (tw_calls w) = ctx_open (mainDbTxnCtx t) \<union> ctx_open (logDbTxnCtx t) \<and>
          apart (ctx_open (logDbTxnCtx t)) (mainDbTxnCtx t) \<and>
          deque_rep h\<^sub>0 (tw_heap w, Some (chgLogs t)) xs \<and> length xs < 2 ^ 64)"

lemma log_ok_ctx_ok: "log_ok c \<Longrightarrow> ctx_ok c"
  by (auto simp: log_ok_def ctx_ok_def split: txn_state.splits)

lemma apart_sym: "apart (ctx_open c) d \<Longrightarrow> ctx_ok c \<Longrightarrow> ctx_ok d \<Longrightarrow> apart (ctx_open d) c"
  by (auto simp: apart_def closed_def ctx_open_def ctx_ok_def split: option.splits)

lemma apart_none [simp]: "pTxnParent c = None \<Longrightarrow> pTxnChild c = None \<Longrightarrow> closed R \<Longrightarrow> apart R c"
  by (simp add: apart_def)

lemma apart_empty [simp]: "apart {} c"
  by (simp add: apart_def closed_def)

lemma ctx_open_none [simp]: "pTxnParent c = None \<Longrightarrow> ctx_open c = {}"
  by (simp add: ctx_open_def)

lemma closed_ctx [simp]: "closed (ctx_open c)"
  by (auto simp: closed_def ctx_open_def split: option.splits)

lemma txn_inv_empty:
  assumes "txn_inv h\<^sub>0 xs w" and "tw_ctx w = None"
  shows "txn_inv h\<^sub>0 [] (w\<lparr>tw_ctx := Some empty_thread_txn\<rparr>)"
proof -
  have "deque_rep h\<^sub>0 (h\<^sub>0, Some \<lparr>pHead = None, pTail = None, iSize = 0\<rparr>) []"
    by (rule deque_new) (simp add: dequeCreate_def VmDirAllocateMemory_def)
  then show ?thesis
    using assms by (simp add: txn_inv_def empty_thread_txn_def empty_txn_def main_ok_def log_ok_def)
qed

lemma begin_clear_ok [simp]:
  "main_ok (begin_clear c)" "log_ok (begin_clear c)" "ctx_open (begin_clear c) = {}" "closed R \<Longrightarrow> apart R (begin_clear c)"
  by (simp_all add: begin_clear_def main_ok_def log_ok_def)

lemma txn_invI:
  assumes "tw_ctx w = Some t" and "main_ok (mainDbTxnCtx t)" and "log_ok (logDbTxnCtx t)"
    and "outstanding (tw_calls w) = ctx_open (mainDbTxnCtx t) \<union> ctx_open (logDbTxnCtx t)"
    and "apart (ctx_open (logDbTxnCtx t)) (mainDbTxnCtx t)"
    and "deque_rep h\<^sub>0 (tw_heap w, Some (chgLogs t)) xs" and "length xs < 2 ^ 64"
  shows "txn_inv h\<^sub>0 xs w"
  using assms by (simp add: txn_inv_def)

lemma txn_invD:
  assumes "txn_inv h\<^sub>0 xs w" and "tw_ctx w = Some t"
  shows "main_ok (mainDbTxnCtx t)" and "log_ok (logDbTxnCtx t)"
    and "outstanding (tw_calls w) = ctx_open (mainDbTxnCtx t) \<union> ctx_open (logDbTxnCtx t)"
    and "apart (ctx_open (logDbTxnCtx t)) (mainDbTxnCtx t)"
    and "deque_rep h\<^sub>0 (tw_heap w, Some (chgLogs t)) xs" and "length xs < 2 ^ 64"
  using assms by (simp_all add: txn_inv_def)

lemma begin_result_inv:
  assumes inv: "txn_inv h\<^sub>0 xs w" and t: "tw_ctx w = Some t"
    and good: "begin_good (if main then main_ok else log_ok)
                 (ctx_open (if main then logDbTxnCtx t else mainDbTxnCtx t)) mode (None, new, handle, c, calls)"
  shows "txn_inv h\<^sub>0 xs (w\<lparr>tw_ctx := Some (set_ctx main c t), tw_calls := calls\<rparr>)"
proof (cases main)
  case True
  then have "main_ok c" "outstanding calls = ctx_open c \<union> ctx_open (logDbTxnCtx t)" "apart (ctx_open (logDbTxnCtx t)) c"
    using good by (simp_all add: begin_good_def)
  then show ?thesis
    using True txn_invD [OF inv t] by (intro txn_invI [of _ "t\<lparr>mainDbTxnCtx := c\<rparr>"]) (simp_all add: set_ctx_def)
next
  case False
  then have c: "log_ok c" "outstanding calls = ctx_open c \<union> ctx_open (mainDbTxnCtx t)" "apart (ctx_open (mainDbTxnCtx t)) c"
    using good by (simp_all add: begin_good_def)
  from c(3) have "apart (ctx_open c) (mainDbTxnCtx t)"
    by (rule apart_sym) (use c(1) txn_invD [OF inv t] in \<open>auto intro: main_ok_ctx_ok log_ok_ctx_ok\<close>)
  then show ?thesis
    using False c txn_invD [OF inv t]
    by (intro txn_invI [of _ "t\<lparr>logDbTxnCtx := c\<rparr>"]) (auto simp: set_ctx_def)
qed

lemma begin_error_inv:
  assumes inv: "txn_inv h\<^sub>0 xs w" and t: "tw_ctx w = Some t"
    and good: "begin_good (if main then main_ok else log_ok)
                 (ctx_open (if main then logDbTxnCtx t else mainDbTxnCtx t)) mode (Some e, new, handle, c, calls)"
  shows "\<exists>t' h'. VmDirFreeTxnLogs (t, tw_heap w) = Some (t', h') \<and>
           txn_inv h\<^sub>0 [] (w\<lparr>tw_ctx := Some (set_ctx main (begin_clear c) t'), tw_heap := h',
                            tw_calls := abort_call (pTxnParent c) calls\<rparr>)"
proof -
  obtain q where q: "VmDirFreeTxnLogs (t, tw_heap w) = Some (t\<lparr>chgLogs := q\<rparr>, h\<^sub>0)" "deque_rep h\<^sub>0 (h\<^sub>0, Some q) []"
    using free_txn_logs [OF txn_invD(5,6) [OF inv t]] by blast
  have out: "outstanding (abort_call (pTxnParent c) calls) = ctx_open (if main then logDbTxnCtx t else mainDbTxnCtx t)"
    using good by (simp add: begin_good_def)
  have "txn_inv h\<^sub>0 [] (w\<lparr>tw_ctx := Some (set_ctx main (begin_clear c) (t\<lparr>chgLogs := q\<rparr>)), tw_heap := h\<^sub>0,
                            tw_calls := abort_call (pTxnParent c) calls\<rparr>)"
    using txn_invD(1-4) [OF inv t] out q(2)
    by (intro txn_invI [of _ "set_ctx main (begin_clear c) (t\<lparr>chgLogs := q\<rparr>)"]) (auto simp: set_ctx_def)
  then show ?thesis
    unfolding q(1) by blast
qed

lemma alloc_ctx_inv:
  assumes "txn_inv h\<^sub>0 xs w" and "VmDirAllocAndSetThrTxnCtx te w = (None, w')"
  shows "txn_inv h\<^sub>0 xs w'" and "\<exists>t. tw_ctx w' = Some t"
    and "tw_ctx w' = Some t \<Longrightarrow> tw_ctx w = Some t \<or> t = empty_thread_txn"
proof -
  have *: "(tw_ctx w \<noteq> None \<and> w' = w) \<or> (tw_ctx w = None \<and> w' = w\<lparr>tw_ctx := Some empty_thread_txn\<rparr> \<and> xs = [])"
    using assms by (auto simp: VmDirAllocAndSetThrTxnCtx_def txn_inv_def split: option.splits)
  then show "txn_inv h\<^sub>0 xs w'" "\<exists>t. tw_ctx w' = Some t"
    using assms(1) txn_inv_empty [OF assms(1)] by auto
  show "tw_ctx w = Some t \<or> t = empty_thread_txn" if "tw_ctx w' = Some t"
    using * that by auto
qed

text \<open>The stage of the database the backend belongs to.\<close>

definition begin_stage ::
  "txn_env \<Rightarrow> be_ctx \<Rightarrow> txn_mode \<Rightarrow> thread_txn \<Rightarrow> mdb_call list \<Rightarrow> begin_result option" where
  "begin_stage te be mode t calls =
     (if te_main te (pBE be) then begin_main te be mode (mainDbTxnCtx t) calls
      else begin_log te be mode (logDbTxnCtx t) calls)"

lemma begin_stage_good:
  assumes inv: "txn_inv h\<^sub>0 xs w" and t: "tw_ctx w = Some t" and fresh: "fresh_handles te"
    and pend: "te_main te (pBE be) \<Longrightarrow> txnState (mainDbTxnCtx t) = TXN_PENDING_START \<Longrightarrow> nested_begins te"
    and same: "\<not> te_main te (pBE be) \<Longrightarrow> txnBE (logDbTxnCtx t) \<in> {None, Some (pBE be)}"
  shows "\<exists>r. begin_stage te be mode t (tw_calls w) = Some r \<and>
           begin_good (if te_main te (pBE be) then main_ok else log_ok)
             (ctx_open (if te_main te (pBE be) then logDbTxnCtx t else mainDbTxnCtx t)) mode r"
proof (cases "te_main te (pBE be)")
  case True
  note ctx = txn_invD [OF inv t]
  obtain r where r: "begin_main te be mode (mainDbTxnCtx t) (tw_calls w) = Some r"
    using begin_main_returns [OF ctx(1), of te be mode "tw_calls w"] by blast
  have "txnState (mainDbTxnCtx t) = TXN_PENDING_START \<longrightarrow> nested_begins te"
    using pend True by blast
  from begin_main_good [OF ctx(1) fresh this ctx(3,4) r] r True show ?thesis
    by (simp add: begin_stage_def)
next
  case False
  note ctx = txn_invD [OF inv t]
  have ap: "apart (ctx_open (mainDbTxnCtx t)) (logDbTxnCtx t)"
    by (rule apart_sym [OF ctx(4) log_ok_ctx_ok [OF ctx(2)] main_ok_ctx_ok [OF ctx(1)]])
  have be: "txnBE (logDbTxnCtx t) = None \<or> txnBE (logDbTxnCtx t) = Some (pBE be)"
    using same False by blast
  have "outstanding (tw_calls w) = ctx_open (logDbTxnCtx t) \<union> ctx_open (mainDbTxnCtx t)"
    unfolding ctx(3) by (rule Un_commute)
  from begin_log_good [OF ctx(2) fresh this ap be] False show ?thesis
    by (simp add: begin_stage_def)
qed

lemma txn_begin_eq:
  assumes "VmDirAllocAndSetThrTxnCtx te w = (None, w1)" and "tw_ctx w1 = Some t"
    and "begin_stage te be mode t (tw_calls w1) = Some (err, new, handle, c, calls)"
  shows "err = None \<Longrightarrow> VmDirMDBTxnBegin te be mode w =
           Some (None, new, be\<lparr>pBEPrivate := handle\<rparr>,
                 w1\<lparr>tw_ctx := Some (set_ctx (te_main te (pBE be)) c t), tw_calls := calls\<rparr>)"
    and "err = Some e \<Longrightarrow> VmDirFreeTxnLogs (t, tw_heap w1) = Some (t', h') \<Longrightarrow> VmDirMDBTxnBegin te be mode w =
           Some (Some e, False, be\<lparr>pBEPrivate := None\<rparr>,
                 w1\<lparr>tw_ctx := Some (set_ctx (te_main te (pBE be)) (begin_clear c) t'), tw_heap := h',
                    tw_calls := abort_call (pTxnParent c) calls\<rparr>)"
  using assms by (simp_all add: VmDirMDBTxnBegin_def begin_stage_def Let_def)

lemma txn_begin_keeps:
  assumes inv: "txn_inv h\<^sub>0 xs w" and fresh: "fresh_handles te"
    and pend: "\<And>t. tw_ctx w = Some t \<Longrightarrow> te_main te (pBE be) \<Longrightarrow>
             txnState (mainDbTxnCtx t) = TXN_PENDING_START \<Longrightarrow> nested_begins te"
    and same: "\<And>t. tw_ctx w = Some t \<Longrightarrow> \<not> te_main te (pBE be) \<Longrightarrow> txnBE (logDbTxnCtx t) \<in> {None, Some (pBE be)}"
  shows "\<exists>err new be' w' ys. VmDirMDBTxnBegin te be mode w = Some (err, new, be', w') \<and> txn_inv h\<^sub>0 ys w' \<and>
           (err = None \<longrightarrow> ys = xs \<and> (\<exists>n p rd. pBEPrivate be' = Some n \<and> (n, p, rd) \<in> outstanding (tw_calls w') \<and>
              (mode = VDIR_BACKEND_TXN_WRITE \<longrightarrow> \<not> rd)))"
proof (cases "VmDirAllocAndSetThrTxnCtx te w")
  case (Pair a w1)
  show ?thesis
  proof (cases a)
    case (Some e)
    then have "VmDirMDBTxnBegin te be mode w = Some (Some e, False, be, w)"
      using Pair by (auto simp: VmDirMDBTxnBegin_def VmDirAllocAndSetThrTxnCtx_def split: option.splits)
    with inv show ?thesis by blast
  next
    case None
    note alloc = Pair [unfolded None]
    note inv1 = alloc_ctx_inv(1) [OF inv alloc]
    obtain t where t: "tw_ctx w1 = Some t"
      using alloc_ctx_inv(2) [OF inv alloc] by blast
    have "\<exists>r. begin_stage te be mode t (tw_calls w1) = Some r \<and>
        begin_good (if te_main te (pBE be) then main_ok else log_ok)
          (ctx_open (if te_main te (pBE be) then logDbTxnCtx t else mainDbTxnCtx t)) mode r"
      using alloc_ctx_inv(3) [OF inv alloc t] pend same
      by (intro begin_stage_good [OF inv1 t fresh]) (auto simp: empty_thread_txn_def empty_txn_def)
    then obtain err new handle c calls where
        st: "begin_stage te be mode t (tw_calls w1) = Some (err, new, handle, c, calls)"
        and good: "begin_good (if te_main te (pBE be) then main_ok else log_ok)
          (ctx_open (if te_main te (pBE be) then logDbTxnCtx t else mainDbTxnCtx t)) mode (err, new, handle, c, calls)"
      by (metis prod_cases5)
    show ?thesis
    proof (cases err)
      case None
      have "\<exists>n p rd. handle = Some n \<and> (n, p, rd) \<in> outstanding calls \<and> (mode = VDIR_BACKEND_TXN_WRITE \<longrightarrow> \<not> rd)"
        using good None by (auto simp: begin_good_def)
      then show ?thesis
        using txn_begin_eq(1) [OF alloc t st None] begin_result_inv [OF inv1 t good [unfolded None]] by auto
    next
      case (Some e)
      then show ?thesis
        using txn_begin_eq(2) [OF alloc t st Some] begin_error_inv [OF inv1 t good [unfolded Some]] by auto
    qed
  qed
qed


text \<open>The main context after an abort, and the call that is made.\<close>

definition abort_main :: "txn_context \<Rightarrow> txn_context \<times> nat option" where
  "abort_main c =
     (if pTxnChild c \<noteq> None then (c\<lparr>pTxnChild := None\<rparr>, pTxnChild c) else (end_op c, pTxnParent c))"

lemma abort_main_good:
  assumes "main_ok c" and "txnState c \<in> {TXN_USER_IN_PROGRESS, TXN_OP_IN_PROGRESS}"
    and "outstanding calls = ctx_open c \<union> R" and "apart R c" and "abort_main c = (c', handle)"
  shows "main_ok c'" and "apart R c'" and "outstanding (abort_call handle calls) = ctx_open c' \<union> R"
proof -
  have ok: "ctx_ok c"
    by (rule main_ok_ctx_ok [OF assms(1)])
  show "main_ok c'"
    using assms(1,2,5) by (auto simp: abort_main_def main_ok_def end_op_def split: if_splits)
  show "apart R c'"
    using assms(4,5) by (fastforce simp: abort_main_def end_op_def apart_def split: if_splits)
  show "outstanding (abort_call handle calls) = ctx_open c' \<union> R"
  proof (cases "pTxnChild c")
    case None
    then show ?thesis
      using assms(3,5) abort_parent [OF assms(4) ok assms(3)] by (auto simp: abort_main_def end_op_def)
  next
    case (Some k)
    then have "handle = Some k" "c' = c\<lparr>pTxnChild := None\<rparr>"
      using assms(5) by (simp_all add: abort_main_def)
    then show ?thesis
      using assms(3) end_child [OF assms(4) ok Some] by (simp add: abort_call_def)
  qed
qed

lemma txn_abort_main_eq:
  assumes "tw_ctx w = Some t" and "te_main te (pBE be)" and "main_ok (mainDbTxnCtx t)"
    and "txnState (mainDbTxnCtx t) \<in> {TXN_USER_IN_PROGRESS, TXN_OP_IN_PROGRESS}"
    and "txnBE (mainDbTxnCtx t) = Some (pBE be)" and "abort_main (mainDbTxnCtx t) = (c', handle)"
    and "VmDirFreeTxnLogs (t, tw_heap w) = Some (t', h')"
  shows "VmDirMDBTxnAbort te be w =
           Some (be\<lparr>pBEPrivate := None\<rparr>,
                 w\<lparr>tw_ctx := Some (t'\<lparr>mainDbTxnCtx := c'\<rparr>), tw_heap := h', tw_calls := abort_call handle (tw_calls w)\<rparr>)"
  using assms by (auto simp: VmDirMDBTxnAbort_def main_ok_def abort_main_def Let_def split: if_splits)

lemma txn_abort_keeps:
  assumes inv: "txn_inv h\<^sub>0 xs w" and t: "tw_ctx w = Some t" and main: "te_main te (pBE be)"
    and st: "txnState (mainDbTxnCtx t) \<in> {TXN_USER_IN_PROGRESS, TXN_OP_IN_PROGRESS}"
    and be: "txnBE (mainDbTxnCtx t) = Some (pBE be)"
  shows "\<exists>w'. VmDirMDBTxnAbort te be w = Some (be\<lparr>pBEPrivate := None\<rparr>, w') \<and> txn_inv h\<^sub>0 [] w' \<and>
           outstanding (tw_calls w') =
             outstanding (tw_calls w) - (case pTxnChild (mainDbTxnCtx t) of
                                           None \<Rightarrow> ctx_open (mainDbTxnCtx t)
                                         | Some k \<Rightarrow> {(k, pTxnParent (mainDbTxnCtx t), False)})"
proof -
  note ctx = txn_invD [OF inv t]
  obtain c' handle where ab: "abort_main (mainDbTxnCtx t) = (c', handle)"
    by fastforce
  obtain q where q: "VmDirFreeTxnLogs (t, tw_heap w) = Some (t\<lparr>chgLogs := q\<rparr>, h\<^sub>0)" "deque_rep h\<^sub>0 (h\<^sub>0, Some q) []"
    using free_txn_logs [OF ctx(5,6)] by blast
  note good = abort_main_good [OF ctx(1) st ctx(3,4) ab]
  let ?t = "t\<lparr>chgLogs := q, mainDbTxnCtx := c'\<rparr>"
  let ?w = "w\<lparr>tw_ctx := Some ((t\<lparr>chgLogs := q\<rparr>)\<lparr>mainDbTxnCtx := c'\<rparr>), tw_heap := h\<^sub>0, tw_calls := abort_call handle (tw_calls w)\<rparr>"
  have "txn_inv h\<^sub>0 [] ?w"
    using ctx(2) good q(2) by (intro txn_invI [of _ "(t\<lparr>chgLogs := q\<rparr>)\<lparr>mainDbTxnCtx := c'\<rparr>"]) simp_all
  moreover have "ctx_open c' \<union> ctx_open (logDbTxnCtx t) =
      outstanding (tw_calls w) - (case pTxnChild (mainDbTxnCtx t) of
         None \<Rightarrow> ctx_open (mainDbTxnCtx t) | Some k \<Rightarrow> {(k, pTxnParent (mainDbTxnCtx t), False)})"
  proof (cases "pTxnChild (mainDbTxnCtx t)")
    case None
    have "ctx_open (mainDbTxnCtx t) \<inter> ctx_open (logDbTxnCtx t) = {}"
      using ctx(4) None by (auto simp: apart_def ctx_open_def[of "mainDbTxnCtx t"] split: option.splits)
    then show ?thesis
      using ab None ctx(3) by (auto simp: abort_main_def end_op_def)
  next
    case (Some k)
    obtain p where p: "pTxnParent (mainDbTxnCtx t) = Some p" "txnMode (mainDbTxnCtx t) = VDIR_BACKEND_TXN_WRITE" "p \<noteq> k"
      using ctx(1) st Some by (auto simp: main_ok_def)
    have "(k, Some p, False) \<notin> ctx_open (logDbTxnCtx t)"
      using ctx(4) Some by (auto simp: apart_def)
    moreover have "ctx_open (mainDbTxnCtx t) = {(p, None, False), (k, Some p, False)}"
      using p Some by (simp add: ctx_open_def)
    moreover have "c' = (mainDbTxnCtx t)\<lparr>pTxnChild := None\<rparr>"
      using ab Some by (simp add: abort_main_def)
    then have "ctx_open c' = {(p, None, False)}"
      using p by (simp add: ctx_open_def)
    ultimately show ?thesis
      using ctx(3) Some p by auto
  qed
  ultimately show ?thesis
    using txn_abort_main_eq [OF t main ctx(1) st be ab q(1)] good(3) by auto
qed

text \<open>
  C15. Aborting on a main database keeps the invariant: no assertion fails once an operation
  or a user transaction is under way on that backend, exactly the innermost open transaction is
  ended, the other open ones stay open, and all collected change logs are freed.
\<close>

theorem txn_abort_inv:
  assumes inv: "txn_inv h\<^sub>0 xs w" and t: "tw_ctx w = Some t" and main: "te_main te (pBE be)"
    and st: "txnState (mainDbTxnCtx t) \<in> {TXN_USER_IN_PROGRESS, TXN_OP_IN_PROGRESS}"
    and be: "txnBE (mainDbTxnCtx t) = Some (pBE be)"
  shows "\<exists>w'. VmDirMDBTxnAbort te be w = Some (be\<lparr>pBEPrivate := None\<rparr>, w') \<and> txn_inv h\<^sub>0 [] w' \<and>
           outstanding (tw_calls w') =
             outstanding (tw_calls w) - (case pTxnChild (mainDbTxnCtx t) of
                                           None \<Rightarrow> ctx_open (mainDbTxnCtx t)
                                         | Some k \<Rightarrow> {(k, pTxnParent (mainDbTxnCtx t), False)})"
  by (rule txn_abort_keeps [OF inv t main st be])

lemma abort_all_inv:
  assumes inv: "txn_inv h\<^sub>0 xs w" and t: "tw_ctx w = Some t"
  shows "\<exists>w'. VmDirMDBTxnAbortAll w = Some w' \<and> txn_inv h\<^sub>0 [] w' \<and> outstanding (tw_calls w') = {}"
proof -
  note ctx = txn_invD [OF inv t]
  obtain q where q: "VmDirFreeTxnLogs (t, tw_heap w) = Some (t\<lparr>chgLogs := q\<rparr>, h\<^sub>0)" "deque_rep h\<^sub>0 (h\<^sub>0, Some q) []"
    using free_txn_logs [OF ctx(5,6)] by blast
  define clear where "clear = (\<lambda>c. if pTxnParent c \<noteq> None then (end_op c)\<lparr>txnBE := None\<rparr> else c)"
  define mc where "mc = (clear (mainDbTxnCtx t))\<lparr>pszTxnId := None\<rparr>"
  define lc where "lc = clear (logDbTxnCtx t)"
  let ?t = "(t\<lparr>chgLogs := q\<rparr>)\<lparr>mainDbTxnCtx := mc, logDbTxnCtx := lc\<rparr>"
  let ?calls = "abort_call (pTxnParent (logDbTxnCtx t)) (abort_call (pTxnParent (mainDbTxnCtx t)) (tw_calls w))"
  have eq: "VmDirMDBTxnAbortAll w = Some (w\<lparr>tw_ctx := Some ?t, tw_heap := h\<^sub>0, tw_calls := ?calls\<rparr>)"
    using t q(1) by (simp add: VmDirMDBTxnAbortAll_def clear_def mc_def lc_def Let_def)
  have "outstanding (abort_call (pTxnParent (mainDbTxnCtx t)) (tw_calls w)) = ctx_open (logDbTxnCtx t) \<union> {}"
    using abort_parent [OF ctx(4) main_ok_ctx_ok [OF ctx(1)] ctx(3)] by simp
  from abort_parent [OF _ log_ok_ctx_ok [OF ctx(2)] this] have out: "outstanding ?calls = {}"
    by simp
  have "main_ok mc" "log_ok lc" "ctx_open mc = {}" "ctx_open lc = {}"
    using ctx(1,2) by (auto simp: mc_def lc_def clear_def end_op_def main_ok_def log_ok_def ctx_open_def
        split: txn_state.splits option.splits)
  then have "txn_inv h\<^sub>0 [] (w\<lparr>tw_ctx := Some ?t, tw_heap := h\<^sub>0, tw_calls := ?calls\<rparr>)"
    using out q(2) by (intro txn_invI [of _ ?t]) simp_all
  then show ?thesis
    using eq out by simp
qed

section \<open>Concrete threads\<close>

text \<open>
  A library that hands out a handle above all earlier ones, with backend 0 the main database and
  the others log databases.
\<close>

fun handle_of :: "mdb_call \<Rightarrow> nat" where
  "handle_of (MdbBegin p rd (Inr n)) = n"
| "handle_of _ = 0"

definition next_handle :: "mdb_call list \<Rightarrow> nat" where
  "next_handle calls = Suc (foldr (\<lambda>x. max (handle_of x)) calls 0)"

definition plain_env :: txn_env where
  "plain_env =
     \<lparr>te_main = (\<lambda>b. b = 0), te_begin = (\<lambda>calls p rd. Inr (next_handle calls)), te_commit = (\<lambda>_ _. None),
      te_same = (=), te_now = 0, te_maxtime = 1000, te_alloc = None\<rparr>"

definition new_thread :: txn_world where
  "new_thread = \<lparr>tw_ctx = None, tw_heap = Map.empty, tw_calls = []\<rparr>"

definition be_of :: "nat \<Rightarrow> string option \<Rightarrow> be_ctx" where
  "be_of b txid = \<lparr>pBE = b, be_pszTxnId = txid, pBEPrivate = None\<rparr>"

lemma outstanding_begun: "(n, p, rd) \<in> outstanding calls \<Longrightarrow> MdbBegin p rd (Inr n) \<in> set calls"
proof (induction calls rule: rev_induct)
  case (snoc x xs)
  show ?case
  proof (cases "(n, p, rd) \<in> outstanding xs")
    case True
    then show ?thesis
      using snoc.IH by simp
  next
    case False
    then have "x = MdbBegin p rd (Inr n)"
      using snoc.prems by (cases "(outstanding xs, x)" rule: open_step.cases) auto
    then show ?thesis
      by simp
  qed
qed simp

lemma handle_less_next: "x \<in> set calls \<Longrightarrow> handle_of x < next_handle calls"
  by (induction calls) (auto simp: next_handle_def)

lemma plain_env_ok: "fresh_handles plain_env" "nested_begins plain_env"
  by (auto simp: fresh_handles_def nested_begins_def plain_env_def dest!: outstanding_begun handle_less_next)

lemma new_thread_inv: "txn_inv Map.empty [] new_thread"
  by (simp add: txn_inv_def new_thread_def)


text \<open>A thread in the middle of an operation.\<close>

definition busy_thread :: txn_world where
  "busy_thread = \<lparr>tw_ctx = Some (empty_thread_txn\<lparr>mainDbTxnCtx := empty_txn\<lparr>txnState := TXN_OP_IN_PROGRESS,
                    txnBE := Some 0, pTxnParent := Some 1, txnMode := VDIR_BACKEND_TXN_WRITE\<rparr>\<rparr>),
                  tw_heap = Map.empty, tw_calls = [MdbBegin None False (Inr 1)]\<rparr>"

lemma busy_thread_inv: "txn_inv Map.empty [] busy_thread"
proof -
  have "deque_rep Map.empty (Map.empty, Some \<lparr>pHead = None, pTail = None, iSize = 0\<rparr>) []"
    by (rule deque_new) (simp add: dequeCreate_def VmDirAllocateMemory_def)
  then show ?thesis
    by (simp add: txn_inv_def busy_thread_def empty_thread_txn_def empty_txn_def main_ok_def log_ok_def
        outstanding_def ctx_open_def)
qed

theorem txn_abort_inv_witness:
  "\<exists>w'. VmDirMDBTxnAbort plain_env (be_of 0 None) busy_thread = Some (be_of 0 None, w') \<and>
     outstanding (tw_calls w') = {}"
proof -
  have "\<exists>w'. VmDirMDBTxnAbort plain_env (be_of 0 None) busy_thread = Some ((be_of 0 None)\<lparr>pBEPrivate := None\<rparr>, w') \<and>
      txn_inv Map.empty [] w' \<and> outstanding (tw_calls w') = outstanding (tw_calls busy_thread) - {(1, None, False)}"
    using txn_abort_inv [OF busy_thread_inv, of "the (tw_ctx busy_thread)" plain_env "be_of 0 None"]
    by (auto simp: busy_thread_def plain_env_def be_of_def empty_thread_txn_def empty_txn_def ctx_open_def)
  then show ?thesis
    by (auto simp: busy_thread_def be_of_def outstanding_def)
qed

text \<open>
  When the child of a pending user transaction cannot be begun, the parent begun just
  before is never ended: the context is cleared, but its handle was not stored yet, and the
  write transaction stays open in the library.
\<close>

theorem pending_child_failure_leaks:
  "\<exists>w w'. VmDirMLTxnStart plain_env False (Inr ''id'') new_thread = Some (None, w) \<and>
     VmDirMDBTxnBegin (plain_env\<lparr>te_begin := \<lambda>calls p rd. if p = None then Inr 1 else Inl VMDIR_ERROR_BACKEND_ERROR\<rparr>)
       (be_of 0 (Some ''id'')) VDIR_BACKEND_TXN_WRITE w = Some (Some VMDIR_ERROR_BACKEND_ERROR, False, be_of 0 (Some ''id''), w') \<and>
     map_option (\<lambda>t. txnState (mainDbTxnCtx t)) (tw_ctx w') = Some TXN_NONE \<and>
     outstanding (tw_calls w') = {(1, None, False)}"
  by (simp add: VmDirMLTxnStart_def VmDirMDBTxnBegin_def VmDirAllocAndSetThrTxnCtx_def new_thread_def plain_env_def
      be_of_def empty_thread_txn_def empty_txn_def begin_main_def main_txn_flag_def begin_pending_def txn_id_match_def
      mdb_begin_def VmDirFreeTxnLogs_def begin_clear_def set_ctx_def abort_call_def outstanding_def Let_def)

text \<open>
  After an aborted transaction on one log database, beginning one on another log
  database trips the assertion that the context is free, because the abort does not clear the
  context's backend.
\<close>

theorem log_abort_keeps_backend:
  "\<exists>be w be' w'. VmDirMDBTxnBegin plain_env (be_of 1 None) VDIR_BACKEND_TXN_WRITE new_thread = Some (None, True, be, w) \<and>
     VmDirMDBTxnAbort plain_env be w = Some (be', w') \<and>
     VmDirMDBTxnBegin plain_env (be_of 2 None) VDIR_BACKEND_TXN_READ w' = None"
  by (simp add: VmDirMDBTxnBegin_def VmDirMDBTxnAbort_def VmDirAllocAndSetThrTxnCtx_def new_thread_def plain_env_def
      be_of_def empty_thread_txn_def empty_txn_def begin_log_def log_txn_flag_def mdb_begin_def set_ctx_def
      abort_call_def Let_def)

text \<open>
  Starting a user transaction on an anonymous connection trips an assertion when the
  thread has no transaction context yet: the error path aborts everything outstanding without
  testing for a context.
\<close>

theorem anonymous_start_asserts:
  "VmDirMLTxnStart te True txid new_thread = None"
  by (simp add: VmDirMLTxnStart_def VmDirMDBTxnAbortAll_def new_thread_def)

end
