(* ===== verification/Mdb_Error.thy ===== *)
theory Mdb_Error
  imports Memory
begin

text \<open>
  How the backend translates the errors of the database library, from
  \<open>lwraft/server/mdb-store/init.c\<close>.
\<close>

text \<open>Errors outside the range of the directory's own become a generic one.\<close>

definition IS_VMDIR_ERROR_SPACE :: "vmdir_error \<Rightarrow> bool" where
  "IS_VMDIR_ERROR_SPACE e \<longleftrightarrow>
     e \<notin> {ERROR_INVALID_PARAMETER, ERROR_NO_MORE_ITEMS, LDAP_OPERATIONS_ERROR, LDAP_INSUFFICIENT_ACCESS,
           MDB_ERROR, MDB_NOTFOUND, MDB_KEYEXIST, LDAP_UNWILLING_TO_PERFORM}"

definition MDBToBackendError :: "rc \<Rightarrow> rc \<Rightarrow> vmdir_error \<Rightarrow> rc" where
  "MDBToBackendError dwMdbError dwFromMdbError dwToBEError =
     (case dwMdbError of
        None \<Rightarrow> None
      | Some e \<Rightarrow>
          (if dwMdbError = dwFromMdbError then Some dwToBEError
           else if IS_VMDIR_ERROR_SPACE e then Some e
           else Some VMDIR_ERROR_BACKEND_ERROR))"

end
