(* ===== verification/Raft_Commit.thy ===== *)
theory Raft_Commit
  imports Raft_Prepare Mdb_Txn Mdb_Error
begin

text \<open>
  Committing a write on the leader. An operation of the directory hands its change to the
  pre-commit functions of \<open>lwraft/server/replication/thread.c\<close>, which collect change logs on the
  thread; \<open>VmDirMDBTxnCommit\<close> of \<open>mdb-store/txn.c\<close> packs them, appends the log entry
  (\<open>VmDirAddRaftEntry\<close> of \<open>replentry.c\<close>) and commits; the library's commit, as changed in
  \<open>thirdparty/openldap/libraries/mdb/mdb.c\<close>, calls \<open>VmDirRaftPrepareCommit\<close> for the consensus of
  the cluster before it writes.

  \<open>raft_world\<close> is what the committing thread sees: its transactions, the Raft state and store,
  \<open>gLogEntry\<close>, and the value of the last applied index written in the main transaction that is
  not committed yet. The environment \<open>commit_env\<close> has the results of the layers below: building
  the operation and the entry, the internal modify, and the parts of the library's commit.
\<close>

section \<open>Constants and names\<close>

definition LDAP_REQ_ADD :: "32 word" where "LDAP_REQ_ADD = 0x68"
definition LDAP_REQ_MODIFY :: "32 word" where "LDAP_REQ_MODIFY = 0x66"
definition LDAP_REQ_DELETE :: "32 word" where "LDAP_REQ_DELETE = 0x4a"

definition NEW_ENTRY_EID_PREFIX :: "64 word" where
  "NEW_ENTRY_EID_PREFIX = 0x2000000000000000"

text \<open>The first suffix of the source that starts with the pattern, ignoring case.\<close>

fun VmDirStringCaseStrA :: "string \<Rightarrow> string \<Rightarrow> string option" where
  "VmDirStringCaseStrA [] pattern = (if pattern = [] then Some [] else None)"
| "VmDirStringCaseStrA (c # cs) pattern =
     (if map to_lower (take (length pattern) (c # cs)) = map to_lower pattern then Some (c # cs)
      else VmDirStringCaseStrA cs pattern)"

definition RAFT_CONTEXT_DN :: string where
  "RAFT_CONTEXT_DN = ''cn=raftcontext''"

text \<open>The test of the pre-commit functions for entries of the Raft context.\<close>

definition in_raft_context :: "string \<Rightarrow> bool" where
  "in_raft_context dn =
     (case VmDirStringCaseStrA dn RAFT_CONTEXT_DN of
        None \<Rightarrow> False
      | Some p \<Rightarrow> map to_lower p = map to_lower RAFT_CONTEXT_DN)"

record raft_world = txn_world +
  rw_rs :: raft_state
  rw_st :: raft_store
  rw_log :: raft_log
  rw_pend :: "nat option"

section \<open>Collecting change logs\<close>

text \<open>
  \<open>reg\<close> is the value of the registry key as read now and \<open>g\<close> the remembered one; the result is
  the new remembered value, which the code also returns.
\<close>

definition VmDirGetRaftQuorumOverride :: "bool \<Rightarrow> nat \<Rightarrow> nat \<Rightarrow> nat" where
  "VmDirGetRaftQuorumOverride bForceKeyRead reg g = (if \<not> bForceKeyRead \<and> g = 0 then g else reg)"

text \<open>
  Adding a change log to the thread's list; the result of \<open>dequePush\<close> is ignored by the code.
  \<open>ma\<close> is the address of the node, \<open>be\<close> the operation's backend.
\<close>

definition VmDirRaftAddLog ::
  "addr option \<Rightarrow> nat \<Rightarrow> raft_log option \<Rightarrow> 'w txn_world_scheme \<Rightarrow> (rc \<times> 'w txn_world_scheme) option" where
  "VmDirRaftAddLog ma be pChgLog w =
     do {
       t \<leftarrow> tw_ctx w;
       case pChgLog of
         None \<Rightarrow> Some (Some VMDIR_ERROR_INVALID_PARAMETER, w)
       | Some l \<Rightarrow>
           (let c = mainDbTxnCtx t in
            if txnState c = TXN_NONE then Some (Some VMDIR_ERROR_INVALID_PARAMETER, w)
            else if txnBE c = None then None
            else if txnBE c \<noteq> Some be then Some (Some VMDIR_ERROR_UNWILLING_TO_PERFORM, w)
            else do {
              (_, h, d) \<leftarrow> dequePush ma (Some l) (tw_heap w) (Some (chgLogs t));
              q \<leftarrow> d;
              Some (None, w\<lparr>tw_ctx := Some (t\<lparr>chgLogs := q\<rparr>), tw_heap := h\<rparr>)
            })
     }"

text \<open>The role test the three pre-commit functions share; \<open>ov\<close> is the quorum override.\<close>

definition may_write :: "nat \<Rightarrow> raft_state \<Rightarrow> bool" where
  "may_write ov rs \<longleftrightarrow> ov \<noteq> 0 \<or> clusterSize rs < 2 \<or> role rs = VDIR_RAFT_ROLE_LEADER"

definition new_chglog :: "raft_state \<Rightarrow> 64 word \<Rightarrow> 32 word \<Rightarrow> bytes \<Rightarrow> raft_log" where
  "new_chglog rs eid code data =
     empty_log\<lparr>log_index := of_nat (wrap64 (lastLogIndex rs + 1)), log_term := of_nat (currentTerm rs),
               log_entryId := eid, log_requestCode := code, chglog := data\<rparr>"

text \<open>
  On an error the pre-commit functions abort everything outstanding on the thread. The results
  carry the operation's \<open>logIndex\<close> if it was set.
\<close>

definition precommit_end :: "64 word option \<Rightarrow> (rc \<times> raft_world) option \<Rightarrow> (rc \<times> 64 word option \<times> raft_world) option" where
  "precommit_end li r =
     do {
       (err, w) \<leftarrow> r;
       if err = None then Some (err, li, w)
       else do { w' \<leftarrow> VmDirMDBTxnAbortAll w; Some (err, li, w') }
     }"

text \<open>The part the three share, from the role test on; \<open>enc\<close> is the encoded change or the error of encoding it.\<close>

definition precommit_log ::
  "raft_env \<Rightarrow> nat \<Rightarrow> addr option \<Rightarrow> nat \<Rightarrow> 64 word \<Rightarrow> 32 word \<Rightarrow> vmdir_error + bytes \<Rightarrow> raft_world \<Rightarrow>
     (rc \<times> 64 word option \<times> raft_world) option" where
  "precommit_log env ov ma be eid code enc w =
     (if \<not> may_write ov (rw_rs w) then precommit_end None (Some (Some VMDIR_ERROR_UNWILLING_TO_PERFORM, w))
      else case enc of
             Inl e \<Rightarrow> precommit_end None (Some (Some e, w))
           | Inr b \<Rightarrow>
               (case VmDirAllocateMemory (env_mem env) sizeof_raft_log of
                  Some e \<Rightarrow> precommit_end None (Some (Some e, w))
                | None \<Rightarrow>
                    (let l = new_chglog (rw_rs w) eid code b in
                     precommit_end (Some (log_index l)) (VmDirRaftAddLog ma be (Some l) w))))"

text \<open>The result has the entry id as the function leaves it.\<close>

definition VmDirAddRaftPreCommit ::
  "raft_env \<Rightarrow> nat \<Rightarrow> addr option \<Rightarrow> nat \<Rightarrow> 64 word \<Rightarrow> string \<Rightarrow> vmdir_error + bytes \<Rightarrow> raft_world \<Rightarrow>
     (64 word \<times> rc \<times> 64 word option \<times> raft_world) option" where
  "VmDirAddRaftPreCommit env ov ma be eId dn enc w =
     (if eId < NEW_ENTRY_EID_PREFIX then Some (eId, None, None, w)
      else if in_raft_context dn then Some (0, None, None, w)
      else map_option (\<lambda>r. (eId, r)) (precommit_log env ov ma be eId LDAP_REQ_ADD enc w))"

definition VmDirModifyRaftPreCommit ::
  "raft_env \<Rightarrow> nat \<Rightarrow> addr option \<Rightarrow> nat \<Rightarrow> 64 word \<Rightarrow> string \<Rightarrow> vmdir_error + bytes \<Rightarrow> raft_world \<Rightarrow>
     (rc \<times> 64 word option \<times> raft_world) option" where
  "VmDirModifyRaftPreCommit env ov ma be entryId dn enc w =
     (if in_raft_context dn then Some (None, None, w)
      else precommit_log env ov ma be entryId LDAP_REQ_MODIFY enc w)"

text \<open>
  A deleted entry that is the account of a peer removes the peer first; the last parameters are
  those of \<open>VmDirDeleteRaftProxy\<close>.
\<close>

definition VmDirDeleteRaftPreCommit ::
  "raft_env \<Rightarrow> nat \<Rightarrow> addr option \<Rightarrow> nat \<Rightarrow> 64 word \<Rightarrow> string \<Rightarrow> vmdir_error + string \<Rightarrow> string \<Rightarrow>
     vmdir_error + string \<Rightarrow> vmdir_error + string \<Rightarrow> raft_world \<Rightarrow> (rc \<times> 64 word option \<times> raft_world) option" where
  "VmDirDeleteRaftPreCommit env ov ma be eid dn parent dc container host w =
     (if in_raft_context dn then Some (None, None, w)
      else case VmDirDeleteRaftProxy env (Some dn) parent dc container host (rw_rs w) of
             (Some e, rs) \<Rightarrow> precommit_end None (Some (Some e, w\<lparr>rw_rs := rs\<rparr>))
           | (None, rs) \<Rightarrow> precommit_log env ov ma be eid LDAP_REQ_DELETE (Inr []) (w\<lparr>rw_rs := rs\<rparr>))"

section \<open>The log entry\<close>

record commit_env =
  ce_setup :: rc
  ce_attrs :: rc
  ce_logbe :: nat
  ce_uninit :: "64 word"
  ce_dirty :: bool
  ce_flush :: rc
  ce_meta :: rc
  ce_ov :: nat
  ce_sched :: raft_sched

text \<open>The error exit of a commit: free the logs, abort what is still open, clear the context.\<close>

definition commit_error ::
  "bool \<Rightarrow> vmdir_error \<Rightarrow> be_ctx \<Rightarrow> 'w txn_world_scheme \<Rightarrow> (rc \<times> be_ctx \<times> 'w txn_world_scheme) option" where
  "commit_error main e be w =
     do {
       t \<leftarrow> tw_ctx w;
       (t', h') \<leftarrow> VmDirFreeTxnLogs (t, tw_heap w);
       let c = (if main then mainDbTxnCtx t' else logDbTxnCtx t');
       Some (MDBToBackendError (Some e) None VMDIR_ERROR_BACKEND_ERROR, be\<lparr>pBEPrivate := None\<rparr>,
             w\<lparr>tw_ctx := Some (set_ctx main ((end_op c)\<lparr>txnBE := None\<rparr>) t'), tw_heap := h',
               tw_calls := abort_call (pTxnParent c) (tw_calls w)\<rparr>)
     }"

definition end_commit :: "txn_context \<Rightarrow> txn_context" where
  "end_commit c = c\<lparr>pTxnParent := None, txnState := TXN_NONE, txnBE := None\<rparr>"

text \<open>The commit on a log database, which has no Raft callbacks.\<close>

definition commit_log ::
  "txn_env \<Rightarrow> be_ctx \<Rightarrow> 'w txn_world_scheme \<Rightarrow> (rc \<times> be_ctx \<times> 'w txn_world_scheme) option" where
  "commit_log te be w =
     do {
       t \<leftarrow> tw_ctx w;
       let c = logDbTxnCtx t;
       if txnBE c = None \<or> pTxnChild c \<noteq> None \<or> txnState c \<noteq> TXN_OP_IN_PROGRESS then None
       else do {
         p \<leftarrow> pTxnParent c;
         let r = te_commit te (tw_calls w) p;
         let w1 = w\<lparr>tw_ctx := Some (t\<lparr>logDbTxnCtx := end_commit c\<rparr>), tw_calls := tw_calls w @ [MdbCommit p r]\<rparr>;
         (case r of
            None \<Rightarrow> Some (None, be\<lparr>pBEPrivate := None\<rparr>, w1)
          | Some e \<Rightarrow> commit_error False e be w1)
       }
     }"

text \<open>
  Adding the log entry: the last applied index is written in the open main transaction, the
  entry in a transaction of the log database that is committed at once. The entry is added as
  \<open>VmDirPersistLog\<close> adds one. The new entry is seen in \<open>rw_st\<close> when its transaction commits.
\<close>

definition VmDirAddRaftEntry ::
  "raft_env \<Rightarrow> txn_env \<Rightarrow> commit_env \<Rightarrow> raft_log \<Rightarrow> raft_world \<Rightarrow> (rc \<times> raft_world) option" where
  "VmDirAddRaftEntry env te ce l w =
     (if ce_setup ce \<noteq> None then Some (ce_setup ce, w)
      else if env_modify env \<noteq> None then Some (env_modify env, w)
      else
        (let w1 = w\<lparr>rw_pend := Some (unat (log_index l))\<rparr> in
         if ce_attrs ce \<noteq> None then Some (ce_attrs ce, w1)
         else do {
           (err, bHasTxn, be, w2) \<leftarrow>
             VmDirMDBTxnBegin te \<lparr>pBE = ce_logbe ce, be_pszTxnId = None, pBEPrivate = None\<rparr> VDIR_BACKEND_TXN_WRITE w1;
           if err \<noteq> None then Some (err, w2)
           else case VmDirPersistLog env (rw_st w2) l of
                  (Some e, _) \<Rightarrow>
                    (if bHasTxn then do { (be', w3) \<leftarrow> VmDirMDBTxnAbort te be w2; Some (Some e, w3) }
                     else Some (Some e, w2))
                | (None, st) \<Rightarrow>
                    do {
                      (err, be', w3) \<leftarrow> (if bHasTxn then commit_log te be w2 else Some (None, be, w2));
                      if err \<noteq> None then Some (err, w3)
                      else Some (None, w3\<lparr>rw_st := st, rw_rs := (rw_rs w3)\<lparr>lastLogIndex := unat (log_index l)\<rparr>\<rparr>)
                    }
         }))"

definition VmDirEncodeLogEntry ::
  "raft_env \<Rightarrow> txn_env \<Rightarrow> commit_env \<Rightarrow> raft_world \<Rightarrow> (rc \<times> raft_world) option" where
  "VmDirEncodeLogEntry env te ce w =
     (case tw_ctx w of
        None \<Rightarrow> Some (Some LDAP_OPERATIONS_ERROR, w)
      | Some t \<Rightarrow>
          (if iSize (chgLogs t) < 1 then Some (None, w)
           else if iSize (chgLogs t) = 1 then
             do {
               (_, p, h, d) \<leftarrow> dequePopLeft True (tw_heap w) (Some (chgLogs t));
               q \<leftarrow> d;
               l \<leftarrow> p;
               let w1 = w\<lparr>tw_ctx := Some (t\<lparr>chgLogs := q\<rparr>), tw_heap := h\<rparr>;
               (err, l') \<leftarrow> VmDirPackLogEntry (env_mem env) l;
               if err \<noteq> None then Some (err, w1)
               else do {
                 (err, w2) \<leftarrow> VmDirAddRaftEntry env te ce l' w1;
                 if err \<noteq> None then Some (err, w2) else Some (None, w2\<lparr>rw_log := l'\<rparr>)
               }
             }
           else
             do {
               (err, l, h, d) \<leftarrow> VmDirPackLogEntries (env_mem env) (ce_uninit ce) empty_log (tw_heap w) (Some (chgLogs t));
               q \<leftarrow> d;
               let w1 = w\<lparr>tw_ctx := Some (t\<lparr>chgLogs := q\<rparr>), tw_heap := h\<rparr>;
               if err \<noteq> None then Some (err, w1)
               else do {
                 (err, w2) \<leftarrow> VmDirAddRaftEntry env te ce l w1;
                 if err \<noteq> None then Some (err, w2) else Some (None, w2\<lparr>rw_log := l\<rparr>)
               }
             }))"

section \<open>The commit\<close>

text \<open>
  The library's commit of a top-level transaction of a main database: a read-only or unchanged
  transaction just ends; otherwise the pages are written (\<open>ce_flush\<close> is the first error up to
  there), consensus is reached and the meta page is written, which makes the transaction durable.
\<close>

definition commit_durable :: "raft_world \<Rightarrow> raft_world" where
  "commit_durable w =
     w\<lparr>rw_pend := None, rw_st := (case rw_pend w of None \<Rightarrow> rw_st w | Some v \<Rightarrow> (rw_st w)\<lparr>st_lastApplied := v\<rparr>)\<rparr>"

definition mdb_txn_commit ::
  "raft_env \<Rightarrow> commit_env \<Rightarrow> bool \<Rightarrow> nat \<Rightarrow> raft_world \<Rightarrow> rc \<times> raft_world" where
  "mdb_txn_commit env ce rdonly txn w =
     (let fin = (\<lambda>r w. (r, w\<lparr>tw_calls := tw_calls w @ [MdbCommit txn r], rw_pend := None\<rparr>)) in
      if rdonly then fin None w
      else if \<not> ce_dirty ce then fin None (w\<lparr>rw_rs := VmDirRaftPostCommit None (rw_rs w)\<rparr>)
      else if ce_flush ce \<noteq> None then fin (ce_flush ce) (w\<lparr>rw_rs := VmDirRaftCommitFail env None (rw_rs w)\<rparr>)
      else case VmDirRaftPrepareCommit env (ce_sched ce) (ce_ov ce) (rw_log w) (rw_rs w) of
             (err, ctx, rs, l, _) \<Rightarrow>
               (let w1 = w\<lparr>rw_rs := rs, rw_log := l\<rparr> in
                if err \<noteq> None then fin err (w1\<lparr>rw_rs := VmDirRaftCommitFail env ctx rs\<rparr>)
                else if ce_meta ce \<noteq> None then fin (ce_meta ce) (w1\<lparr>rw_rs := VmDirRaftCommitFail env ctx rs\<rparr>)
                else fin None (commit_durable (w1\<lparr>rw_rs := VmDirRaftPostCommit ctx rs\<rparr>))))"

text \<open>The two commits of a parent transaction: encode the logs, commit, clear the context.\<close>

definition commit_parent ::
  "raft_env \<Rightarrow> txn_env \<Rightarrow> commit_env \<Rightarrow> be_ctx \<Rightarrow> raft_world \<Rightarrow> (rc \<times> be_ctx \<times> raft_world) option" where
  "commit_parent env te ce be w =
     do {
       (err, w1) \<leftarrow> VmDirEncodeLogEntry env te ce w;
       (case err of
          Some e \<Rightarrow> commit_error True e be w1
        | None \<Rightarrow>
            do {
              t \<leftarrow> tw_ctx w1;
              let c = mainDbTxnCtx t;
              p \<leftarrow> pTxnParent c;
              let (r, w2) = mdb_txn_commit env ce (txnMode c = VDIR_BACKEND_TXN_READ) p w1;
              let w3 = w2\<lparr>tw_ctx := Some (t\<lparr>mainDbTxnCtx := end_commit c\<rparr>)\<rparr>;
              (case r of
                 None \<Rightarrow> Some (None, be\<lparr>pBEPrivate := None\<rparr>, w3)
               | Some e \<Rightarrow> commit_error True e be w3)
            })
     }"

definition VmDirMDBTxnCommit ::
  "raft_env \<Rightarrow> txn_env \<Rightarrow> commit_env \<Rightarrow> be_ctx \<Rightarrow> raft_world \<Rightarrow> (rc \<times> be_ctx \<times> raft_world) option" where
  "VmDirMDBTxnCommit env te ce be w =
     (if \<not> te_main te (pBE be) then commit_log te be w
      else do {
        t \<leftarrow> tw_ctx w;
        let c = mainDbTxnCtx t;
        if txnState c = TXN_NONE then commit_error True VMDIR_ERROR_UNWILLING_TO_PERFORM be w
        else if txnBE c = None then None
        else if txnBE c \<noteq> Some (pBE be) then commit_error True VMDIR_ERROR_UNWILLING_TO_PERFORM be w
        else case txnState c of
               TXN_USER_IN_PROGRESS \<Rightarrow>
                 (case pTxnChild c of
                    Some k \<Rightarrow>
                      (if pTxnParent c = None then None
                       else
                         (let r = te_commit te (tw_calls w) k;
                              w1 = w\<lparr>tw_ctx := Some (t\<lparr>mainDbTxnCtx := c\<lparr>pTxnChild := None\<rparr>\<rparr>),
                                     tw_calls := tw_calls w @ [MdbCommit k r]\<rparr> in
                          case r of
                            None \<Rightarrow> Some (None, be\<lparr>pBEPrivate := None\<rparr>, w1)
                          | Some e \<Rightarrow> commit_error True e be w1))
                  | None \<Rightarrow>
                      (if pTxnParent c \<noteq> None then commit_parent env te ce be w
                       else commit_error True LDAP_OPERATIONS_ERROR be w))
             | TXN_OP_IN_PROGRESS \<Rightarrow>
                 (if pTxnChild c \<noteq> None \<or> pTxnParent c = None then None else commit_parent env te ce be w)
             | _ \<Rightarrow> commit_error True LDAP_OPERATIONS_ERROR be w
      })"

text \<open>The end of a user transaction; \<open>has_be\<close> is whether the operation has a backend context.\<close>

definition VmDirMLTxnEnd ::
  "raft_env \<Rightarrow> txn_env \<Rightarrow> commit_env \<Rightarrow> be_ctx option \<Rightarrow> string \<Rightarrow> bool \<Rightarrow> raft_world \<Rightarrow>
     (rc \<times> be_ctx option \<times> raft_world) option" where
  "VmDirMLTxnEnd env te ce be_opt txnid isCommit w =
     (case be_opt of
        None \<Rightarrow> Some (Some VMDIR_ERROR_INVALID_PARAMETER, None, w)
      | Some be \<Rightarrow>
          do {
            t \<leftarrow> tw_ctx w;
            let c = mainDbTxnCtx t;
            (case txnBE c of
               None \<Rightarrow> Some (Some LDAP_OPERATIONS_ERROR, Some be, w)
             | Some b \<Rightarrow>
                 (if txnState c \<noteq> TXN_USER_IN_PROGRESS then Some (Some VMDIR_ERROR_UNWILLING_TO_PERFORM, Some be, w)
                  else if \<not> txn_id_match te (Some txnid) c then Some (Some VMDIR_ERROR_INVALID_PARAMETER, Some be, w)
                  else do {
                    let be1 = be\<lparr>pBE := b\<rparr>;
                    (err, be2, w1) \<leftarrow>
                      (if isCommit then VmDirMDBTxnCommit env te ce be1 w
                       else map_option (\<lambda>(be', w'). (None, be', w')) (VmDirMDBTxnAbort te be1 w));
                    if err \<noteq> None then Some (err, Some be2, w1)
                    else do {
                      t1 \<leftarrow> tw_ctx w1;
                      Some (None, Some be2, w1\<lparr>tw_ctx := Some (t1\<lparr>mainDbTxnCtx := (mainDbTxnCtx t1)\<lparr>pszTxnId := None\<rparr>\<rparr>)\<rparr>)
                    }
                  }))
          })"


section \<open>What a commit leaves\<close>

text \<open>The stored form of the change logs of a transaction.\<close>

definition logs_payload :: "raft_log list \<Rightarrow> bytes" where
  "logs_payload xs = (if length xs = 1 then log_bytes (hd xs) else multi_bytes xs)"

lemma begin_log_world:
  assumes "VmDirMDBTxnBegin te be mode w = Some (None, new, be', w')" and "\<not> te_main te (pBE be)" and "tw_ctx w = Some t"
  obtains c calls where "w' = w\<lparr>tw_ctx := Some (t\<lparr>logDbTxnCtx := c\<rparr>), tw_calls := calls\<rparr>" and "pBE be' = pBE be"
  using assms
  by (auto simp: VmDirMDBTxnBegin_def VmDirAllocAndSetThrTxnCtx_def set_ctx_def Let_def
      split: option.splits bind_splits)

lemma commit_error_error: "commit_error main e be w = Some (err, be', w') \<Longrightarrow> err \<noteq> None"
  by (auto simp: commit_error_def MDBToBackendError_def Let_def split: bind_splits if_splits)

lemma commit_log_world:
  assumes "commit_log te be w = Some (None, be', w')" and "tw_ctx w = Some t"
  obtains c calls where "w' = w\<lparr>tw_ctx := Some (t\<lparr>logDbTxnCtx := c\<rparr>), tw_calls := calls\<rparr>"
  using assms
  by (auto simp: commit_log_def Let_def split: option.splits bind_splits if_splits dest: commit_error_error)

definition added_entry :: "raft_log \<Rightarrow> raft_world \<Rightarrow> raft_world" where
  "added_entry l w = w\<lparr>rw_rs := (rw_rs w)\<lparr>lastLogIndex := unat (log_index l)\<rparr>,
     rw_st := (rw_st w)\<lparr>logs_current := (unat (log_index l), case packRaftLog l of None \<Rightarrow> [] | Some b \<Rightarrow> b) # logs_current (rw_st w)\<rparr>,
     rw_pend := Some (unat (log_index l))\<rparr>"

lemma add_raft_entry_world:
  assumes "VmDirAddRaftEntry env te ce l w = Some (None, w')" and "\<not> te_main te (ce_logbe ce)" and "tw_ctx w = Some t"
  obtains c calls where "w' = (added_entry l w)\<lparr>tw_ctx := Some (t\<lparr>logDbTxnCtx := c\<rparr>), tw_calls := calls\<rparr>"
proof -
  let ?w1 = "w\<lparr>rw_pend := Some (unat (log_index l))\<rparr>"
  let ?be = "\<lparr>pBE = ce_logbe ce, be_pszTxnId = None, pBEPrivate = None\<rparr>"
  obtain new be1 w2 st be2 w3 where b: "VmDirMDBTxnBegin te ?be VDIR_BACKEND_TXN_WRITE ?w1 = Some (None, new, be1, w2)"
    and p: "VmDirPersistLog env (rw_st w2) l = (None, st)"
    and c: "(if new then commit_log te be1 w2 else Some (None, be1, w2)) = Some (None, be2, w3)"
    and w': "w' = w3\<lparr>rw_st := st, rw_rs := (rw_rs w3)\<lparr>lastLogIndex := unat (log_index l)\<rparr>\<rparr>"
    using assms(1) by (auto simp: VmDirAddRaftEntry_def Let_def split: if_splits option.splits bind_splits prod.splits)
  obtain c1 calls1 where w2: "w2 = ?w1\<lparr>tw_ctx := Some (t\<lparr>logDbTxnCtx := c1\<rparr>), tw_calls := calls1\<rparr>"
  proof -
    have "\<not> te_main te (pBE ?be)" and "tw_ctx ?w1 = Some t" using assms(2,3) by simp_all
    from begin_log_world [OF b this] that show ?thesis by blast
  qed
  obtain c2 calls2 where w3: "w3 = w2\<lparr>tw_ctx := Some (t\<lparr>logDbTxnCtx := c2\<rparr>), tw_calls := calls2\<rparr>"
  proof (cases new)
    case True
    then have "commit_log te be1 w2 = Some (None, be2, w3)" and "tw_ctx w2 = Some (t\<lparr>logDbTxnCtx := c1\<rparr>)"
      using c w2 by simp_all
    from commit_log_world [OF this] that show ?thesis by fastforce
  next
    case False
    then have "w3 = w2" using c by simp
    with w2 that [where ?c2.0 = c1 and ?calls2.0 = calls1] show ?thesis by simp
  qed
  have "st = (rw_st w)\<lparr>logs_current := (unat (log_index l), case packRaftLog l of None \<Rightarrow> [] | Some b \<Rightarrow> b) # logs_current (rw_st w)\<rparr>"
    using p w2 by (auto simp: VmDirPersistLog_def split: option.splits if_splits)
  then show ?thesis using that [where c = c2 and calls = calls2] w' w2 w3 by (simp add: added_entry_def)
qed

lemma multi_size_ge: "l \<in> set xs \<Longrightarrow> 24 + length (chglog l) \<le> multi_size xs"
  by (induction xs) (auto simp: multi_size_def)

lemma encode_pack:
  assumes rep: "deque_rep h\<^sub>0 (tw_heap w, Some (chgLogs t)) xs" and xs: "xs \<noteq> []" "length xs < 2 ^ 64"
    and nz: "log_index (hd xs) \<noteq> 0" and small: "24 + multi_size xs < 2 ^ 31" and mem: "\<forall>n. env_mem env n"
    and t: "tw_ctx w = Some t"
  obtains l q where "log_index l = log_index (hd xs)" and "log_term l = log_term (hd xs)"
    and "packRaftLog l = Some (logs_payload xs)" and "deque_rep h\<^sub>0 (h\<^sub>0, Some q) []"
    and "VmDirEncodeLogEntry env te ce w =
      do { (err, w2) \<leftarrow> VmDirAddRaftEntry env te ce l (w\<lparr>tw_ctx := Some (t\<lparr>chgLogs := q\<rparr>), tw_heap := h\<^sub>0\<rparr>);
           if err \<noteq> None then Some (err, w2) else Some (None, w2\<lparr>rw_log := l\<rparr>) }"
proof -
  obtain y ys where xs': "xs = y # ys" using xs(1) by (cases xs) auto
  have sz: "iSize (chgLogs t) = length xs"
    using rep xs(2) by (auto elim!: deque_repE simp: wrap64_id)
  show ?thesis
  proof (cases "ys = []")
    case True
    obtain h' d' where pop: "dequePopLeft True (tw_heap w) (Some (chgLogs t)) = Some (None, Some y, h', d')"
      and r: "deque_rep h\<^sub>0 (h', d') []"
      using deque_popleft [OF rep [unfolded xs' True]] by auto
    obtain q where q: "d' = Some q" using r by (rule deque_repE)
    have "VmDirPackLogEntry (env_mem env) y = Some (None, unpacked y)"
      using small mem multi_size_ge [of y xs] xs' by (intro pack_log_entry) auto
    then show ?thesis
      using that [of "unpacked y" q] t sz pop r deque_rep_empty [OF r] xs' True q
      by (simp add: VmDirEncodeLogEntry_def logs_payload_def unpacked_fields Let_def)
  next
    case False
    obtain d' where pk: "VmDirPackLogEntries (env_mem env) (ce_uninit ce) empty_log (tw_heap w) (Some (chgLogs t)) =
           Some (None, empty_log\<lparr>packRaftLog := Some (multi_bytes (y # ys)), log_index := log_index y,
                            log_term := log_term y, log_entryId := 0, log_requestCode := 1\<rparr>, h\<^sub>0, d')"
      and r: "deque_rep h\<^sub>0 (h\<^sub>0, d') []"
      using pack_log_entries [OF rep [unfolded xs'], of "env_mem env" "ce_uninit ce" empty_log] nz small mem xs' by auto
    obtain q where q: "d' = Some q" using r by (rule deque_repE)
    show ?thesis
      using that [of "empty_log\<lparr>packRaftLog := Some (multi_bytes (y # ys)), log_index := log_index y,
                            log_term := log_term y, log_entryId := 0, log_requestCode := 1\<rparr>" q] t sz pk r xs' False q
      by (simp add: VmDirEncodeLogEntry_def logs_payload_def Let_def)
  qed
qed

text \<open>A parent transaction that is about to be committed with the change logs \<open>xs\<close>.\<close>

definition ready_commit :: "txn_env \<Rightarrow> be_ctx \<Rightarrow> thread_txn \<Rightarrow> raft_world \<Rightarrow> bool" where
  "ready_commit te be t w \<longleftrightarrow> tw_ctx w = Some t \<and> te_main te (pBE be) \<and> txnBE (mainDbTxnCtx t) = Some (pBE be) \<and>
     txnState (mainDbTxnCtx t) \<in> {TXN_USER_IN_PROGRESS, TXN_OP_IN_PROGRESS} \<and> pTxnParent (mainDbTxnCtx t) \<noteq> None \<and>
     pTxnChild (mainDbTxnCtx t) = None"

lemma commit_is_parent:
  "ready_commit te be t w \<Longrightarrow> VmDirMDBTxnCommit env te ce be w = commit_parent env te ce be w"
  by (auto simp: ready_commit_def VmDirMDBTxnCommit_def Let_def)

lemma commit_parent_ok:
  assumes "commit_parent env te ce be w = Some (None, be', w')"
  obtains w1 t p w2 where "VmDirEncodeLogEntry env te ce w = Some (None, w1)" and "tw_ctx w1 = Some t"
    and "pTxnParent (mainDbTxnCtx t) = Some p"
    and "mdb_txn_commit env ce (txnMode (mainDbTxnCtx t) = VDIR_BACKEND_TXN_READ) p w1 = (None, w2)"
    and "w' = w2\<lparr>tw_ctx := Some (t\<lparr>mainDbTxnCtx := end_commit (mainDbTxnCtx t)\<rparr>)\<rparr>"
  using assms commit_error_error
  by (fastforce simp: commit_parent_def Let_def split: bind_splits option.splits prod.splits)

lemma mdb_commit_ok:
  assumes "mdb_txn_commit env ce False p w = (None, w')" and "ce_dirty ce"
  obtains ctx rs l n where "VmDirRaftPrepareCommit env (ce_sched ce) (ce_ov ce) (rw_log w) (rw_rs w) = (None, ctx, rs, l, n)"
    and "rw_rs w' = rs" and "rw_log w' = l" and "rw_pend w' = None"
    and "rw_st w' = (case rw_pend w of None \<Rightarrow> rw_st w | Some v \<Rightarrow> (rw_st w)\<lparr>st_lastApplied := v\<rparr>)"
    and "tw_calls w' = tw_calls w @ [MdbCommit p None]"
  using assms
  by (auto simp: mdb_txn_commit_def commit_durable_def VmDirRaftPostCommit_def Let_def split: prod.splits if_splits option.splits)

lemma encode_world:
  assumes "VmDirEncodeLogEntry env te ce w = Some (None, w')" and "\<not> te_main te (ce_logbe ce)" and "tw_ctx w = Some t"
    and rep: "deque_rep h\<^sub>0 (tw_heap w, Some (chgLogs t)) xs" and xs: "xs \<noteq> []" "length xs < 2 ^ 64"
    and nz: "log_index (hd xs) \<noteq> 0" and small: "24 + multi_size xs < 2 ^ 31" and mem: "\<forall>n. env_mem env n"
  obtains l c calls q where "w' = (added_entry l w)\<lparr>tw_ctx := Some (t\<lparr>chgLogs := q, logDbTxnCtx := c\<rparr>), tw_heap := h\<^sub>0,
      tw_calls := calls, rw_log := l\<rparr>"
    and "log_index l = log_index (hd xs)" and "log_term l = log_term (hd xs)" and "packRaftLog l = Some (logs_payload xs)"
proof -
  obtain l q where l: "log_index l = log_index (hd xs)" "log_term l = log_term (hd xs)"
     "packRaftLog l = Some (logs_payload xs)"
    and enc: "VmDirEncodeLogEntry env te ce w =
      do { (err, w2) \<leftarrow> VmDirAddRaftEntry env te ce l (w\<lparr>tw_ctx := Some (t\<lparr>chgLogs := q\<rparr>), tw_heap := h\<^sub>0\<rparr>);
           if err \<noteq> None then Some (err, w2) else Some (None, w2\<lparr>rw_log := l\<rparr>) }"
    by (rule encode_pack [OF rep xs nz small mem assms(3)])
  let ?w = "w\<lparr>tw_ctx := Some (t\<lparr>chgLogs := q\<rparr>), tw_heap := h\<^sub>0\<rparr>"
  obtain w2 where add: "VmDirAddRaftEntry env te ce l ?w = Some (None, w2)" and w': "w' = w2\<lparr>rw_log := l\<rparr>"
    using assms(1) unfolding enc by (auto split: bind_splits if_splits)
  have "tw_ctx ?w = Some (t\<lparr>chgLogs := q\<rparr>)" by simp
  then obtain c calls where "w2 = (added_entry l ?w)\<lparr>tw_ctx := Some ((t\<lparr>chgLogs := q\<rparr>)\<lparr>logDbTxnCtx := c\<rparr>), tw_calls := calls\<rparr>"
    using add_raft_entry_world [OF add assms(2)] by blast
  then show ?thesis
    using that [where l = l and q = q and c = c and calls = calls] l w' by (simp add: added_entry_def)
qed

lemma commit_done_ok:
  assumes "raft_commit_done env l rs = (None, ctx, rs')" and "log_index l \<noteq> 0"
  shows "role rs' = role rs \<and> currentTerm rs' = currentTerm rs \<and> clusterSize rs' = clusterSize rs \<and> proxies rs' = proxies rs \<and>
    commitIndex rs' = unat (log_index l) \<and> lastLogIndex rs' = unat (log_index l)"
  using assms by (auto simp: raft_commit_done_def Let_def split: option.splits)


text \<open>A leader of three with one change collected.\<close>

definition chg_log :: raft_log where
  "chg_log = log_7_2\<lparr>log_entryId := 0x2000000000000001, chglog := [1, 2, 3]\<rparr>"

definition writing_thread :: thread_txn where
  "writing_thread = (the (tw_ctx busy_thread))\<lparr>chgLogs := \<lparr>pHead = Some 1, pTail = Some 1, iSize = 1\<rparr>\<rparr>"

definition empty_store :: raft_store where
  "empty_store = \<lparr>st_term = 2, st_lastApplied = 6, st_firstLogIndex = 1, st_votedForTerm = 2, logs_current = [], logs_previous = []\<rparr>"

definition writing_world :: raft_world where
  "writing_world = \<lparr>tw_ctx = Some writing_thread, tw_heap = [1 \<mapsto> \<lparr>pElement = chg_log, pPrev = None, pNext = None\<rparr>],
     tw_calls = [MdbBegin None False (Inr 1)], rw_rs = leader_of_three, rw_st = empty_store, rw_log = empty_log, rw_pend = None\<rparr>"

definition plain_commit :: commit_env where
  "plain_commit = \<lparr>ce_setup = None, ce_attrs = None, ce_logbe = 1, ce_uninit = 0, ce_dirty = True, ce_flush = None,
     ce_meta = None, ce_ov = 0, ce_sched = one_answered\<rparr>"

lemma writing_rep: "deque_rep Map.empty (tw_heap writing_world, Some (chgLogs writing_thread)) [chg_log]"
  by (rule deque_repI [of "[(1, chg_log)]"])
     (auto simp: writing_world_def writing_thread_def seg_last_def heap_minus_def wrap64_def)

lemma one_answered_good: "log_term l = 2 \<Longrightarrow> good_sched one_answered l 5"
  by (auto simp: good_sched_def good_wait_def one_answered_def leads_def leader_of_three_def
      peers_idle_def VmDirPeersIdleInLock_def VmDirGetAppendEntriesConsensusCountInLock_def idle_peer_def)

lemma writing_adds:
  assumes "packRaftLog l = Some b" and "tw_ctx w = Some (writing_thread\<lparr>chgLogs := q\<rparr>)" and "rw_st w = empty_store"
  shows "\<exists>w'. VmDirAddRaftEntry peers_env plain_env plain_commit l w = Some (None, w')"
  using assms
  by (simp add: VmDirAddRaftEntry_def plain_commit_def peers_env_def VmDirMDBTxnBegin_def VmDirAllocAndSetThrTxnCtx_def
      plain_env_def writing_thread_def busy_thread_def begin_log_def log_txn_flag_def empty_thread_txn_def empty_txn_def
      mdb_begin_def set_ctx_def VmDirPersistLog_def VmDirIsEntryInCurrentLog_def empty_store_def commit_log_def Let_def)

lemma consensus_commits:
  assumes "get_consensus sc l 0 0 rs = (None, n, rs1)" and "2 \<le> clusterSize rs" and "log_index l \<noteq> 0" and "env_mem env 16"
  shows "\<exists>r. VmDirRaftPrepareCommit env sc 0 l rs = (None, r)"
  using assms by (simp add: VmDirRaftPrepareCommit_def raft_commit_done_def Let_def VmDirAllocateMemory_def)

lemma writing_commits:
  "\<exists>be' w'. VmDirMDBTxnCommit peers_env plain_env plain_commit (be_of 0 None) writing_world = Some (None, be', w')"
proof -
  have rdy: "ready_commit plain_env (be_of 0 None) writing_thread writing_world"
    by (simp add: ready_commit_def writing_world_def writing_thread_def busy_thread_def plain_env_def be_of_def
        empty_thread_txn_def empty_txn_def)
  obtain l q where l: "log_index l = log_index (hd [chg_log])" "log_term l = log_term (hd [chg_log])"
     "packRaftLog l = Some (logs_payload [chg_log])"
    and enc: "VmDirEncodeLogEntry peers_env plain_env plain_commit writing_world =
      do { (err, w2) \<leftarrow> VmDirAddRaftEntry peers_env plain_env plain_commit l
             (writing_world\<lparr>tw_ctx := Some (writing_thread\<lparr>chgLogs := q\<rparr>), tw_heap := Map.empty\<rparr>);
           if err \<noteq> None then Some (err, w2) else Some (None, w2\<lparr>rw_log := l\<rparr>) }"
    by (rule encode_pack [OF writing_rep])
       (auto simp: chg_log_def log_7_2_def multi_size_def peers_env_def writing_world_def)
  let ?w = "writing_world\<lparr>tw_ctx := Some (writing_thread\<lparr>chgLogs := q\<rparr>), tw_heap := Map.empty\<rparr>"
  obtain w2 where add: "VmDirAddRaftEntry peers_env plain_env plain_commit l ?w = Some (None, w2)"
    using writing_adds [OF l(3), of ?w q] by (auto simp: writing_world_def)
  have "\<not> te_main plain_env (ce_logbe plain_commit)" and "tw_ctx ?w = Some (writing_thread\<lparr>chgLogs := q\<rparr>)"
    by (simp_all add: plain_env_def plain_commit_def)
  then obtain c calls where w2: "w2 = (added_entry l ?w)\<lparr>tw_ctx := Some ((writing_thread\<lparr>chgLogs := q\<rparr>)\<lparr>logDbTxnCtx := c\<rparr>), tw_calls := calls\<rparr>"
    by (rule add_raft_entry_world [OF add])
  have lead: "leads l (rw_rs (w2\<lparr>rw_log := l\<rparr>))"
    using l by (simp add: leads_def w2 added_entry_def writing_world_def leader_of_three_def chg_log_def log_7_2_def)
  have "log_term l = 2" using l by (simp add: chg_log_def log_7_2_def)
  from get_consensus_live [OF one_answered_good [OF this] _ lead, of 0 0]
  obtain n rs where "get_consensus one_answered l 0 0 (rw_rs w2) = (None, n, rs)" by auto
  moreover have "2 \<le> clusterSize (rw_rs w2)"
    by (simp add: w2 added_entry_def writing_world_def leader_of_three_def)
  moreover have "log_index l \<noteq> 0" and "env_mem peers_env 16"
    using l by (simp_all add: chg_log_def log_7_2_def peers_env_def)
  ultimately obtain rs' where "VmDirRaftPrepareCommit peers_env one_answered 0 l (rw_rs w2) = (None, rs')"
    using consensus_commits by blast
  then have "\<exists>w3. mdb_txn_commit peers_env plain_commit False 1 (w2\<lparr>rw_log := l\<rparr>) = (None, w3)"
    by (cases rs') (simp add: mdb_txn_commit_def plain_commit_def Let_def)
  then show ?thesis
    using enc add w2
    by (auto simp: commit_is_parent [OF rdy] commit_parent_def writing_thread_def busy_thread_def Let_def)
qed



section \<open>The transactions stay in step with the library\<close>

lemma txn_inv_raft [simp]:
  "txn_inv h\<^sub>0 xs (w\<lparr>rw_rs := a\<rparr>) = txn_inv h\<^sub>0 xs w" "txn_inv h\<^sub>0 xs (w\<lparr>rw_st := b\<rparr>) = txn_inv h\<^sub>0 xs w"
  "txn_inv h\<^sub>0 xs (w\<lparr>rw_log := c\<rparr>) = txn_inv h\<^sub>0 xs w" "txn_inv h\<^sub>0 xs (w\<lparr>rw_pend := d\<rparr>) = txn_inv h\<^sub>0 xs w"
  by (simp_all add: txn_inv_def split: option.split)

lemma end_op_ok [simp]:
  "main_ok ((end_op c)\<lparr>txnBE := b\<rparr>)" "log_ok ((end_op c)\<lparr>txnBE := b\<rparr>)" "ctx_open ((end_op c)\<lparr>txnBE := b\<rparr>) = {}"
  "closed R \<Longrightarrow> apart R ((end_op c)\<lparr>txnBE := b\<rparr>)"
  by (simp_all add: end_op_def main_ok_def log_ok_def)

lemma commit_error_inv:
  assumes inv: "txn_inv h\<^sub>0 xs w" and t: "tw_ctx w = Some t"
  shows "\<exists>err be' w'. commit_error main e be w = Some (err, be', w') \<and> txn_inv h\<^sub>0 [] w'"
proof -
  note ctx = txn_invD [OF inv t]
  obtain q where q: "VmDirFreeTxnLogs (t, tw_heap w) = Some (t\<lparr>chgLogs := q\<rparr>, h\<^sub>0)" "deque_rep h\<^sub>0 (h\<^sub>0, Some q) []"
    using free_txn_logs [OF ctx(5,6)] by blast
  let ?c = "if main then mainDbTxnCtx t else logDbTxnCtx t"
  let ?d = "if main then logDbTxnCtx t else mainDbTxnCtx t"
  have "apart (ctx_open ?d) ?c"
    using ctx(4) apart_sym [OF ctx(4) log_ok_ctx_ok [OF ctx(2)] main_ok_ctx_ok [OF ctx(1)]] by simp
  moreover have "ctx_ok ?c" using main_ok_ctx_ok [OF ctx(1)] log_ok_ctx_ok [OF ctx(2)] by simp
  moreover have "outstanding (tw_calls w) = ctx_open ?c \<union> ctx_open ?d" using ctx(3) by auto
  ultimately have out: "outstanding (abort_call (pTxnParent ?c) (tw_calls w)) = ctx_open ?d" by (rule abort_parent)
  let ?t = "set_ctx main ((end_op ?c)\<lparr>txnBE := None\<rparr>) (t\<lparr>chgLogs := q\<rparr>)"
  let ?w = "w\<lparr>tw_ctx := Some ?t, tw_heap := h\<^sub>0, tw_calls := abort_call (pTxnParent ?c) (tw_calls w)\<rparr>"
  have "txn_inv h\<^sub>0 [] ?w"
    using ctx(1-4) out q(2) by (intro txn_invI [of _ ?t]) (auto simp: set_ctx_def)
  then show ?thesis
    using t q(1) by (cases main) (simp_all add: commit_error_def Let_def)
qed

lemma commit_log_inv:
  assumes inv: "txn_inv h\<^sub>0 xs w" and t: "tw_ctx w = Some t"
    and st: "txnState (logDbTxnCtx t) = TXN_OP_IN_PROGRESS"
  shows "\<exists>err be' w' ys. commit_log te be w = Some (err, be', w') \<and> txn_inv h\<^sub>0 ys w' \<and> (err = None \<longrightarrow> ys = xs)"
proof -
  note ctx = txn_invD [OF inv t]
  let ?c = "logDbTxnCtx t"
  obtain p where p: "pTxnParent ?c = Some p" "txnBE ?c \<noteq> None" "pTxnChild ?c = None"
    using ctx(2) st by (auto simp: log_ok_def)
  let ?r = "te_commit te (tw_calls w) p"
  let ?w = "w\<lparr>tw_ctx := Some (t\<lparr>logDbTxnCtx := end_commit ?c\<rparr>), tw_calls := tw_calls w @ [MdbCommit p ?r]\<rparr>"
  have "outstanding (tw_calls w @ [MdbCommit p ?r]) = ctx_open (mainDbTxnCtx t)"
    using end_parent [OF apart_sym [OF ctx(4) log_ok_ctx_ok [OF ctx(2)] main_ok_ctx_ok [OF ctx(1)]] log_ok_ctx_ok [OF ctx(2)] p(1)]
    by (simp add: ctx(3) Un_commute)
  then have inv1: "txn_inv h\<^sub>0 xs ?w"
    using ctx p by (intro txn_invI [of _ "t\<lparr>logDbTxnCtx := end_commit ?c\<rparr>"]) (simp_all add: end_commit_def log_ok_def)
  show ?thesis
  proof (cases ?r)
    case None
    then show ?thesis using inv1 t p st by (simp add: commit_log_def Let_def)
  next
    case (Some e)
    obtain err be' w' where "commit_error False e be ?w = Some (err, be', w')" "txn_inv h\<^sub>0 [] w'"
      using commit_error_inv [OF inv1, of _ False e be] by auto
    then show ?thesis using Some t p st commit_error_error [of False e be ?w err be' w'] by (auto simp: commit_log_def Let_def)
  qed
qed

lemma begin_log_state:
  assumes "VmDirMDBTxnBegin te be mode w = Some (None, new, be', w')" and "\<not> te_main te (pBE be)"
  shows "\<exists>t. tw_ctx w' = Some t \<and> txnState (logDbTxnCtx t) = TXN_OP_IN_PROGRESS \<and> pBE be' = pBE be"
  using assms
  by (auto simp: VmDirMDBTxnBegin_def VmDirAllocAndSetThrTxnCtx_def set_ctx_def begin_log_def Let_def
      split: option.splits bind_splits sum.splits if_splits txn_state.splits prod.splits)

lemma abort_log_inv:
  assumes inv: "txn_inv h\<^sub>0 xs w" and t: "tw_ctx w = Some t" and "\<not> te_main te (pBE be)"
    and st: "txnState (logDbTxnCtx t) = TXN_OP_IN_PROGRESS"
  shows "\<exists>be' w'. VmDirMDBTxnAbort te be w = Some (be', w') \<and> txn_inv h\<^sub>0 xs w'"
proof -
  note ctx = txn_invD [OF inv t]
  let ?c = "logDbTxnCtx t"
  obtain p where p: "pTxnParent ?c = Some p" "txnBE ?c \<noteq> None" "pTxnChild ?c = None"
    using ctx(2) st by (auto simp: log_ok_def)
  let ?d = "?c\<lparr>pTxnParent := None, txnState := TXN_NONE\<rparr>"
  have "outstanding (abort_call (Some p) (tw_calls w)) = ctx_open (mainDbTxnCtx t)"
    using abort_parent [OF apart_sym [OF ctx(4) log_ok_ctx_ok [OF ctx(2)] main_ok_ctx_ok [OF ctx(1)]] log_ok_ctx_ok [OF ctx(2)]]
    by (simp add: ctx(3) Un_commute p(1))
  then have "txn_inv h\<^sub>0 xs (w\<lparr>tw_ctx := Some (t\<lparr>logDbTxnCtx := ?d\<rparr>), tw_calls := abort_call (Some p) (tw_calls w)\<rparr>)"
    using ctx p by (intro txn_invI [of _ "t\<lparr>logDbTxnCtx := ?d\<rparr>"]) (simp_all add: log_ok_def)
  then show ?thesis using assms(3) t p st by (simp add: VmDirMDBTxnAbort_def Let_def)
qed

text \<open>A thread that has a context keeps it.\<close>

lemma begin_has_ctx: "VmDirMDBTxnBegin te be mode w = Some (err, new, be', w') \<Longrightarrow> tw_ctx w \<noteq> None \<Longrightarrow> tw_ctx w' \<noteq> None"
  by (auto simp: VmDirMDBTxnBegin_def VmDirAllocAndSetThrTxnCtx_def Let_def split: option.splits bind_splits if_splits)

lemma abort_has_ctx: "VmDirMDBTxnAbort te be w = Some (be', w') \<Longrightarrow> tw_ctx w' \<noteq> None"
  by (auto simp: VmDirMDBTxnAbort_def Let_def split: option.splits bind_splits if_splits)

lemma commit_error_has_ctx: "commit_error main e be w = Some (err, be', w') \<Longrightarrow> tw_ctx w' \<noteq> None"
  by (auto simp: commit_error_def Let_def split: bind_splits)

lemma commit_log_has_ctx: "commit_log te be w = Some (err, be', w') \<Longrightarrow> tw_ctx w' \<noteq> None"
  by (auto simp: commit_log_def Let_def split: bind_splits if_splits option.splits dest: commit_error_has_ctx)

lemma add_raft_entry_inv:
  assumes inv: "txn_inv h\<^sub>0 xs w" and t: "tw_ctx w = Some t" and fresh: "fresh_handles te"
    and lb: "\<not> te_main te (ce_logbe ce)" "txnBE (logDbTxnCtx t) \<in> {None, Some (ce_logbe ce)}"
  shows "\<exists>err w' ys. VmDirAddRaftEntry env te ce l w = Some (err, w') \<and> txn_inv h\<^sub>0 ys w' \<and>
           (err = None \<longrightarrow> ys = xs) \<and> tw_ctx w' \<noteq> None"
proof (cases "ce_setup ce \<noteq> None \<or> env_modify env \<noteq> None \<or> ce_attrs ce \<noteq> None")
  case True
  then show ?thesis using inv t by (auto simp: VmDirAddRaftEntry_def Let_def)
next
  case False
  let ?w1 = "w\<lparr>rw_pend := Some (unat (log_index l))\<rparr>"
  let ?be = "\<lparr>pBE = ce_logbe ce, be_pszTxnId = None, pBEPrivate = None\<rparr>"
  have "txn_inv h\<^sub>0 xs ?w1" using inv by simp
  from txn_begin_keeps [OF this fresh, of ?be VDIR_BACKEND_TXN_WRITE] lb t
  obtain err new be1 w2 ys where b: "VmDirMDBTxnBegin te ?be VDIR_BACKEND_TXN_WRITE ?w1 = Some (err, new, be1, w2)"
    and inv2: "txn_inv h\<^sub>0 ys w2" and ys: "err = None \<longrightarrow> ys = xs"
    by auto
  show ?thesis
  proof (cases err)
    case (Some e)
    then show ?thesis using False b inv2 begin_has_ctx [OF b] t by (auto simp: VmDirAddRaftEntry_def Let_def)
  next
    case None
    obtain t2 where t2: "tw_ctx w2 = Some t2" "txnState (logDbTxnCtx t2) = TXN_OP_IN_PROGRESS" "pBE be1 = ce_logbe ce"
      using begin_log_state [OF b [unfolded None]] lb(1) by auto
    obtain err1 st where p: "VmDirPersistLog env (rw_st w2) l = (err1, st)" by fastforce
    obtain be2 w3 where ab: "VmDirMDBTxnAbort te be1 w2 = Some (be2, w3)" "txn_inv h\<^sub>0 xs w3"
      using abort_log_inv [OF inv2 t2(1) _ t2(2), of te be1] lb(1) t2(3) None ys by auto
    obtain err3 be3 w4 zs where cm: "commit_log te be1 w2 = Some (err3, be3, w4)" "txn_inv h\<^sub>0 zs w4" "err3 = None \<longrightarrow> zs = xs"
      using commit_log_inv [OF inv2 t2(1,2), of te be1] None ys by auto
    show ?thesis
      using False b p ab cm inv2 ys None t2(1) abort_has_ctx [OF ab(1)] commit_log_has_ctx [OF cm(1)]
      by (cases err1; cases new; cases err3) (auto simp: VmDirAddRaftEntry_def Let_def)
  qed
qed

lemma encode_inv:
  assumes inv: "txn_inv h\<^sub>0 xs w" and t: "tw_ctx w = Some t" and fresh: "fresh_handles te"
    and lb: "\<not> te_main te (ce_logbe ce)" "txnBE (logDbTxnCtx t) \<in> {None, Some (ce_logbe ce)}"
    and mem: "\<forall>n. env_mem env n" and small: "24 + multi_size xs < 2 ^ 31" and nz: "xs \<noteq> [] \<longrightarrow> log_index (hd xs) \<noteq> 0"
  shows "\<exists>err w' ys. VmDirEncodeLogEntry env te ce w = Some (err, w') \<and> txn_inv h\<^sub>0 ys w' \<and>
           tw_ctx w' \<noteq> None \<and>
           (err = None \<longrightarrow> ys = [] \<and> (\<exists>t'. tw_ctx w' = Some t' \<and> mainDbTxnCtx t' = mainDbTxnCtx t))"
proof (cases "xs = []")
  case True
  then have "iSize (chgLogs t) = 0"
    using txn_invD(5) [OF inv t] by (auto elim!: deque_repE simp: wrap64_def)
  then show ?thesis using inv t True by (auto simp: VmDirEncodeLogEntry_def)
next
  case False
  note ctx = txn_invD [OF inv t]
  obtain l q where q: "deque_rep h\<^sub>0 (h\<^sub>0, Some q) []" and enc: "VmDirEncodeLogEntry env te ce w =
      do { (err, w2) \<leftarrow> VmDirAddRaftEntry env te ce l (w\<lparr>tw_ctx := Some (t\<lparr>chgLogs := q\<rparr>), tw_heap := h\<^sub>0\<rparr>);
           if err \<noteq> None then Some (err, w2) else Some (None, w2\<lparr>rw_log := l\<rparr>) }"
    by (rule encode_pack [OF ctx(5) False ctx(6) mp [OF nz False] small mem t])
  let ?w = "w\<lparr>tw_ctx := Some (t\<lparr>chgLogs := q\<rparr>), tw_heap := h\<^sub>0\<rparr>"
  have inv1: "txn_inv h\<^sub>0 [] ?w" and t1: "tw_ctx ?w = Some (t\<lparr>chgLogs := q\<rparr>)"
    using ctx q by (auto intro: txn_invI [of _ "t\<lparr>chgLogs := q\<rparr>"])
  obtain err w2 ys where add: "VmDirAddRaftEntry env te ce l ?w = Some (err, w2)" "txn_inv h\<^sub>0 ys w2" "err = None \<longrightarrow> ys = []"
      "tw_ctx w2 \<noteq> None"
    using add_raft_entry_inv [OF inv1 t1 fresh lb(1), of env l] lb(2) by auto
  show ?thesis
  proof (cases err)
    case None
    then obtain c calls where "w2 = (added_entry l ?w)\<lparr>tw_ctx := Some ((t\<lparr>chgLogs := q\<rparr>)\<lparr>logDbTxnCtx := c\<rparr>), tw_calls := calls\<rparr>"
      using add_raft_entry_world [of env te ce l ?w w2, OF _ lb(1) t1] add(1) by blast
    then show ?thesis using None enc add by auto
  next
    case (Some e)
    then show ?thesis using enc add by auto
  qed
qed

lemma mdb_commit_world:
  "mdb_txn_commit env ce rd p w = (r, w') \<Longrightarrow>
     tw_ctx w' = tw_ctx w \<and> tw_heap w' = tw_heap w \<and> tw_calls w' = tw_calls w @ [MdbCommit p r]"
  by (auto simp: mdb_txn_commit_def commit_durable_def Let_def split: if_splits prod.splits)

lemma commit_parent_inv:
  assumes inv: "txn_inv h\<^sub>0 xs w" and rdy: "ready_commit te be t w" and fresh: "fresh_handles te"
    and lb: "\<not> te_main te (ce_logbe ce)" "txnBE (logDbTxnCtx t) \<in> {None, Some (ce_logbe ce)}"
    and mem: "\<forall>n. env_mem env n" and small: "24 + multi_size xs < 2 ^ 31" and nz: "xs \<noteq> [] \<longrightarrow> log_index (hd xs) \<noteq> 0"
  shows "\<exists>err be' w'. commit_parent env te ce be w = Some (err, be', w') \<and> txn_inv h\<^sub>0 [] w'"
proof -
  have t: "tw_ctx w = Some t" using rdy by (simp add: ready_commit_def)
  obtain err w1 ys t1 where enc: "VmDirEncodeLogEntry env te ce w = Some (err, w1)" "txn_inv h\<^sub>0 ys w1" "tw_ctx w1 = Some t1"
      "err = None \<longrightarrow> ys = [] \<and> mainDbTxnCtx t1 = mainDbTxnCtx t"
    using encode_inv [OF inv t fresh lb mem small nz] by fastforce
  show ?thesis
  proof (cases err)
    case (Some e)
    then show ?thesis using enc(1) commit_error_inv [OF enc(2,3), of True e be] by (auto simp: commit_parent_def)
  next
    case None
    note ctx = txn_invD [OF enc(2,3)]
    let ?c = "mainDbTxnCtx t1"
    have c: "pTxnChild ?c = None" "pTxnParent ?c \<noteq> None" using rdy enc(4) None by (auto simp: ready_commit_def)
    then obtain p where p: "pTxnParent ?c = Some p" by auto
    obtain r w2 where cm: "mdb_txn_commit env ce (txnMode ?c = VDIR_BACKEND_TXN_READ) p w1 = (r, w2)" by fastforce
    note w2 = mdb_commit_world [OF cm]
    let ?t = "t1\<lparr>mainDbTxnCtx := end_commit ?c\<rparr>"
    let ?w3 = "w2\<lparr>tw_ctx := Some ?t\<rparr>"
    have "outstanding (tw_calls w2) = ctx_open (logDbTxnCtx t1)"
      using end_parent [OF ctx(4) main_ok_ctx_ok [OF ctx(1)] p] w2 by (simp add: ctx(3))
    then have inv3: "txn_inv h\<^sub>0 ys ?w3" and t3: "tw_ctx ?w3 = Some ?t"
      using ctx w2 c by (auto intro!: txn_invI [of _ ?t] simp: end_commit_def main_ok_def)
    show ?thesis
      using enc(1,3,4) None p cm inv3 commit_error_inv [OF inv3 t3, of True _ be]
      by (cases r) (auto simp: commit_parent_def Let_def)
  qed
qed



text \<open>
  C28. Aborting one operation of a user transaction loses the log of the others: the abort of a
  child frees the change logs of the children committed before it; the commit of the user
  transaction that follows succeeds on any server, makes the earlier changes durable, and neither
  writes a log entry nor asks the cluster for consensus.
\<close>
theorem user_txn_abort_loses_logs:
  assumes inv: "txn_inv h\<^sub>0 xs w" and t: "tw_ctx w = Some t" and main: "te_main te (pBE be)"
    and st: "txnState (mainDbTxnCtx t) = TXN_USER_IN_PROGRESS" "pTxnChild (mainDbTxnCtx t) = Some k"
    and par: "pTxnParent (mainDbTxnCtx t) = Some p"
    and be: "txnBE (mainDbTxnCtx t) = Some (pBE be)" and log: "rw_log w = empty_log"
    and ce: "ce_dirty ce" "ce_flush ce = None" "ce_meta ce = None" "rw_pend w = None"
  shows "\<exists>be1 w1 be2 w2. VmDirMDBTxnAbort te be w = Some (be1, w1) \<and>
           VmDirMDBTxnCommit env te ce be1 w1 = Some (None, be2, w2) \<and>
           tw_calls w2 = tw_calls w @ [MdbAbort k, MdbCommit p None] \<and>
           rw_st w2 = rw_st w \<and> commitIndex (rw_rs w2) = commitIndex (rw_rs w) \<and> lastLogIndex (rw_rs w2) = lastLogIndex (rw_rs w)"
proof -
  note ctx = txn_invD [OF inv t]
  obtain q where q: "VmDirFreeTxnLogs (t, tw_heap w) = Some (t\<lparr>chgLogs := q\<rparr>, h\<^sub>0)" "deque_rep h\<^sub>0 (h\<^sub>0, Some q) []"
    using free_txn_logs [OF ctx(5,6)] by blast
  let ?c = "(mainDbTxnCtx t)\<lparr>pTxnChild := None\<rparr>"
  let ?t = "t\<lparr>chgLogs := q, mainDbTxnCtx := ?c\<rparr>"
  let ?w = "w\<lparr>tw_ctx := Some ?t, tw_heap := h\<^sub>0, tw_calls := tw_calls w @ [MdbAbort k]\<rparr>"
  have ab: "VmDirMDBTxnAbort te be w = Some (be\<lparr>pBEPrivate := None\<rparr>, ?w)"
    using txn_abort_main_eq [OF t main ctx(1) _ be _ q(1), of ?c "Some k"] st by (simp add: abort_main_def abort_call_def)
  have "iSize q = 0" using q(2) by (auto elim!: deque_repE simp: wrap64_def)
  then have enc: "VmDirEncodeLogEntry env te ce ?w = Some (None, ?w)" by (simp add: VmDirEncodeLogEntry_def)
  have "txnMode ?c \<noteq> VDIR_BACKEND_TXN_READ" using ctx(1) st by (auto simp: main_ok_def)
  moreover have "ready_commit te (be\<lparr>pBEPrivate := None\<rparr>) ?t ?w"
    using main be st par by (simp add: ready_commit_def)
  ultimately have "\<exists>be2 w2. VmDirMDBTxnCommit env te ce (be\<lparr>pBEPrivate := None\<rparr>) ?w = Some (None, be2, w2) \<and>
           tw_calls w2 = tw_calls w @ [MdbAbort k, MdbCommit p None] \<and>
           rw_st w2 = rw_st w \<and> commitIndex (rw_rs w2) = commitIndex (rw_rs w) \<and> lastLogIndex (rw_rs w2) = lastLogIndex (rw_rs w)"
    using enc par log ce
    by (simp add: commit_is_parent commit_parent_def mdb_txn_commit_def VmDirRaftPrepareCommit_def raft_commit_done_def
        commit_durable_def VmDirRaftPostCommit_def empty_log_def Let_def)
  then show ?thesis unfolding ab by blast
qed

definition user_thread :: thread_txn where
  "user_thread = writing_thread\<lparr>mainDbTxnCtx := (mainDbTxnCtx writing_thread)\<lparr>txnState := TXN_USER_IN_PROGRESS,
     pszTxnId := Some ''id'', pTxnChild := Some 3\<rparr>\<rparr>"

definition user_world :: raft_world where
  "user_world = writing_world\<lparr>tw_ctx := Some user_thread,
     tw_calls := [MdbBegin None False (Inr 1), MdbBegin (Some 1) False (Inr 2), MdbCommit 2 None, MdbBegin (Some 1) False (Inr 3)]\<rparr>"

lemma user_world_inv: "txn_inv Map.empty [chg_log] user_world"
  using writing_rep
  by (auto intro!: txn_invI [of _ user_thread] simp: user_world_def user_thread_def writing_world_def writing_thread_def
      busy_thread_def empty_thread_txn_def empty_txn_def main_ok_def log_ok_def ctx_open_def outstanding_def)

lemma user_txn_abort_loses_logs_witness:
  "\<exists>be1 w1 be2 w2. VmDirMDBTxnAbort plain_env (be_of 0 None) user_world = Some (be1, w1) \<and>
     VmDirMDBTxnCommit peers_env plain_env plain_commit be1 w1 = Some (None, be2, w2) \<and>
     tw_calls w2 = tw_calls user_world @ [MdbAbort 3, MdbCommit 1 None] \<and> logs_current (rw_st w2) = []"
proof -
  have "\<exists>be1 w1 be2 w2. VmDirMDBTxnAbort plain_env (be_of 0 None) user_world = Some (be1, w1) \<and>
     VmDirMDBTxnCommit peers_env plain_env plain_commit be1 w1 = Some (None, be2, w2) \<and>
     tw_calls w2 = tw_calls user_world @ [MdbAbort 3, MdbCommit 1 None] \<and> rw_st w2 = rw_st user_world \<and>
     commitIndex (rw_rs w2) = commitIndex (rw_rs user_world) \<and> lastLogIndex (rw_rs w2) = lastLogIndex (rw_rs user_world)"
    by (rule user_txn_abort_loses_logs [OF user_world_inv, of user_thread])
       (simp_all add: user_world_def user_thread_def writing_world_def writing_thread_def busy_thread_def plain_env_def
         be_of_def plain_commit_def empty_txn_def empty_thread_txn_def)
  then show ?thesis by (auto simp: user_world_def writing_world_def empty_store_def)
qed


definition standalone_world :: raft_world where
  "standalone_world = writing_world\<lparr>rw_rs := leader_of_three\<lparr>clusterSize := 1, proxies := []\<rparr>, rw_log := log_7_2\<rparr>"


end
