(* ===== verification/Raft_Replicate.thy ===== *)
theory Raft_Replicate
  imports Raft_Append Raft_Peers
begin

text \<open>
  The leader's side of log replication: \<open>_VmDirAppendEntriesRpc\<close> of
  \<open>lwraft/server/replication/thread.c\<close>, run by the thread of a peer, with the LDAP call of
  \<open>raftldaprpc.c\<close>. The peer is a parameter: \<open>ldap\<close> takes its state and a request and gives the
  outcome of the LDAP search and the peer's new state. The thread releases the mutex around
  calls; \<open>rs_lock\<close> is what the other threads have made of the Raft state when it locks for the
  \<open>n\<close>-th time, and \<open>rs_entries\<close> the value of \<open>gEntries\<close> then. The numbers in a reply travel as
  decimal strings; their conversion is not modelled.
\<close>

section \<open>The request\<close>

datatype ldap_result = LdapUnwilling | LdapFailure | LdapNoEntry | LdapReply nat nat

record rpc_sched =
  rs_lock :: "nat \<Rightarrow> raft_state \<Rightarrow> raft_state"
  rs_entries :: "nat \<Rightarrow> raft_log option"

type_synonym 'p ldap_peer = "'p \<Rightarrow> append_args \<Rightarrow> ldap_result \<times> 'p"

definition RAFT_PREVLOG_FETCH_MARGIN :: nat where
  "RAFT_PREVLOG_FETCH_MARGIN = 64"

definition set_proxy :: "nat \<Rightarrow> (peer_proxy \<Rightarrow> peer_proxy) \<Rightarrow> raft_state \<Rightarrow> raft_state" where
  "set_proxy i f rs = rs\<lparr>proxies := (proxies rs)[i := f (proxies rs ! i)]\<rparr>"

text \<open>
  One LDAP call: error, the peer's term and status, state, peer. Without an entry the single
  byte ``p'' is sent. \<open>ctrl\<close> is the result of encoding the request.
\<close>

definition VmDirRaftLdapRpcAppendEntries ::
  "rc \<Rightarrow> 'p ldap_peer \<Rightarrow> nat \<Rightarrow> append_args \<Rightarrow> raft_state \<Rightarrow> 'p \<Rightarrow> rc \<times> nat \<times> nat \<times> raft_state \<times> 'p" where
  "VmDirRaftLdapRpcAppendEntries ctrl ldap i a rs p =
     (if proxy_state (proxies rs ! i) = RPC_DISCONN then (Some VMDIR_ERROR_SERVER_DOWN, 0, 0, rs, p)
      else case ctrl of
             Some e \<Rightarrow> (Some e, 0, 0, rs, p)
           | None \<Rightarrow>
               (case ldap p (a\<lparr>ae_entries := (if length (ae_entries a) > 1 then ae_entries a else [0x70])\<rparr>) of
                  (LdapUnwilling, p') \<Rightarrow> (Some VMDIR_ERROR_UNWILLING_TO_PERFORM, 0, 0, rs, p')
                | (LdapFailure, p') \<Rightarrow>
                    (Some VMDIR_ERROR_CANNOT_CONNECT_VMDIR, 0, 0, set_proxy i (\<lambda>x. x\<lparr>proxy_state := RPC_DISCONN\<rparr>) rs, p')
                | (LdapNoEntry, p') \<Rightarrow> (Some VMDIR_ERROR_NOT_FOUND, 0, 0, rs, p')
                | (LdapReply trm status, p') \<Rightarrow> (None, trm, status, rs, p')))"

section \<open>The loop\<close>

text \<open>
  The variables of the function that live across the label \<open>ReplicateLog\<close>: the previous log of
  the next request, its entry, \<open>curChgLog\<close>, the number of locks so far, Raft state, store, peer.
\<close>

record 'p rpc_vars =
  rv_preLogIndex :: nat
  rv_preLogTerm :: nat
  rv_entries :: "bytes option"
  rv_cur :: raft_log
  rv_n :: nat
  rv_rs :: raft_state
  rv_st :: raft_store
  rv_peer :: 'p

text \<open>A stage either ends the function with an error code or goes on.\<close>

type_synonym ('p, 'a) rpc_stage = "(rc \<times> 'p rpc_vars + 'a) option"

definition relock :: "rpc_sched \<Rightarrow> 'p rpc_vars \<Rightarrow> 'p rpc_vars" where
  "relock sc v = v\<lparr>rv_n := rv_n v + 1, rv_rs := rs_lock sc (rv_n v) (rv_rs v)\<rparr>"

text \<open>
  From the label to the answer: the peer's status. A lost connection is made again at once; the
  index of the peer's proxy is \<open>i\<close>.
\<close>

definition rpc_send ::
  "raft_env \<Rightarrow> rpc_sched \<Rightarrow> rc \<Rightarrow> 'p ldap_peer \<Rightarrow> nat \<Rightarrow> string \<Rightarrow> 'p rpc_vars \<Rightarrow> ('p, nat \<times> 'p rpc_vars) rpc_stage" where
  "rpc_send env sc ctrl ldap i ldr v0 =
     (let v = relock sc v0; rs = rv_rs v in
      if role rs \<noteq> VDIR_RAFT_ROLE_LEADER then Some (Inl (None, v))
      else if rv_preLogIndex v < firstLogIndex rs then Some (Inl (Some LDAP_OPERATIONS_ERROR, v))
      else
        (case VmDirRaftLdapRpcAppendEntries ctrl ldap i
                \<lparr>ae_term = currentTerm rs, ae_leader = ldr, ae_preLogIndex = rv_preLogIndex v,
                 ae_preLogTerm = rv_preLogTerm v, ae_leaderCommit = commitIndex rs,
                 ae_entries = (case rv_entries v of None \<Rightarrow> [] | Some b \<Rightarrow> b)\<rparr> rs (rv_peer v) of
           (Some e, _, _, rs1, p) \<Rightarrow>
             Some (Inl (Some e, v\<lparr>rv_rs := (if proxy_state (proxies rs1 ! i) = RPC_DISCONN
                                           then VmDirLdapRpcConnect i rs1 else rs1), rv_peer := p\<rparr>))
         | (None, trm, status, rs1, p) \<Rightarrow>
             (let v1 = relock sc (v\<lparr>rv_rs := rs1, rv_peer := p\<rparr>); rs2 = rv_rs v1 in
              if trm > currentTerm rs2 then
                do {
                  st' \<leftarrow> VmDirPersistTerm env trm (rv_st v1);
                  Some (Inl (None, v1\<lparr>rv_rs := rs2\<lparr>role := VDIR_RAFT_ROLE_FOLLOWER, lastPingRecvTime := env_time env,
                                                currentTerm := trm\<rparr>, rv_st := st'\<rparr>))
                }
              else if role rs2 \<noteq> VDIR_RAFT_ROLE_LEADER then Some (Inl (None, v1))
              else Some (Inr (status, v1)))))"

text \<open>
  The peer lacks the previous log: fetch it, or one close to the peer's last log, as the entry
  of the next request.
\<close>

definition rpc_backward :: "raft_env \<Rightarrow> nat \<Rightarrow> 'p rpc_vars \<Rightarrow> ('p, 'p rpc_vars) rpc_stage" where
  "rpc_backward env status v =
     (let idx = (if rv_preLogIndex v > wrap64 (status + RAFT_PREVLOG_FETCH_MARGIN)
                 then wrap64 (status + RAFT_PREVLOG_FETCH_MARGIN) else rv_preLogIndex v);
          v0 = v\<lparr>rv_entries := None\<rparr>
      in do {
        (err, l) \<leftarrow> VmDirFetchLogEntry env (rv_rs v) (rv_st v) idx empty_log;
        if err \<noteq> None then Some (Inl (err, v0))
        else
          (let b = (case packRaftLog l of None \<Rightarrow> [] | Some b \<Rightarrow> b) in
           case VmDirAllocateAndCopyMemory (env_mem env) b of
             Some e \<Rightarrow> Some (Inl (Some e, v0))
           | None \<Rightarrow>
               do {
                 (err, pre) \<leftarrow> VmDirGetPrevLogArgs env (rv_rs v) (rv_st v) (dec64 (unat (log_index l)));
                 let v1 = v0\<lparr>rv_entries := Some b,
                             rv_preLogIndex := (case pre of None \<Rightarrow> rv_preLogIndex v | Some (j, t) \<Rightarrow> j),
                             rv_preLogTerm := (case pre of None \<Rightarrow> rv_preLogTerm v | Some (j, t) \<Rightarrow> t)\<rparr>;
                 if err \<noteq> None then Some (Inl (err, v1)) else Some (Inr v1)
               })
      })"

text \<open>The peer has the previous log and has stored the entry: what is known of the peer now.\<close>

definition rpc_matched ::
  "raft_env \<Rightarrow> rpc_sched \<Rightarrow> nat \<Rightarrow> raft_exec_cmd \<Rightarrow> nat \<Rightarrow> 'p rpc_vars \<Rightarrow> ('p, 'p rpc_vars) rpc_stage" where
  "rpc_matched env sc i cmnd startLogIndex v =
     do {
       (err, cur) \<leftarrow>
         (case rv_entries v of
            None \<Rightarrow> Some (None, rv_cur v)
          | Some b \<Rightarrow>
              (case VmDirAllocateAndCopyMemory (env_mem env) b of
                 Some e \<Rightarrow> Some (Some e, empty_log)
               | None \<Rightarrow> VmDirUnpackLogEntry (env_mem env) (empty_log\<lparr>packRaftLog := Some b\<rparr>)));
       if err \<noteq> None then Some (Inl (err, v\<lparr>rv_cur := cur\<rparr>))
       else
         (let rs1 = set_proxy i (\<lambda>x. x\<lparr>matchIndex := max (max (matchIndex x) (unat (log_index cur))) (rv_preLogIndex v)\<rparr>)
                      (rv_rs v);
              v1 = v\<lparr>rv_cur := cur, rv_rs := rs1\<rparr>;
              entries = rs_entries sc (rv_n v - 1)
          in if cmnd = ExecAppendEntries \<and> log_index cur > 0 \<and> entries \<noteq> None \<and> log_index cur = log_index (the entries)
             then Some (Inl (None, v1\<lparr>rv_rs := set_proxy i (\<lambda>x. x\<lparr>bLogReplicated := True\<rparr>) rs1\<rparr>))
             else if rv_preLogIndex v \<ge> startLogIndex then Some (Inl (None, v1))
             else Some (Inr v1))
     }"

text \<open>A gap is left: the next logs upwards.\<close>

definition rpc_forward ::
  "raft_env \<Rightarrow> raft_exec_cmd \<Rightarrow> nat \<Rightarrow> 'p rpc_vars \<Rightarrow> ('p, 'p rpc_vars) rpc_stage" where
  "rpc_forward env cmnd startLogIndex v =
     do {
       (err, l) \<leftarrow> VmDirGetNextLog env (rv_rs v) (rv_st v) (wrap64 (rv_preLogIndex v + 1)) startLogIndex empty_log;
       if log_index l = 0 then Some (Inl (if cmnd = ExecAppendEntries then err else Some LDAP_OPERATIONS_ERROR, v))
       else
         (let v1 = v\<lparr>rv_preLogIndex := unat (log_index l), rv_preLogTerm := unat (log_term l), rv_entries := None\<rparr> in
          do {
            (err, cur) \<leftarrow> VmDirGetNextLog env (rv_rs v) (rv_st v) (wrap64 (rv_preLogIndex v1 + 1)) startLogIndex empty_log;
            let v2 = v1\<lparr>rv_cur := cur\<rparr>;
            if err \<noteq> None then Some (Inl (err, v2))
            else if log_index cur = 0 then Some (Inr v2)
            else
              (let b = (case packRaftLog cur of None \<Rightarrow> [] | Some b \<Rightarrow> b) in
               case VmDirAllocateAndCopyMemory (env_mem env) b of
                 Some e \<Rightarrow> Some (Inl (Some e, v2))
               | None \<Rightarrow> Some (Inr (v2\<lparr>rv_entries := Some b\<rparr>)))
          })
     }"

definition replicate_step ::
  "raft_env \<Rightarrow> rpc_sched \<Rightarrow> rc \<Rightarrow> 'p ldap_peer \<Rightarrow> nat \<Rightarrow> string \<Rightarrow> raft_exec_cmd \<Rightarrow> nat \<Rightarrow> 'p rpc_vars \<Rightarrow>
     ('p, 'p rpc_vars) rpc_stage" where
  "replicate_step env sc ctrl ldap i ldr cmnd startLogIndex v =
     do {
       r \<leftarrow> rpc_send env sc ctrl ldap i ldr v;
       case r of
         Inl res \<Rightarrow> Some (Inl res)
       | Inr (status, v1) \<Rightarrow>
           (if status \<noteq> 0 then rpc_backward env status v1
            else do {
              r2 \<leftarrow> rpc_matched env sc i cmnd startLogIndex v1;
              case r2 of
                Inl res \<Rightarrow> Some (Inl res)
              | Inr v2 \<Rightarrow> rpc_forward env cmnd startLogIndex v2
            })
     }"

partial_function (option) replicate_loop ::
  "raft_env \<Rightarrow> rpc_sched \<Rightarrow> rc \<Rightarrow> 'p ldap_peer \<Rightarrow> nat \<Rightarrow> string \<Rightarrow> raft_exec_cmd \<Rightarrow> nat \<Rightarrow> 'p rpc_vars \<Rightarrow>
     (rc \<times> 'p rpc_vars) option" where
  "replicate_loop env sc ctrl ldap i ldr cmnd startLogIndex v =
     do {
       r \<leftarrow> replicate_step env sc ctrl ldap i ldr cmnd startLogIndex v;
       case r of
         Inl res \<Rightarrow> Some res
       | Inr v' \<Rightarrow> replicate_loop env sc ctrl ldap i ldr cmnd startLogIndex v'
     }"

text \<open>The whole function; the first lock has number 0, and another command trips an assertion.\<close>

definition VmDirAppendEntriesRpc ::
  "raft_env \<Rightarrow> rpc_sched \<Rightarrow> rc \<Rightarrow> 'p ldap_peer \<Rightarrow> nat \<Rightarrow> raft_exec_cmd \<Rightarrow> raft_state \<Rightarrow> raft_store \<Rightarrow> 'p \<Rightarrow>
     (rc \<times> 'p rpc_vars) option" where
  "VmDirAppendEntriesRpc env sc ctrl ldap i cmnd rs0 st p =
     (let rs = rs_lock sc 0 rs0;
          v = \<lparr>rv_preLogIndex = 0, rv_preLogTerm = 0, rv_entries = None, rv_cur = empty_log, rv_n = 1,
               rv_rs = rs, rv_st = st, rv_peer = p\<rparr>;
          begin = (\<lambda>entries startLogIndex from.
            do {
              (err, pre) \<leftarrow> VmDirGetPrevLogArgs env rs st from;
              let v1 = v\<lparr>rv_entries := entries,
                         rv_preLogIndex := (case pre of None \<Rightarrow> 0 | Some (j, t) \<Rightarrow> j),
                         rv_preLogTerm := (case pre of None \<Rightarrow> 0 | Some (j, t) \<Rightarrow> t)\<rparr>;
              if err \<noteq> None then Some (err, v1)
              else replicate_loop env sc ctrl ldap i (hostname rs) cmnd startLogIndex v1
            })
      in if role rs \<noteq> VDIR_RAFT_ROLE_LEADER then Some (None, v)
         else if cmnd = ExecAppendEntries then
           (case rs_entries sc 0 of
              None \<Rightarrow> Some (None, v)
            | Some g \<Rightarrow>
                (case packRaftLog g of
                   None \<Rightarrow> Some (None, v)
                 | Some b \<Rightarrow>
                     (if b = [] then Some (None, v)
                      else case VmDirAllocateAndCopyMemory (env_mem env) b of
                             Some e \<Rightarrow> Some (Some e, v)
                           | None \<Rightarrow> begin (Some b) (unat (log_index g)) (dec64 (unat (log_index g))))))
         else if cmnd = ExecPing then begin None (lastLogIndex rs) (wrap64 (lastLogIndex rs + 1))
         else None)"

section \<open>The peer's side\<close>

text \<open>
  \<open>VmDirAppendEntriesReplyEntry\<close>: the entry with term and status that the handler's answer is
  sent in; \<open>built\<close> is the result of building it.
\<close>

definition VmDirAppendEntriesReplyEntry ::
  "raft_env \<Rightarrow> rc \<Rightarrow> rc \<Rightarrow> append_args \<Rightarrow> raft_state \<Rightarrow> raft_store \<Rightarrow>
     (rc \<times> (nat \<times> nat) option \<times> raft_state \<times> raft_store) option" where
  "VmDirAppendEntriesReplyEntry env alloc built a rs st =
     do {
       (err, trm, status, rs', st') \<leftarrow> VmDirAppendEntriesGetReply env alloc a rs st;
       if err \<noteq> None then Some (err, None, rs', st')
       else if built \<noteq> None then Some (built, None, rs', st')
       else Some (None, Some (trm, status), rs', st')
     }"

text \<open>A server as the peer of another: a server that fails an assertion is gone.\<close>

definition ldap_server :: "raft_env \<Rightarrow> (raft_state \<times> raft_store) ldap_peer" where
  "ldap_server env p a =
     (case VmDirAppendEntriesReplyEntry env None None a (fst p) (snd p) of
        None \<Rightarrow> (LdapFailure, p)
      | Some (err, reply, rs, st) \<Rightarrow>
          (case reply of
             Some (trm, status) \<Rightarrow> (LdapReply trm status, rs, st)
           | None \<Rightarrow> (if err = Some VMDIR_ERROR_UNWILLING_TO_PERFORM then LdapUnwilling else LdapFailure, rs, st)))"


section \<open>Closing the gap of a peer\<close>

text \<open>
  What the leader relies on: the terms \<open>plog\<close> of the peer's log, its last index \<open>plast\<close> and a
  condition \<open>inv\<close> under which it answers. It refuses a previous log it does not have, naming its last
  index, and after a previous log it has, from the anchor \<open>m\<close> on and up to \<open>hi\<close>, it stores the
  entry and drops what was there.
\<close>

locale append_peer =
  fixes ldap :: "'p ldap_peer" and inv :: "'p \<Rightarrow> bool" and plog :: "'p \<Rightarrow> nat \<Rightarrow> nat option" and plast :: "'p \<Rightarrow> nat"
    and trm m hi :: nat
  assumes last_log: "inv p \<Longrightarrow> 0 < plast p \<and> plast p + 64 < 2 ^ 64 \<and> (\<forall>j. plast p < j \<longrightarrow> plog p j = None)"
    and refuses: "inv p \<Longrightarrow> ae_term a = trm \<Longrightarrow> ae_preLogIndex a \<noteq> 0 \<Longrightarrow>
          plog p (ae_preLogIndex a) \<noteq> Some (ae_preLogTerm a) \<Longrightarrow>
          \<exists>p'. ldap p a = (LdapReply trm (plast p), p') \<and> inv p' \<and> plog p' = plog p"
    and stores: "inv p \<Longrightarrow> ae_term a = trm \<Longrightarrow> m \<le> ae_preLogIndex a \<Longrightarrow>
          plog p (ae_preLogIndex a) = Some (ae_preLogTerm a) \<Longrightarrow> ae_entries a = log_bytes l \<Longrightarrow>
          24 + length (chglog l) < 2 ^ 31 \<Longrightarrow> unat (log_index l) = ae_preLogIndex a + 1 \<Longrightarrow> unat (log_index l) \<le> hi \<Longrightarrow>
          \<exists>p'. ldap p a = (LdapReply trm 0, p') \<and> inv p' \<and>
            (\<forall>j. plog p' j = (if j = unat (log_index l) then Some (unat (log_term l))
                            else if j \<le> ae_preLogIndex a then plog p j else None))"
begin

end

text \<open>The leader: it stays leader in the term, and holds the logs \<open>lg\<close> from \<open>m\<close> to \<open>hi\<close>.\<close>

definition leads_with :: "nat \<Rightarrow> nat \<Rightarrow> nat \<Rightarrow> raft_state \<Rightarrow> bool" where
  "leads_with trm m i rs \<longleftrightarrow> role rs = VDIR_RAFT_ROLE_LEADER \<and> currentTerm rs = trm \<and> firstLogIndex rs \<le> m \<and>
     i < length (proxies rs) \<and> proxy_state (proxies rs ! i) \<noteq> RPC_DISCONN"

definition holds_logs :: "(nat \<Rightarrow> raft_log) \<Rightarrow> nat \<Rightarrow> nat \<Rightarrow> raft_state \<Rightarrow> raft_store \<Rightarrow> bool" where
  "holds_logs lg m hi rs st \<longleftrightarrow> 0 < m \<and> hi < 2 ^ 64 \<and>
     (\<forall>j. m \<le> j \<and> j \<le> hi \<longrightarrow>
        map_of (backend_logs st (VmDirBackendForLogIndex rs st j)) j = Some (log_bytes (lg j)) \<and>
        unat (log_index (lg j)) = j \<and> 24 + length (chglog (lg j)) < 2 ^ 31)"

abbreviation lterm :: "(nat \<Rightarrow> raft_log) \<Rightarrow> nat \<Rightarrow> nat" where
  "lterm lg j \<equiv> unat (log_term (lg j))"

lemma holds_logsD:
  assumes "holds_logs lg m hi rs st" and "m \<le> j" and "j \<le> hi"
  shows "map_of (backend_logs st (VmDirBackendForLogIndex rs st j)) j = Some (log_bytes (lg j))"
    and "unat (log_index (lg j)) = j" and "24 + length (chglog (lg j)) < 2 ^ 31" and "log_index (lg j) \<noteq> 0" and "j < 2 ^ 64"
  using assms by (auto simp: holds_logs_def) 

lemma fetch_held:
  assumes "env_ok env" and "holds_logs lg m hi rs st" and "m \<le> j" and "j \<le> hi"
  shows "VmDirFetchLogEntry env rs st j empty_log = Some (None, unpacked (lg j))"
  using assms(1) holds_logsD [OF assms(2-4)]
  by (simp add: VmDirFetchLogEntry_def copy_log_bytes unpack_log_bytes)

lemma prev_held:
  assumes "env_ok env" and "holds_logs lg m hi rs st" and "m \<le> j" and "j \<le> hi" and "firstLogIndex rs \<le> m"
  shows "VmDirGetPrevLogArgs env rs st j = Some (None, Some (j, lterm lg j))"
  using fetch_held [OF assms(1-4)] holds_logsD [OF assms(2-4)] assms(3,5)
  by (simp add: VmDirGetPrevLogArgs_def prev_log_loop.simps unpacked_def word_gt_0)

lemma next_held:
  assumes "env_ok env" and "holds_logs lg m hi rs st" and "m \<le> j" and "j \<le> hi"
  shows "VmDirGetNextLog env rs st j e empty_log = Some (None, unpacked (lg j))"
proof -
  have "log_index empty_log = 0" by (simp add: empty_log_def)
  then show ?thesis
    using fetch_held [OF assms] holds_logsD(4) [OF assms(2-4)]
    by (subst VmDirGetNextLog_def, subst VmDirGetNextLog_loop.simps, simp)
       (subst VmDirGetNextLog_loop.simps, simp add: unpacked_def)
qed

text \<open>The variables of the leader's thread when it is to send the log after \<open>k\<close>.\<close>

definition rpc_at :: "(nat \<Rightarrow> raft_log) \<Rightarrow> nat \<Rightarrow> 'p rpc_vars \<Rightarrow> bool" where
  "rpc_at lg k v \<longleftrightarrow> rv_preLogIndex v = k \<and> rv_preLogTerm v = lterm lg k \<and> rv_entries v = Some (log_bytes (lg (k + 1)))"

definition quiet_sched :: "(nat \<Rightarrow> raft_log) \<Rightarrow> nat \<Rightarrow> rpc_sched \<Rightarrow> bool" where
  "quiet_sched lg hi sc \<longleftrightarrow> (\<forall>n rs. rs_lock sc n rs = rs) \<and>
     (\<forall>n. \<exists>g. rs_entries sc n = Some g \<and> log_index g = log_index (lg hi) \<and> packRaftLog g = Some (log_bytes (lg hi)))"

lemma set_proxy_frame [simp]:
  "role (set_proxy i f rs) = role rs" "currentTerm (set_proxy i f rs) = currentTerm rs"
  "firstLogIndex (set_proxy i f rs) = firstLogIndex rs" "length (proxies (set_proxy i f rs)) = length (proxies rs)"
  "i < length (proxies rs) \<Longrightarrow> proxies (set_proxy i f rs) ! i = f (proxies rs ! i)"
  by (simp_all add: set_proxy_def)

lemma holds_logs_set_proxy [simp]: "holds_logs lg m hi (set_proxy i f rs) st = holds_logs lg m hi rs st"
  by (simp add: holds_logs_def VmDirBackendForLogIndex_def set_proxy_def)

lemma leads_with_set_proxy:
  "leads_with trm m i rs \<Longrightarrow> (\<And>x. proxy_state (f x) = proxy_state x) \<Longrightarrow> leads_with trm m i (set_proxy i f rs)"
  by (simp add: leads_with_def)

text \<open>The sending stage when nothing interferes and the peer answers in the leader's term.\<close>

lemma rpc_send_ok:
  assumes "leads_with trm m i (rv_rs v)" and "quiet_sched lg hi sc" and "m \<le> rv_preLogIndex v"
    and "rv_entries v = Some (log_bytes l)"
    and "ldap (rv_peer v) \<lparr>ae_term = trm, ae_leader = ldr, ae_preLogIndex = rv_preLogIndex v, ae_preLogTerm = rv_preLogTerm v,
           ae_leaderCommit = commitIndex (rv_rs v), ae_entries = log_bytes l\<rparr> = (LdapReply trm status, p)"
  shows "rpc_send env sc None ldap i ldr v = Some (Inr (status, v\<lparr>rv_n := rv_n v + 2, rv_peer := p\<rparr>))"
  using assms
  by (simp add: rpc_send_def relock_def leads_with_def quiet_sched_def VmDirRaftLdapRpcAppendEntries_def
      length_log_bytes Let_def)

lemma rpc_backward_ok:
  assumes "env_ok env" and "holds_logs lg m hi (rv_rs v) (rv_st v)" and "firstLogIndex (rv_rs v) \<le> m"
    and "status + 64 < 2 ^ 64" and "m < rv_preLogIndex v" and "rv_preLogIndex v \<le> hi" and "m \<le> status"
  shows "\<exists>k v'. rpc_backward env status v = Some (Inr v') \<and> rpc_at lg k v' \<and> m \<le> k \<and> k < rv_preLogIndex v \<and>
           rv_rs v' = rv_rs v \<and> rv_st v' = rv_st v \<and> rv_peer v' = rv_peer v"
proof -
  define j where "j = (if rv_preLogIndex v > status + 64 then status + 64 else rv_preLogIndex v)"
  have j: "m < j" "j \<le> rv_preLogIndex v" "j \<le> hi" using assms(5-7) by (auto simp: j_def)
  have "wrap64 (status + 64) = status + 64" using assms(4) by (simp add: wrap64_id)
  moreover note fetch_held [OF assms(1,2), of j] holds_logsD(2) [OF assms(2), of j]
  moreover have "dec64 j = j - 1" using j by (simp add: dec64_def)
  moreover have "VmDirGetPrevLogArgs env (rv_rs v) (rv_st v) (j - 1) = Some (None, Some (j - 1, lterm lg (j - 1)))"
    using j by (intro prev_held [OF assms(1,2) _ _ assms(3)]) auto
  moreover from calculation(1) have "(if wrap64 (status + RAFT_PREVLOG_FETCH_MARGIN) < rv_preLogIndex v
      then wrap64 (status + RAFT_PREVLOG_FETCH_MARGIN) else rv_preLogIndex v) = j"
    by (simp add: j_def RAFT_PREVLOG_FETCH_MARGIN_def)
  note idx = this
  ultimately have "rpc_backward env status v =
      Some (Inr (v\<lparr>rv_entries := Some (log_bytes (lg j)), rv_preLogIndex := j - 1, rv_preLogTerm := lterm lg (j - 1)\<rparr>))"
    unfolding rpc_backward_def Let_def idx using j assms(1)
    by (simp add: unpacked_fields copy_log_bytes)
  then show ?thesis
    using j by (intro exI [of _ "j - 1"]) (auto simp: rpc_at_def)
qed

lemma rpc_matched_ok:
  assumes "env_ok env" and "holds_logs lg m hi (rv_rs v) (rv_st v)" and "quiet_sched lg hi sc" and "rpc_at lg k v"
    and "m \<le> k" and "k < hi"
  shows "rpc_matched env sc i ExecAppendEntries hi v =
    (let rs1 = set_proxy i (\<lambda>x. x\<lparr>matchIndex := max (max (matchIndex x) (k + 1)) k\<rparr>) (rv_rs v);
         v1 = v\<lparr>rv_cur := unpacked (lg (k + 1)), rv_rs := rs1\<rparr> in
     if k + 1 = hi then Some (Inl (None, v1\<lparr>rv_rs := set_proxy i (\<lambda>x. x\<lparr>bLogReplicated := True\<rparr>) rs1\<rparr>))
     else Some (Inr v1))"
proof -
  obtain g where g: "rs_entries sc (rv_n v - 1) = Some g" "log_index g = log_index (lg hi)"
    using assms(3) unfolding quiet_sched_def by metis
  have eq: "log_index (lg (k + 1)) = log_index (lg hi) \<longleftrightarrow> k + 1 = hi"
  proof -
    have "unat (log_index (lg (k + 1))) = k + 1" "unat (log_index (lg hi)) = hi"
      using assms(5,6) by (simp_all add: holds_logsD(2) [OF assms(2)])
    then show ?thesis by metis
  qed
  have k1: "unat (log_index (lg (k + 1))) = k + 1" "0 < log_index (lg (k + 1))"
    using assms(5,6) by (simp_all add: holds_logsD(2,4) [OF assms(2)] word_gt_0)
  have v: "rv_preLogIndex v = k" "rv_entries v = Some (log_bytes (lg (k + 1)))" and mem: "\<And>n. env_mem env n"
    using assms(1,4) by (simp_all add: rpc_at_def)
  show ?thesis
    unfolding rpc_matched_def v option.case copy_log_bytes [of "env_mem env", OF mem] unpack_log_bytes [of "env_mem env", OF mem]
    using assms(6) k1 g eq by (cases "Suc k = hi") (auto simp: unpacked_fields Let_def)
qed

lemma rpc_forward_ok:
  assumes "env_ok env" and "holds_logs lg m hi (rv_rs v) (rv_st v)" and "rv_preLogIndex v = k" and "m \<le> k" and "k + 1 < hi"
  shows "\<exists>v'. rpc_forward env ExecAppendEntries hi v = Some (Inr v') \<and> rpc_at lg (k + 1) v' \<and>
           rv_rs v' = rv_rs v \<and> rv_st v' = rv_st v \<and> rv_peer v' = rv_peer v"
proof -
  have "wrap64 (k + 1) = k + 1" "wrap64 (k + 2) = k + 2"
    using holds_logsD(5) [OF assms(2), of "k + 2"] assms(4,5) by (auto intro!: wrap64_id)
  then show ?thesis
    using assms next_held [OF assms(1,2), of "k + 1" hi] next_held [OF assms(1,2), of "k + 2" hi]
      holds_logsD(2,4) [OF assms(2), of "k + 1"] holds_logsD(2,4) [OF assms(2), of "k + 2"]
    by (simp add: rpc_forward_def rpc_at_def unpacked_fields copy_log_bytes Let_def)
qed

context append_peer
begin

text \<open>The peer agrees with the leader at \<open>m\<close>, and where it agrees it agrees from \<open>m\<close> up to there.\<close>

definition agrees :: "(nat \<Rightarrow> raft_log) \<Rightarrow> 'p \<Rightarrow> bool" where
  "agrees lg p \<longleftrightarrow> inv p \<and> plog p m = Some (lterm lg m) \<and>
     (\<forall>q j. m \<le> j \<and> j \<le> q \<and> q \<le> hi \<and> plog p q = Some (lterm lg q) \<longrightarrow> plog p j = Some (lterm lg j))"

lemma step_refused:
  assumes env: "env_ok env" and sc: "quiet_sched lg hi sc" and lead: "leads_with trm m i (rv_rs v)"
    and held: "holds_logs lg m hi (rv_rs v) (rv_st v)" and ag: "agrees lg (rv_peer v)"
    and at: "rpc_at lg k v" "m \<le> k" "k < hi" and no: "plog (rv_peer v) k \<noteq> Some (lterm lg k)"
  shows "\<exists>k' v'. replicate_step env sc None ldap i ldr ExecAppendEntries hi v = Some (Inr v') \<and>
           rpc_at lg k' v' \<and> m \<le> k' \<and> k' < k \<and> agrees lg (rv_peer v') \<and> rv_rs v' = rv_rs v \<and> rv_st v' = rv_st v"
proof -
  let ?p = "rv_peer v"
  have k: "m < k" using ag no at(2) by (auto simp: agrees_def nat_less_le)
  have i: "inv ?p" using ag by (simp add: agrees_def)
  let ?a = "\<lparr>ae_term = trm, ae_leader = ldr, ae_preLogIndex = k, ae_preLogTerm = lterm lg k,
              ae_leaderCommit = commitIndex (rv_rs v), ae_entries = log_bytes (lg (k + 1))\<rparr>"
  obtain p' where p': "ldap ?p ?a = (LdapReply trm (plast ?p), p')" "inv p'" "plog p' = plog ?p"
    using refuses [OF i, of ?a] no k by auto
  let ?v = "v\<lparr>rv_n := rv_n v + 2, rv_peer := p'\<rparr>"
  have send: "rpc_send env sc None ldap i ldr v = Some (Inr (plast ?p, ?v))"
    using at p'(1) k by (intro rpc_send_ok [OF lead sc]) (simp_all add: rpc_at_def)
  have last: "0 < plast ?p" "plast ?p + 64 < 2 ^ 64" "m \<le> plast ?p"
    using last_log [OF i] ag by (auto simp: agrees_def not_less [symmetric])
  obtain k' v' where "rpc_backward env (plast ?p) ?v = Some (Inr v')" "rpc_at lg k' v'" "m \<le> k'" "k' < k"
     "rv_rs v' = rv_rs v" "rv_st v' = rv_st v" "rv_peer v' = p'"
    using rpc_backward_ok [of env lg m hi ?v "plast ?p"] env held lead last at k
    by (auto simp: leads_with_def rpc_at_def)
  then show ?thesis
    using send last(1) p' ag by (auto simp: replicate_step_def agrees_def)
qed

lemma step_stored:
  assumes env: "env_ok env" and sc: "quiet_sched lg hi sc" and lead: "leads_with trm m i (rv_rs v)"
    and held: "holds_logs lg m hi (rv_rs v) (rv_st v)" and ag: "agrees lg (rv_peer v)"
    and at: "rpc_at lg k v" "m \<le> k" "k < hi" and yes: "plog (rv_peer v) k = Some (lterm lg k)"
  shows "\<exists>v'. replicate_step env sc None ldap i ldr ExecAppendEntries hi v = Some (if k + 1 = hi then Inl (None, v') else Inr v') \<and>
           agrees lg (rv_peer v') \<and> plog (rv_peer v') (k + 1) = Some (lterm lg (k + 1)) \<and>
           leads_with trm m i (rv_rs v') \<and> holds_logs lg m hi (rv_rs v') (rv_st v') \<and> k + 1 \<le> matchIndex (proxies (rv_rs v') ! i) \<and>
           (if k + 1 = hi then bLogReplicated (proxies (rv_rs v') ! i) else rpc_at lg (k + 1) v')"
proof -
  let ?p = "rv_peer v"
  have i: "inv ?p" using ag by (simp add: agrees_def)
  let ?a = "\<lparr>ae_term = trm, ae_leader = ldr, ae_preLogIndex = k, ae_preLogTerm = lterm lg k,
              ae_leaderCommit = commitIndex (rv_rs v), ae_entries = log_bytes (lg (k + 1))\<rparr>"
  note l1 = holds_logsD(2,3) [OF held, of "k + 1"]
  obtain p' where p': "ldap ?p ?a = (LdapReply trm 0, p')" "inv p'"
      "\<forall>j. plog p' j = (if j = k + 1 then Some (lterm lg (k + 1)) else if j \<le> k then plog ?p j else None)"
    using stores [OF i, of ?a "lg (k + 1)"] yes at l1 by auto
  have below: "\<forall>j. m \<le> j \<and> j \<le> k \<longrightarrow> plog ?p j = Some (lterm lg j)"
    using ag yes at(3) unfolding agrees_def by (metis less_imp_le)
  have ag': "agrees lg p'"
    using ag below at(2) p' by (auto simp: agrees_def)
  let ?v = "v\<lparr>rv_n := rv_n v + 2, rv_peer := p'\<rparr>"
  have send: "rpc_send env sc None ldap i ldr v = Some (Inr (0, ?v))"
    using at p'(1) by (intro rpc_send_ok [OF lead sc]) (simp_all add: rpc_at_def)
  define rs1 where "rs1 = set_proxy i (\<lambda>x. x\<lparr>matchIndex := max (max (matchIndex x) (k + 1)) k\<rparr>) (rv_rs v)"
  define v1 where "v1 = ?v\<lparr>rv_cur := unpacked (lg (k + 1)), rv_rs := rs1\<rparr>"
  have at': "rpc_at lg k ?v" using at(1) by (simp add: rpc_at_def)
  have mat: "rpc_matched env sc i ExecAppendEntries hi ?v =
      (if k + 1 = hi then Some (Inl (None, v1\<lparr>rv_rs := set_proxy i (\<lambda>x. x\<lparr>bLogReplicated := True\<rparr>) rs1\<rparr>)) else Some (Inr v1))"
    using rpc_matched_ok [OF env _ sc at' at(2,3), of i] held by (simp add: rs1_def v1_def Let_def)
  have lead1: "leads_with trm m i rs1" unfolding rs1_def using lead by (rule leads_with_set_proxy) simp
  have held1: "holds_logs lg m hi rs1 (rv_st v)" using held by (simp add: rs1_def)
  have mi: "k + 1 \<le> matchIndex (proxies rs1 ! i)" using lead by (simp add: rs1_def leads_with_def)
  show ?thesis
  proof (cases "k + 1 = hi")
    case True
    let ?rs2 = "set_proxy i (\<lambda>x. x\<lparr>bLogReplicated := True\<rparr>) rs1"
    have "leads_with trm m i ?rs2" using lead1 by (rule leads_with_set_proxy) simp
    then show ?thesis
      using True send mat ag' p'(3) held1 mi lead1
      by (auto simp: replicate_step_def v1_def leads_with_def)
  next
    case False
    obtain v' where "rpc_forward env ExecAppendEntries hi v1 = Some (Inr v')" "rpc_at lg (k + 1) v'"
       "rv_rs v' = rs1" "rv_st v' = rv_st v" "rv_peer v' = p'"
      using rpc_forward_ok [OF env, of lg m hi v1 k] held1 at False by (auto simp: v1_def rpc_at_def)
    then show ?thesis
      using False send mat ag' p'(3) held1 mi lead1 by (auto simp: replicate_step_def)
  qed
qed

lemma loop_closes_gap:
  assumes env: "env_ok env" and sc: "quiet_sched lg hi sc"
  shows "leads_with trm m i (rv_rs v) \<Longrightarrow> holds_logs lg m hi (rv_rs v) (rv_st v) \<Longrightarrow> agrees lg (rv_peer v) \<Longrightarrow>
    rpc_at lg k v \<Longrightarrow> m \<le> k \<Longrightarrow> k < hi \<Longrightarrow>
    \<exists>v'. replicate_loop env sc None ldap i ldr ExecAppendEntries hi v = Some (None, v') \<and>
      (\<forall>j. m \<le> j \<and> j \<le> hi \<longrightarrow> plog (rv_peer v') j = Some (lterm lg j)) \<and>
      bLogReplicated (proxies (rv_rs v') ! i) \<and> hi \<le> matchIndex (proxies (rv_rs v') ! i)"
proof (induction "if plog (rv_peer v) k = Some (lterm lg k) then hi - k else hi + k" arbitrary: v k rule: less_induct)
  case less
  show ?case
  proof (cases "plog (rv_peer v) k = Some (lterm lg k)")
    case False
    obtain k' v' where st: "replicate_step env sc None ldap i ldr ExecAppendEntries hi v = Some (Inr v')"
       and v': "rpc_at lg k' v'" "m \<le> k'" "k' < k" "agrees lg (rv_peer v')" "rv_rs v' = rv_rs v" "rv_st v' = rv_st v"
      using step_refused [OF env sc less(2-7) False] by blast
    have "(if plog (rv_peer v') k' = Some (lterm lg k') then hi - k' else hi + k') < hi + k"
      using v'(3) less(7) by auto
    with less(1) [of v' k'] v' less(2-7) False st show ?thesis
      by (subst replicate_loop.simps) auto
  next
    case True
    obtain v' where v': "replicate_step env sc None ldap i ldr ExecAppendEntries hi v = Some (if k + 1 = hi then Inl (None, v') else Inr v')"
        "agrees lg (rv_peer v')" "plog (rv_peer v') (k + 1) = Some (lterm lg (k + 1))" "leads_with trm m i (rv_rs v')"
        "holds_logs lg m hi (rv_rs v') (rv_st v')" "k + 1 \<le> matchIndex (proxies (rv_rs v') ! i)"
        "if k + 1 = hi then bLogReplicated (proxies (rv_rs v') ! i) else rpc_at lg (k + 1) v'"
      using step_stored [OF env sc less(2-7) True] by blast
    show ?thesis
    proof (cases "k + 1 = hi")
      case fin: True
      have "\<forall>j. m \<le> j \<and> j \<le> hi \<longrightarrow> plog (rv_peer v') j = Some (lterm lg j)"
        using v'(2,3) fin unfolding agrees_def by blast
      then show ?thesis using v' fin by (subst replicate_loop.simps) simp
    next
      case more: False
      with less(1) [of v' "k + 1"] v' less(6,7) True show ?thesis
        by (subst replicate_loop.simps) auto
    qed
  qed
qed

end

section \<open>A server as the peer\<close>

text \<open>
  A follower that can take logs up to \<open>hi\<close> after the anchor \<open>m\<close>: it has not applied beyond the
  anchor, and the logs do not run more than \<open>RAFT_APPLIED_GAP_MAX\<close> ahead of what it has applied.
\<close>

definition follower_ok :: "nat \<Rightarrow> nat \<Rightarrow> nat \<Rightarrow> raft_state \<times> raft_store \<Rightarrow> bool" where
  "follower_ok trm m hi p \<longleftrightarrow>
     (case p of (rs, st) \<Rightarrow>
        initialized rs \<and> (currentTerm rs = trm \<or> (currentTerm rs < trm \<and> role rs = VDIR_RAFT_ROLE_FOLLOWER)) \<and>
        store_ok st \<and> last_log_ok rs st \<and> distinct (map fst (logs_current st)) \<and> 1 \<le> firstLogIndex rs \<and>
        firstLogIndex rs \<le> m \<and> (\<forall>i \<in> fst ` set (logs_previous st). i \<le> m) \<and> lastApplied rs \<le> m \<and>
        hi \<le> lastApplied rs + RAFT_APPLIED_GAP_MAX \<and> log_term_at rs st m \<noteq> None \<and>
        lastLogIndex rs + 64 < 2 ^ 64 \<and> hi + 64 < 2 ^ 64)"

definition server_log :: "raft_state \<times> raft_store \<Rightarrow> nat \<Rightarrow> nat option" where
  "server_log p j = log_term_at (fst p) (snd p) j"

definition server_last :: "raft_state \<times> raft_store \<Rightarrow> nat" where
  "server_last p = lastLogIndex (fst p)"

lemma ldap_server_reply:
  "VmDirAppendEntriesGetReply env None a (fst p) (snd p) = Some (None, trm, status, rs, st) \<Longrightarrow>
     ldap_server env p a = (LdapReply trm status, rs, st)"
  by (simp add: ldap_server_def VmDirAppendEntriesReplyEntry_def)

lemma follower_accepted: "follower_ok trm m hi (rs, st) \<Longrightarrow> ae_term a = trm \<Longrightarrow> append_accepted a rs"
  by (auto simp: follower_ok_def append_accepted_def)

lemma follower_refuses:
  assumes "env_ok env" and ok: "follower_ok trm m hi p" and a: "ae_term a = trm" "ae_preLogIndex a \<noteq> 0"
    and no: "server_log p (ae_preLogIndex a) \<noteq> Some (ae_preLogTerm a)"
  shows "\<exists>p'. ldap_server env p a = (LdapReply trm (server_last p), p') \<and> follower_ok trm m hi p' \<and> server_log p' = server_log p"
proof -
  obtain rs st where p: "p = (rs, st)" by (cases p)
  have st: "store_ok st" using ok p by (simp add: follower_ok_def)
  have "append_match env a (append_start a env rs) st =
      Some (None, lastLogIndex rs, False, append_start a env rs, st)"
    using a(2) no p log_lookup_ok [OF assms(1) st] by (simp add: append_match_def server_log_def)
  from append_entries_accepted [OF follower_accepted [OF ok [unfolded p] a(1)] assms(1) this] obtain t where
    "VmDirAppendEntriesGetReply env None a rs st =
      Some (None, trm, lastLogIndex rs, (append_start a env rs)\<lparr>lastPingRecvTime := env_time env\<rparr>, st\<lparr>st_term := t\<rparr>)"
    using a(1) by auto
  with ldap_server_reply [of env a p] have
    "ldap_server env p a = (LdapReply trm (server_last p), (append_start a env rs)\<lparr>lastPingRecvTime := env_time env\<rparr>, st\<lparr>st_term := t\<rparr>)"
    by (simp add: p server_last_def)
  moreover have "follower_ok trm m hi ((append_start a env rs)\<lparr>lastPingRecvTime := env_time env\<rparr>, st\<lparr>st_term := t\<rparr>)"
    using ok p a by (auto simp: follower_ok_def last_log_ok_def)
  moreover have "server_log ((append_start a env rs)\<lparr>lastPingRecvTime := env_time env\<rparr>, st\<lparr>st_term := t\<rparr>) = server_log p"
    by (simp add: server_log_def fun_eq_iff p)
  ultimately show ?thesis by blast
qed

lemma follower_stores:
  assumes "env_ok env" and ok: "follower_ok trm m hi p" and a: "ae_term a = trm" "m \<le> ae_preLogIndex a"
    and yes: "server_log p (ae_preLogIndex a) = Some (ae_preLogTerm a)"
    and l: "ae_entries a = log_bytes l" "24 + length (chglog l) < 2 ^ 31" "unat (log_index l) = ae_preLogIndex a + 1"
      "unat (log_index l) \<le> hi"
  shows "\<exists>p'. ldap_server env p a = (LdapReply trm 0, p') \<and> follower_ok trm m hi p' \<and>
     (\<forall>j. server_log p' j = (if j = unat (log_index l) then Some (unat (log_term l))
                            else if j \<le> ae_preLogIndex a then server_log p j else None))"
proof -
  obtain rs st where p: "p = (rs, st)" by (cases p)
  let ?rs0 = "append_start a env rs"
  have rdy: "append_ready env a l ?rs0 st"
    using assms p unfolding append_ready_def
    by (auto simp: follower_ok_def server_log_def last_log_ok_def)
  let ?n = "unat (log_index l)" and ?ci = "min (ae_leaderCommit a) (ae_preLogIndex a)"
  let ?rs1 = "?rs0\<lparr>lastLogIndex := ?n, lastLogTerm := unat (log_term l), indexToApply := ?ci, commitIndex := ?ci,
                   opCounts := opCounts ?rs0 + 1\<rparr>"
  let ?st1 = "st\<lparr>logs_current := (?n, log_bytes l) # filter (\<lambda>(k, b). k < ae_preLogIndex a + 1) (logs_current st)\<rparr>"
  note m = append_match_eq [OF rdy]
  from append_entries_accepted [OF follower_accepted [OF ok [unfolded p] a(1)] assms(1) m] obtain t where
    "VmDirAppendEntriesGetReply env None a rs st =
      Some (None, trm, 0, ?rs1\<lparr>lastPingRecvTime := env_time env\<rparr>, ?st1\<lparr>st_term := t\<rparr>)"
    using a(1) by auto
  then have 1: "ldap_server env p a = (LdapReply trm 0, ?rs1\<lparr>lastPingRecvTime := env_time env\<rparr>, ?st1\<lparr>st_term := t\<rparr>)"
    using ldap_server_reply [of env a p] p by simp
  obtain terms: "\<forall>j. log_term_at ?rs1 ?st1 j = (if j = ?n then Some (unat (log_term l))
               else if j \<le> ae_preLogIndex a then log_term_at ?rs0 st j else None)" and sok: "store_ok ?st1"
    using append_match_ok [OF rdy] unfolding m by auto
  have terms': "log_term_at (?rs1\<lparr>lastPingRecvTime := env_time env\<rparr>) (?st1\<lparr>st_term := t\<rparr>) j =
      (if j = ?n then Some (unat (log_term l)) else if j \<le> ae_preLogIndex a then log_term_at rs st j else None)" for j
    using terms by simp
  have dist: "distinct (map fst (logs_current ?st1))"
    using ok p l(3) by (auto simp: follower_ok_def distinct_map_filter)
  have "follower_ok trm m hi (?rs1\<lparr>lastPingRecvTime := env_time env\<rparr>, ?st1\<lparr>st_term := t\<rparr>)"
    using ok p a l sok dist terms'
    by (auto simp: follower_ok_def last_log_ok_def simp del: st_term_simps(3))
  then show ?thesis
    using 1 terms' p by (auto simp: server_log_def)
qed

definition server_ready :: "raft_env \<Rightarrow> nat \<Rightarrow> nat \<Rightarrow> nat \<Rightarrow> raft_state \<times> raft_store \<Rightarrow> bool" where
  "server_ready env trm m hi p \<longleftrightarrow> env_ok env \<and> follower_ok trm m hi p"

interpretation srv: append_peer "ldap_server fenv" "server_ready fenv trm m hi" server_log server_last trm m hi
  for fenv trm m hi
proof (unfold_locales, goal_cases)
  case (1 p)
  then have "m \<le> lastLogIndex (prod.fst p)" "0 < m"
    by (cases p; fastforce simp: server_ready_def follower_ok_def last_log_ok_def not_le [symmetric])+
  with 1 show ?case
    by (cases p) (auto simp: server_ready_def follower_ok_def server_last_def server_log_def last_log_ok_def)
next
  case (2 p a)
  then show ?case using follower_refuses [of fenv trm m hi p a] by (auto simp: server_ready_def)
next
  case (3 p a l)
  then show ?case using follower_stores [of fenv trm m hi p a l] by (auto simp: server_ready_def)
qed



text \<open>A leader with logs of terms 1, 3, 3 and a follower whose second log has term 2.\<close>

definition new_logs :: "nat \<Rightarrow> raft_log" where
  "new_logs j = empty_log\<lparr>log_index := of_nat j, log_term := (if j = 1 then 1 else 3)\<rparr>"

definition new_leader :: raft_state where
  "new_leader = small_state\<lparr>role := VDIR_RAFT_ROLE_LEADER, currentTerm := 3, hostname := ''c'', lastLogIndex := 3, lastLogTerm := 3,
     proxies := [\<lparr>isDeleted = False, proxy_state = RPC_BUSY, raftPeerHostname = ''b'', bLogReplicated = False, matchIndex = 0\<rparr>]\<rparr>"

definition new_store :: raft_store where
  "new_store = small_store\<lparr>logs_current := map (\<lambda>j. (j, log_bytes (new_logs j))) [3, 2, 1]\<rparr>"

lemma new_leader_leads: "leads_with 3 1 0 new_leader"
  by (simp add: leads_with_def new_leader_def small_state_def)

lemma new_leader_holds: "holds_logs new_logs 1 3 new_leader new_store"
proof -
  have three: "1 \<le> j \<and> j \<le> 3 \<longleftrightarrow> j = 1 \<or> j = 2 \<or> j = 3" for j :: nat by arith
  show ?thesis
    unfolding holds_logs_def three
    by (simp add: disj_imp all_conj_distrib imp_conjL new_leader_def new_store_def small_state_def
        VmDirBackendForLogIndex_def backend_logs_def new_logs_def empty_log_def)
qed



text \<open>
  C30. A follower with an empty log is counted as having replicated a log it refused: it answers a
  previous log it does not have with its last index, 0, which the leader takes for success. The
  leader marks the peer, although the follower has stored nothing.
\<close>
theorem empty_follower_counts:
  "\<exists>v. VmDirAppendEntriesRpc small_env
         \<lparr>rs_lock = (\<lambda>n rs. rs), rs_entries = (\<lambda>n. Some (unpacked (new_logs 3)))\<rparr> None (ldap_server small_env) 0
         ExecAppendEntries new_leader new_store
         (small_state\<lparr>lastLogIndex := 0, lastLogTerm := 0, lastApplied := 0, commitIndex := 0\<rparr>, small_store\<lparr>logs_current := []\<rparr>) =
       Some (None, v) \<and>
     bLogReplicated (proxies (rv_rs v) ! 0) \<and> logs_current (snd (rv_peer v)) = []"
proof -
  let ?sc = "\<lparr>rs_lock = (\<lambda>n rs. rs), rs_entries = (\<lambda>n. Some (unpacked (new_logs 3)))\<rparr>"
  let ?p = "(small_state\<lparr>lastLogIndex := 0, lastLogTerm := 0, lastApplied := 0, commitIndex := 0\<rparr>, small_store\<lparr>logs_current := []\<rparr>)"
  have prev: "VmDirGetPrevLogArgs small_env new_leader new_store 2 = Some (None, Some (2, lterm new_logs 2))"
    by (rule prev_held [OF small_ok(1) new_leader_holds]) (simp_all add: new_leader_def small_state_def)
  let ?a = "\<lparr>ae_term = 3, ae_leader = ''c'', ae_preLogIndex = 2, ae_preLogTerm = lterm new_logs 2, ae_leaderCommit = 1,
             ae_entries = log_bytes (new_logs 3)\<rparr>"
  have "\<exists>rs t. VmDirAppendEntriesGetReply small_env None ?a (fst ?p) (snd ?p) = Some (None, 3, 0, rs, (snd ?p)\<lparr>st_term := t\<rparr>)"
    by (simp add: VmDirAppendEntriesGetReply_def append_exit_def append_match_def VmDirLogLookup_def
      VmDirFetchLogEntry_def VmDirBackendForLogIndex_def backend_logs_def VmDirPersistTerm_def to_int32_def
      small_defs empty_log_def Let_def)
  then obtain rs t where ans: "ldap_server small_env ?p ?a = (LdapReply 3 0, rs, (snd ?p)\<lparr>st_term := t\<rparr>)"
    using ldap_server_reply by blast
  let ?v = "\<lparr>rv_preLogIndex = 2, rv_preLogTerm = lterm new_logs 2, rv_entries = Some (log_bytes (new_logs 3)),
             rv_cur = empty_log, rv_n = 1, rv_rs = new_leader, rv_st = new_store, rv_peer = ?p\<rparr>"
  have sc: "quiet_sched new_logs 3 ?sc" by (simp add: quiet_sched_def unpacked_fields)
  have send: "rpc_send small_env ?sc None (ldap_server small_env) 0 ''c'' ?v =
      Some (Inr (0, ?v\<lparr>rv_n := 3, rv_peer := (rs, (snd ?p)\<lparr>st_term := t\<rparr>)\<rparr>))"
    using rpc_send_ok [of 3 1 0 ?v new_logs 3 ?sc "new_logs 3" "ldap_server small_env" "''c''" 0] new_leader_leads sc ans
    by (simp add: new_leader_def small_state_def)
  let ?w = "?v\<lparr>rv_n := 3, rv_peer := (rs, (snd ?p)\<lparr>st_term := t\<rparr>)\<rparr>"
  have "rpc_at new_logs 2 ?w" by (simp add: rpc_at_def)
  from rpc_matched_ok [OF small_ok(1) _ sc this, of 1 0] new_leader_holds
  obtain w' where mat: "rpc_matched small_env ?sc 0 ExecAppendEntries 3 ?w = Some (Inl (None, w'))"
     "bLogReplicated (proxies (rv_rs w') ! 0)" "rv_peer w' = (rs, (snd ?p)\<lparr>st_term := t\<rparr>)"
    by (auto simp: Let_def new_leader_def)
  have loop: "replicate_loop small_env ?sc None (ldap_server small_env) 0 ''c'' ExecAppendEntries 3 ?v = Some (None, w')"
    using send mat(1) by (subst replicate_loop.simps) (simp add: replicate_step_def)
  have "unat (log_index (new_logs 3)) = 3" "dec64 3 = 2" "role new_leader = VDIR_RAFT_ROLE_LEADER" "hostname new_leader = ''c''"
    by (simp_all add: new_logs_def dec64_def new_leader_def)
  moreover have "log_bytes (new_logs 3) \<noteq> []" using length_log_bytes [of "new_logs 3"] by auto
  ultimately have "VmDirAppendEntriesRpc small_env ?sc None (ldap_server small_env) 0 ExecAppendEntries new_leader new_store ?p = Some (None, w')"
    using prev loop copy_log_bytes [of "env_mem small_env" "new_logs 3"] small_ok(1)
    by (simp add: VmDirAppendEntriesRpc_def unpacked_fields Let_def)
  then show ?thesis using mat(2,3) by (intro exI [of _ w']) simp
qed

end
