(* ===== verification/Candidates.thy ===== *)
theory Candidates
  imports Memory
begin

text \<open>
  The candidate lists of \<open>lwraft/server/common/candidates.c\<close>: lists of entry ids that a search
  builds for the parts of its filter and combines as the filter says. A positive list stands for
  its ids, a negative one for all others. The first \<open>size\<close> elements of the array are the list
  \<open>eIds\<close>; \<open>None\<close> is the null pointer that an intersection with an empty list leaves.
\<close>

section \<open>Lists of entry ids\<close>

type_synonym entry_id = "64 word"

record candidates =
  eIds :: "entry_id list option"
  cl_max :: nat
  positive :: bool
  eIdsSorted :: bool

definition cl_ids :: "candidates \<Rightarrow> entry_id list" where
  "cl_ids c = (case eIds c of None \<Rightarrow> [] | Some xs \<Rightarrow> xs)"

definition cl_size :: "candidates \<Rightarrow> nat" where
  "cl_size c = length (cl_ids c)"

text \<open>A list takes 24 bytes and an id 8; a size beyond \<open>int\<close> is negative and trips the assertion.\<close>

definition NewCandidates :: "(nat \<Rightarrow> bool) \<Rightarrow> nat \<Rightarrow> bool \<Rightarrow> candidates option option" where
  "NewCandidates mem startAllocSize pos =
     (if startAllocSize \<ge> 2 ^ 31 then None
      else if VmDirAllocateMemory mem 24 \<noteq> None then Some None
      else if VmDirAllocateMemory mem (startAllocSize * 8) \<noteq> None then Some None
      else Some (Some \<lparr>eIds = Some [], cl_max = startAllocSize, positive = pos, eIdsSorted = False\<rparr>))"

text \<open>The sizes are computed in \<open>int\<close>, whose overflow is undefined.\<close>

definition VmDirReallocCandidates :: "(nat \<Rightarrow> bool) \<Rightarrow> candidates \<Rightarrow> (rc \<times> candidates) option" where
  "VmDirReallocCandidates mem c =
     (if cl_max c * 8 * 2 \<ge> 2 ^ 31 then None
      else case VmDirReallocateMemoryWithInit mem (eIds c \<noteq> None) (cl_max c * 8 * 2) (cl_max c * 8) of
             Some e \<Rightarrow> Some (Some e, c)
           | None \<Rightarrow> Some (None, c\<lparr>eIds := Some (cl_ids c), cl_max := cl_max c * 2\<rparr>))"

definition VmDirAddToCandidates :: "(nat \<Rightarrow> bool) \<Rightarrow> candidates \<Rightarrow> entry_id \<Rightarrow> (rc \<times> candidates) option" where
  "VmDirAddToCandidates mem c eId =
     do {
       (err, c1) \<leftarrow> (if cl_size c = cl_max c then VmDirReallocCandidates mem c else Some (None, c));
       if err \<noteq> None then Some (err, c1)
       else do {
         xs \<leftarrow> eIds c1;
         if length xs \<ge> cl_max c1 then None
         else Some (None, c1\<lparr>eIds := Some (xs @ [eId])\<rparr>)
       }
     }"

definition VmDirSortCandidateList :: "candidates \<Rightarrow> candidates" where
  "VmDirSortCandidateList c =
     (if eIdsSorted c then c else c\<lparr>eIds := map_option sort (eIds c), eIdsSorted := True\<rparr>)"

section \<open>Set operations\<close>

text \<open>The loops of the three operations; \<open>res\<close> is the new list that \<open>VmDirAddToCandidates\<close> fills.\<close>

fun add_rest :: "(nat \<Rightarrow> bool) \<Rightarrow> entry_id list \<Rightarrow> candidates \<Rightarrow> (rc \<times> candidates) option" where
  "add_rest mem [] res = Some (None, res)"
| "add_rest mem (x # xs) res =
     do {
       (err, res') \<leftarrow> VmDirAddToCandidates mem res x;
       if err \<noteq> None then Some (err, res') else add_rest mem xs res'
     }"

fun intersect_loop :: "(nat \<Rightarrow> bool) \<Rightarrow> entry_id list \<Rightarrow> entry_id list \<Rightarrow> candidates \<Rightarrow> (rc \<times> candidates) option" where
  "intersect_loop mem (s # ss) (d # ds) res =
     (if s < d then intersect_loop mem ss (d # ds) res
      else if d < s then intersect_loop mem (s # ss) ds res
      else do {
        (err, res') \<leftarrow> VmDirAddToCandidates mem res d;
        if err \<noteq> None then Some (err, res') else intersect_loop mem ss ds res'
      })"
| "intersect_loop mem _ _ res = Some (None, res)"

fun subtract_loop :: "(nat \<Rightarrow> bool) \<Rightarrow> entry_id list \<Rightarrow> entry_id list \<Rightarrow> candidates \<Rightarrow> (rc \<times> candidates) option" where
  "subtract_loop mem (s # ss) (d # ds) res =
     (if s < d then subtract_loop mem ss (d # ds) res
      else if d < s then
        do {
          (err, res') \<leftarrow> VmDirAddToCandidates mem res d;
          if err \<noteq> None then Some (err, res') else subtract_loop mem (s # ss) ds res'
        }
      else subtract_loop mem ss ds res)"
| "subtract_loop mem _ ds res = add_rest mem ds res"

fun union_loop :: "(nat \<Rightarrow> bool) \<Rightarrow> entry_id list \<Rightarrow> entry_id list \<Rightarrow> candidates \<Rightarrow> (rc \<times> candidates) option" where
  "union_loop mem (s # ss) (d # ds) res =
     (if s < d then
        do {
          (err, res') \<leftarrow> VmDirAddToCandidates mem res s;
          if err \<noteq> None then Some (err, res') else union_loop mem ss (d # ds) res'
        }
      else if d < s then
        do {
          (err, res') \<leftarrow> VmDirAddToCandidates mem res d;
          if err \<noteq> None then Some (err, res') else union_loop mem (s # ss) ds res'
        }
      else
        do {
          (err, res') \<leftarrow> VmDirAddToCandidates mem res d;
          if err \<noteq> None then Some (err, res') else union_loop mem ss ds res'
        })"
| "union_loop mem ss [] res = add_rest mem ss res"
| "union_loop mem [] ds res = add_rest mem ds res"

text \<open>
  How the three operations end: the new list replaces the destination, marked sorted; after an
  error it is emptied instead. A new list that could not be allocated is dereferenced.
\<close>

definition merge_end :: "(rc \<times> candidates) option \<Rightarrow> candidates option" where
  "merge_end r =
     do {
       (err, res) \<leftarrow> r;
       Some (if err = None then res\<lparr>eIdsSorted := True\<rparr> else res\<lparr>eIds := Some []\<rparr>)
     }"

text \<open>The results are the source, which is sorted in place, and the destination.\<close>

definition IntersectCandidates :: "(nat \<Rightarrow> bool) \<Rightarrow> candidates \<Rightarrow> candidates \<Rightarrow> (candidates \<times> candidates) option" where
  "IntersectCandidates mem src dst =
     (if positive src \<noteq> positive dst then None
      else if cl_size dst = 0 then Some (src, dst)
      else if cl_size src = 0 then Some (src, dst\<lparr>eIds := None\<rparr>)
      else
        (let dst1 = VmDirSortCandidateList dst; src1 = VmDirSortCandidateList src in
         do {
           new \<leftarrow> NewCandidates mem (if cl_size dst \<le> cl_size src then cl_size dst else cl_size src) (positive src);
           res0 \<leftarrow> new;
           res \<leftarrow> merge_end (intersect_loop mem (cl_ids src1) (cl_ids dst1) res0);
           Some (src1, res)
         }))"

definition SubtractCandidates :: "(nat \<Rightarrow> bool) \<Rightarrow> candidates \<Rightarrow> candidates \<Rightarrow> (candidates \<times> candidates) option" where
  "SubtractCandidates mem src dst =
     (if positive src = positive dst then None
      else if cl_size dst = 0 \<or> cl_size src = 0 then Some (src, dst)
      else
        (let dst1 = VmDirSortCandidateList dst; src1 = VmDirSortCandidateList src in
         do {
           new \<leftarrow> NewCandidates mem (cl_size dst) (positive dst);
           res0 \<leftarrow> new;
           res \<leftarrow> merge_end (subtract_loop mem (cl_ids src1) (cl_ids dst1) res0);
           Some (src1, res)
         }))"

text \<open>An empty destination is replaced by the source, which is then gone.\<close>

definition UnionCandidates :: "(nat \<Rightarrow> bool) \<Rightarrow> candidates \<Rightarrow> candidates \<Rightarrow> (candidates option \<times> candidates) option" where
  "UnionCandidates mem src dst =
     (if positive src \<noteq> positive dst then None
      else if cl_size src = 0 then Some (Some src, dst)
      else if cl_size dst = 0 then Some (None, src)
      else
        (let dst1 = VmDirSortCandidateList dst; src1 = VmDirSortCandidateList src in
         do {
           new \<leftarrow> NewCandidates mem (cl_size src + cl_size dst) (positive src);
           res0 \<leftarrow> new;
           res \<leftarrow> merge_end (union_loop mem (cl_ids src1) (cl_ids dst1) res0);
           Some (Some src1, res)
         }))"

section \<open>Results of filters\<close>

datatype filter_res = FILTER_RES_NORMAL | FILTER_RES_TRUE | FILTER_RES_FALSE | FILTER_RES_UNDEFINED

record filter_state =
  computeResult :: filter_res
  iMaxIndexScan :: nat
  bAncestorGotPositiveCandidateSet :: bool
  candidates :: "candidates option"

text \<open>The candidate lists of two filters combined; source and destination afterwards.\<close>

definition and_candidates :: "(nat \<Rightarrow> bool) \<Rightarrow> filter_state \<Rightarrow> filter_state \<Rightarrow> (filter_state \<times> filter_state) option" where
  "and_candidates mem src dst =
     (case (candidates src, candidates dst) of
        (None, _) \<Rightarrow> Some (src, dst)
      | (Some s, None) \<Rightarrow> Some (src\<lparr>candidates := None\<rparr>, dst\<lparr>candidates := Some s\<rparr>)
      | (Some s, Some d) \<Rightarrow>
          (if positive d \<and> positive s then
             do { (s', d') \<leftarrow> IntersectCandidates mem s d;
                  Some (src\<lparr>candidates := Some s'\<rparr>, dst\<lparr>candidates := Some d'\<rparr>) }
           else if positive d then
             do { (s', d') \<leftarrow> SubtractCandidates mem s d;
                  Some (src\<lparr>candidates := Some s'\<rparr>, dst\<lparr>candidates := Some d'\<rparr>) }
           else if \<not> positive s then
             do { (s', d') \<leftarrow> UnionCandidates mem s d;
                  Some (src\<lparr>candidates := s'\<rparr>, dst\<lparr>candidates := Some d'\<rparr>) }
           else None))"

definition AndFilterResults :: "(nat \<Rightarrow> bool) \<Rightarrow> filter_state \<Rightarrow> filter_state \<Rightarrow> (filter_state \<times> filter_state) option" where
  "AndFilterResults mem src dst =
     (case computeResult src of
        FILTER_RES_NORMAL \<Rightarrow>
          (case computeResult dst of
             FILTER_RES_NORMAL \<Rightarrow> and_candidates mem src dst
           | FILTER_RES_TRUE \<Rightarrow>
               (if candidates src \<noteq> None
                then Some (src\<lparr>candidates := None\<rparr>,
                           dst\<lparr>candidates := candidates src, computeResult := FILTER_RES_NORMAL\<rparr>)
                else Some (src, dst))
           | _ \<Rightarrow> Some (src, dst))
      | FILTER_RES_TRUE \<Rightarrow>
          (case computeResult dst of
             FILTER_RES_NORMAL \<Rightarrow>
               Some (src, if candidates dst = None then dst\<lparr>computeResult := FILTER_RES_TRUE\<rparr> else dst)
           | _ \<Rightarrow> Some (src, dst))
      | FILTER_RES_FALSE \<Rightarrow> Some (src, dst\<lparr>candidates := None, computeResult := FILTER_RES_FALSE\<rparr>)
      | FILTER_RES_UNDEFINED \<Rightarrow>
          (case computeResult dst of
             FILTER_RES_NORMAL \<Rightarrow> Some (src, dst\<lparr>candidates := None, computeResult := FILTER_RES_UNDEFINED\<rparr>)
           | FILTER_RES_TRUE \<Rightarrow> Some (src, dst\<lparr>computeResult := FILTER_RES_UNDEFINED\<rparr>)
           | _ \<Rightarrow> Some (src, dst)))"

definition NotFilterResults :: "filter_state \<Rightarrow> filter_state \<Rightarrow> filter_state \<times> filter_state" where
  "NotFilterResults src dst =
     (case computeResult src of
        FILTER_RES_NORMAL \<Rightarrow>
          (let dst1 = dst\<lparr>computeResult := FILTER_RES_NORMAL\<rparr> in
           case candidates src of
             None \<Rightarrow> (src, dst1)
           | Some c \<Rightarrow> (src\<lparr>candidates := None\<rparr>, dst1\<lparr>candidates := Some (c\<lparr>positive := \<not> positive c\<rparr>)\<rparr>))
      | FILTER_RES_TRUE \<Rightarrow> (src, dst\<lparr>computeResult := FILTER_RES_FALSE\<rparr>)
      | FILTER_RES_FALSE \<Rightarrow> (src, dst\<lparr>computeResult := FILTER_RES_TRUE\<rparr>)
      | FILTER_RES_UNDEFINED \<Rightarrow> (src, dst\<lparr>computeResult := FILTER_RES_UNDEFINED\<rparr>))"

definition or_candidates :: "(nat \<Rightarrow> bool) \<Rightarrow> filter_state \<Rightarrow> filter_state \<Rightarrow> (filter_state \<times> filter_state) option" where
  "or_candidates mem src dst =
     (case candidates src of
        None \<Rightarrow> Some (src, dst\<lparr>candidates := None, computeResult := FILTER_RES_TRUE\<rparr>)
      | Some s \<Rightarrow>
          (if \<not> positive s then Some (src, dst\<lparr>candidates := None, computeResult := FILTER_RES_TRUE\<rparr>)
           else case candidates dst of
                  None \<Rightarrow> Some (src\<lparr>candidates := None\<rparr>, dst\<lparr>candidates := Some s\<rparr>)
                | Some d \<Rightarrow>
                    (if positive d then
                       do { (s', d') \<leftarrow> UnionCandidates mem s d;
                            Some (src\<lparr>candidates := s'\<rparr>, dst\<lparr>candidates := Some d'\<rparr>) }
                     else None)))"

definition OrFilterResults :: "(nat \<Rightarrow> bool) \<Rightarrow> filter_state \<Rightarrow> filter_state \<Rightarrow> (filter_state \<times> filter_state) option" where
  "OrFilterResults mem src dst =
     (case computeResult src of
        FILTER_RES_NORMAL \<Rightarrow>
          (case computeResult dst of
             FILTER_RES_NORMAL \<Rightarrow> or_candidates mem src dst
           | FILTER_RES_TRUE \<Rightarrow> Some (src, dst)
           | _ \<Rightarrow> or_candidates mem src (dst\<lparr>computeResult := FILTER_RES_NORMAL\<rparr>))
      | FILTER_RES_TRUE \<Rightarrow> Some (src, dst\<lparr>candidates := None, computeResult := FILTER_RES_TRUE\<rparr>)
      | FILTER_RES_FALSE \<Rightarrow> Some (src, dst)
      | FILTER_RES_UNDEFINED \<Rightarrow>
          (case computeResult dst of
             FILTER_RES_FALSE \<Rightarrow> Some (src, dst\<lparr>computeResult := FILTER_RES_UNDEFINED\<rparr>)
           | _ \<Rightarrow> Some (src, dst)))"


section \<open>The loops as functions on lists\<close>

fun inter_list :: "entry_id list \<Rightarrow> entry_id list \<Rightarrow> entry_id list" where
  "inter_list (s # ss) (d # ds) =
     (if s < d then inter_list ss (d # ds) else if d < s then inter_list (s # ss) ds else d # inter_list ss ds)"
| "inter_list _ _ = []"

fun minus_list :: "entry_id list \<Rightarrow> entry_id list \<Rightarrow> entry_id list" where
  "minus_list (s # ss) (d # ds) =
     (if s < d then minus_list ss (d # ds) else if d < s then d # minus_list (s # ss) ds else minus_list ss ds)"
| "minus_list _ ds = ds"

fun union_list :: "entry_id list \<Rightarrow> entry_id list \<Rightarrow> entry_id list" where
  "union_list (s # ss) (d # ds) =
     (if s < d then s # union_list ss (d # ds) else if d < s then d # union_list (s # ss) ds else d # union_list ss ds)"
| "union_list ss [] = ss"
| "union_list [] ds = ds"

lemma set_inter_list: "sorted ss \<Longrightarrow> sorted ds \<Longrightarrow> set (inter_list ss ds) = set ss \<inter> set ds"
  by (induction ss ds rule: inter_list.induct) force+

lemma set_union_list: "set (union_list ss ds) = set ss \<union> set ds"
  by (induction ss ds rule: union_list.induct) auto

lemma set_minus_list_upper: "set (minus_list ss ds) \<subseteq> set ds"
  by (induction ss ds rule: minus_list.induct) auto

lemma set_minus_list_lower: "set ds - set ss \<subseteq> set (minus_list ss ds)"
  by (induction ss ds rule: minus_list.induct) auto

lemma set_minus_list:
  "sorted ss \<Longrightarrow> sorted_wrt (<) ds \<Longrightarrow> set (minus_list ss ds) = set ds - set ss"
  by (induction ss ds rule: minus_list.induct) force+

lemma sorted_inter_list: "sorted ss \<Longrightarrow> sorted ds \<Longrightarrow> sorted (inter_list ss ds)"
  by (induction ss ds rule: inter_list.induct) (auto simp: set_inter_list)

lemma sorted_minus_list: "sorted ds \<Longrightarrow> sorted (minus_list ss ds)"
  by (induction ss ds rule: minus_list.induct) (auto dest: subsetD [OF set_minus_list_upper])

lemma sorted_union_list: "sorted ss \<Longrightarrow> sorted ds \<Longrightarrow> sorted (union_list ss ds)"
  by (induction ss ds rule: union_list.induct) (auto simp: set_union_list less_imp_le)

lemma length_inter_list: "length (inter_list ss ds) \<le> min (length ss) (length ds)"
  by (induction ss ds rule: inter_list.induct) auto

lemma length_minus_list: "length (minus_list ss ds) \<le> length ds"
  by (induction ss ds rule: minus_list.induct) auto

lemma length_union_list: "length (union_list ss ds) \<le> length ss + length ds"
  by (induction ss ds rule: union_list.induct) auto

text \<open>A new list has room for everything that is added, so it never grows.\<close>

lemma add_room:
  assumes "eIds c = Some xs" and "length xs < cl_max c"
  shows "VmDirAddToCandidates mem c x = Some (None, c\<lparr>eIds := Some (xs @ [x])\<rparr>)"
  using assms by (simp add: VmDirAddToCandidates_def cl_size_def cl_ids_def)

lemma add_rest_room:
  "eIds c = Some xs \<Longrightarrow> length xs + length ys \<le> cl_max c \<Longrightarrow> add_rest mem ys c = Some (None, c\<lparr>eIds := Some (xs @ ys)\<rparr>)"
  by (induction ys arbitrary: c xs) (simp_all add: add_room)

lemma intersect_loop_room:
  "eIds c = Some xs \<Longrightarrow> length xs + length (inter_list ss ds) \<le> cl_max c \<Longrightarrow>
     intersect_loop mem ss ds c = Some (None, c\<lparr>eIds := Some (xs @ inter_list ss ds)\<rparr>)"
  by (induction ss ds arbitrary: c xs rule: inter_list.induct) (auto simp: add_room split: if_splits)

lemma subtract_loop_room:
  "eIds c = Some xs \<Longrightarrow> length xs + length (minus_list ss ds) \<le> cl_max c \<Longrightarrow>
     subtract_loop mem ss ds c = Some (None, c\<lparr>eIds := Some (xs @ minus_list ss ds)\<rparr>)"
  by (induction ss ds arbitrary: c xs rule: minus_list.induct) (auto simp: add_room add_rest_room split: if_splits)

lemma union_loop_room:
  "eIds c = Some xs \<Longrightarrow> length xs + length (union_list ss ds) \<le> cl_max c \<Longrightarrow>
     union_loop mem ss ds c = Some (None, c\<lparr>eIds := Some (xs @ union_list ss ds)\<rparr>)"
  by (induction ss ds arbitrary: c xs rule: union_list.induct) (auto simp: add_room add_rest_room split: if_splits)


section \<open>The operations as set operations\<close>

abbreviation cl_set :: "candidates \<Rightarrow> entry_id set" where
  "cl_set c \<equiv> set (cl_ids c)"

definition cl_ok :: "candidates \<Rightarrow> bool" where
  "cl_ok c \<longleftrightarrow> cl_size c < 2 ^ 31 \<and> (eIdsSorted c \<longrightarrow> sorted (cl_ids c))"

text \<open>The same list, sorted or not.\<close>

definition cl_same :: "candidates \<Rightarrow> candidates \<Rightarrow> bool" where
  "cl_same c c' \<longleftrightarrow> cl_ok c' \<and> cl_set c' = cl_set c \<and> cl_size c' = cl_size c \<and> positive c' = positive c"

lemma cl_ids_simps [simp]:
  "cl_ids (c\<lparr>eIds := Some xs\<rparr>) = xs" "cl_ids (c\<lparr>eIds := None\<rparr>) = []"
  "cl_ids (c\<lparr>eIdsSorted := b\<rparr>) = cl_ids c" "cl_ids (c\<lparr>positive := b\<rparr>) = cl_ids c"
  by (simp_all add: cl_ids_def)

lemma cl_size_0: "cl_size c = 0 \<longleftrightarrow> cl_ids c = []"
  by (simp add: cl_size_def)

lemma ids_sorted [simp]: "cl_ok c \<Longrightarrow> sorted (cl_ids (VmDirSortCandidateList c))"
  by (auto simp: VmDirSortCandidateList_def cl_ok_def cl_ids_def split: option.split)

lemma ids_sort: "mset (cl_ids (VmDirSortCandidateList c)) = mset (cl_ids c)"
  by (auto simp: VmDirSortCandidateList_def cl_ids_def split: option.split)

lemma sort_same: "cl_ok c \<Longrightarrow> cl_same c (VmDirSortCandidateList c)"
  using ids_sort [of c] mset_eq_length [OF ids_sort [of c]] mset_eq_setD [OF ids_sort [of c]] ids_sorted [of c]
  by (simp add: cl_same_def cl_ok_def cl_size_def) (simp add: VmDirSortCandidateList_def)

lemma cl_same_refl: "cl_ok c \<Longrightarrow> cl_same c c"
  by (simp add: cl_same_def)

text \<open>A new list filled by one of the loops and put in place of the destination.\<close>

lemma merged:
  assumes "\<forall>n. mem n" and "0 < k" and "k < 2 ^ 31" and "length ys \<le> k" and "sorted ys"
    and loop: "\<And>c. eIds c = Some [] \<Longrightarrow> length ys \<le> cl_max c \<Longrightarrow> f c = Some (None, c\<lparr>eIds := Some ys\<rparr>)"
  obtains c where "do { new \<leftarrow> NewCandidates mem k p; res0 \<leftarrow> new; res \<leftarrow> merge_end (f res0); Some (src, res) } = Some (src, c)"
    and "cl_ids c = ys" and "cl_ok c" and "positive c = p"
proof -
  let ?n = "\<lparr>eIds = Some [], cl_max = k, positive = p, eIdsSorted = False\<rparr>"
  have "NewCandidates mem k p = Some (Some ?n)"
    using assms(1-3) by (simp add: NewCandidates_def VmDirAllocateMemory_def)
  moreover have "f ?n = Some (None, ?n\<lparr>eIds := Some ys\<rparr>)" by (rule loop) (simp_all add: assms(4))
  ultimately show ?thesis using that [of "?n\<lparr>eIds := Some ys, eIdsSorted := True\<rparr>"] assms(3-5)
    by (simp add: merge_end_def cl_ok_def cl_size_def cl_ids_def)
qed

lemma IntersectCandidates_set:
  assumes "\<forall>n. mem n" and "cl_ok src" and "cl_ok dst" and "positive src = positive dst"
  obtains src' dst' where "IntersectCandidates mem src dst = Some (src', dst')" and "cl_same src src'"
    and "cl_ok dst'" and "cl_set dst' = cl_set src \<inter> cl_set dst" and "positive dst' = positive dst" and "cl_size dst' \<le> cl_size dst"
proof (cases "cl_size dst = 0 \<or> cl_size src = 0")
  case True
  then show ?thesis
    using that [of src dst] that [of src "dst\<lparr>eIds := None\<rparr>"] assms
    by (cases "cl_size dst = 0") (auto simp: IntersectCandidates_def cl_same_refl cl_size_0 cl_ok_def cl_size_def)
next
  case False
  let ?s = "VmDirSortCandidateList src" and ?d = "VmDirSortCandidateList dst"
  let ?k = "if cl_size dst \<le> cl_size src then cl_size dst else cl_size src"
  have sz: "length (cl_ids ?s) = cl_size src" "length (cl_ids ?d) = cl_size dst"
    using sort_same [OF assms(2)] sort_same [OF assms(3)] by (simp_all add: cl_same_def cl_size_def)
  obtain c where c: "do { new \<leftarrow> NewCandidates mem ?k (positive src); res0 \<leftarrow> new;
      res \<leftarrow> merge_end (intersect_loop mem (cl_ids ?s) (cl_ids ?d) res0); Some (?s, res) } = Some (?s, c)"
    "cl_ids c = inter_list (cl_ids ?s) (cl_ids ?d)" "cl_ok c" "positive c = positive src"
  proof (rule merged [OF assms(1), of ?k "inter_list (cl_ids ?s) (cl_ids ?d)" "intersect_loop mem (cl_ids ?s) (cl_ids ?d)" "positive src" ?s])
    show "0 < ?k" "?k < 2 ^ 31" using False assms(2,3) by (auto simp: cl_ok_def)
    show le: "length (inter_list (cl_ids ?s) (cl_ids ?d)) \<le> ?k"
      using length_inter_list [of "cl_ids ?s" "cl_ids ?d"] sz by auto
    show "sorted (inter_list (cl_ids ?s) (cl_ids ?d))" using assms(2,3) by (simp add: sorted_inter_list)
    show "intersect_loop mem (cl_ids ?s) (cl_ids ?d) c = Some (None, c\<lparr>eIds := Some (inter_list (cl_ids ?s) (cl_ids ?d))\<rparr>)"
      if "eIds c = Some []" "length (inter_list (cl_ids ?s) (cl_ids ?d)) \<le> cl_max c" for c
      using intersect_loop_room [OF that(1)] that(2) by simp
  qed (rule that)
  have "cl_set c = cl_set src \<inter> cl_set dst"
    using c(2) sort_same [OF assms(2)] sort_same [OF assms(3)] assms(2,3) by (simp add: set_inter_list cl_same_def)
  moreover have "cl_size c \<le> cl_size dst" using length_inter_list [of "cl_ids ?s" "cl_ids ?d"] sz c(2) by (simp add: cl_size_def)
  ultimately show ?thesis using that [of ?s c] False assms(4) c sort_same [OF assms(2)]
    by (simp add: IntersectCandidates_def Let_def)
qed

lemma SubtractCandidates_set:
  assumes "\<forall>n. mem n" and "cl_ok src" and "cl_ok dst" and "positive src \<noteq> positive dst"
  obtains src' dst' where "SubtractCandidates mem src dst = Some (src', dst')" and "cl_same src src'"
    and "cl_ok dst'" and "cl_set dst - cl_set src \<subseteq> cl_set dst'" and "cl_set dst' \<subseteq> cl_set dst"
    and "distinct (cl_ids dst) \<Longrightarrow> cl_set dst' = cl_set dst - cl_set src"
    and "positive dst' = positive dst" and "cl_size dst' \<le> cl_size dst"
proof (cases "cl_size dst = 0 \<or> cl_size src = 0")
  case True
  then show ?thesis
    using that [of src dst] assms by (auto simp: SubtractCandidates_def cl_same_refl cl_size_0)
next
  case False
  let ?s = "VmDirSortCandidateList src" and ?d = "VmDirSortCandidateList dst"
  let ?m = "minus_list (cl_ids ?s) (cl_ids ?d)"
  have sz: "length (cl_ids ?d) = cl_size dst"
    using sort_same [OF assms(3)] by (simp add: cl_same_def cl_size_def)
  obtain c where c: "do { new \<leftarrow> NewCandidates mem (cl_size dst) (positive dst); res0 \<leftarrow> new;
      res \<leftarrow> merge_end (subtract_loop mem (cl_ids ?s) (cl_ids ?d) res0); Some (?s, res) } = Some (?s, c)"
    "cl_ids c = ?m" "cl_ok c" "positive c = positive dst"
  proof (rule merged [OF assms(1), of "cl_size dst" ?m "subtract_loop mem (cl_ids ?s) (cl_ids ?d)" "positive dst" ?s])
    show "0 < cl_size dst" "cl_size dst < 2 ^ 31" using False assms(3) by (auto simp: cl_ok_def)
    show le: "length ?m \<le> cl_size dst" using length_minus_list [of "cl_ids ?s" "cl_ids ?d"] sz by simp
    show "sorted ?m" using assms(3) by (simp add: sorted_minus_list)
    show "subtract_loop mem (cl_ids ?s) (cl_ids ?d) c = Some (None, c\<lparr>eIds := Some ?m\<rparr>)"
      if "eIds c = Some []" "length ?m \<le> cl_max c" for c
      using subtract_loop_room [OF that(1)] that(2) by simp
  qed (rule that)
  have sets: "cl_set ?s = cl_set src" "cl_set ?d = cl_set dst"
    using sort_same [OF assms(2)] sort_same [OF assms(3)] by (simp_all add: cl_same_def)
  have "sorted_wrt (<) (cl_ids ?d)" if "distinct (cl_ids dst)"
    using that mset_eq_imp_distinct_iff [OF ids_sort [of dst]] assms(3) by (simp add: strict_sorted_iff)
  then have "distinct (cl_ids dst) \<Longrightarrow> cl_set c = cl_set dst - cl_set src"
    using c(2) sets assms(2) by (simp add: set_minus_list)
  moreover have "cl_size c \<le> cl_size dst" using length_minus_list [of "cl_ids ?s" "cl_ids ?d"] sz c(2) by (simp add: cl_size_def)
  ultimately show ?thesis using that [of ?s c] False assms(4) c sort_same [OF assms(2)] sets
      set_minus_list_upper [of "cl_ids ?s" "cl_ids ?d"] set_minus_list_lower [of "cl_ids ?d" "cl_ids ?s"]
    by (simp add: SubtractCandidates_def Let_def)
qed

lemma UnionCandidates_set:
  assumes "\<forall>n. mem n" and "cl_ok src" and "cl_ok dst" and "positive src = positive dst" and "cl_size src + cl_size dst < 2 ^ 31"
  obtains src' dst' where "UnionCandidates mem src dst = Some (src', dst')" and "pred_option (cl_same src) src'"
    and "cl_ok dst'" and "cl_set dst' = cl_set src \<union> cl_set dst" and "positive dst' = positive dst"
    and "cl_size dst' \<le> cl_size src + cl_size dst"
proof (cases "cl_size dst = 0 \<or> cl_size src = 0")
  case True
  then show ?thesis
    using that [of "Some src" dst] that [of None src] assms
    by (cases "cl_size src = 0") (auto simp: UnionCandidates_def cl_same_refl cl_size_0)
next
  case False
  let ?s = "VmDirSortCandidateList src" and ?d = "VmDirSortCandidateList dst"
  let ?m = "union_list (cl_ids ?s) (cl_ids ?d)"
  have sz: "length (cl_ids ?s) = cl_size src" "length (cl_ids ?d) = cl_size dst"
    using sort_same [OF assms(2)] sort_same [OF assms(3)] by (simp_all add: cl_same_def cl_size_def)
  obtain c where c: "do { new \<leftarrow> NewCandidates mem (cl_size src + cl_size dst) (positive src); res0 \<leftarrow> new;
      res \<leftarrow> merge_end (union_loop mem (cl_ids ?s) (cl_ids ?d) res0); Some (Some ?s, res) } = Some (Some ?s, c)"
    "cl_ids c = ?m" "cl_ok c" "positive c = positive src"
  proof (rule merged [OF assms(1), of "cl_size src + cl_size dst" ?m "union_loop mem (cl_ids ?s) (cl_ids ?d)" "positive src" "Some ?s"])
    show "0 < cl_size src + cl_size dst" "cl_size src + cl_size dst < 2 ^ 31" using False assms(5) by auto
    show le: "length ?m \<le> cl_size src + cl_size dst" using length_union_list [of "cl_ids ?s" "cl_ids ?d"] sz by simp
    show "sorted ?m" using assms(2,3) by (simp add: sorted_union_list)
    show "union_loop mem (cl_ids ?s) (cl_ids ?d) c = Some (None, c\<lparr>eIds := Some ?m\<rparr>)"
      if "eIds c = Some []" "length ?m \<le> cl_max c" for c
      using union_loop_room [OF that(1)] that(2) by simp
  qed (rule that)
  have "cl_set c = cl_set src \<union> cl_set dst"
    using c(2) sort_same [OF assms(2)] sort_same [OF assms(3)] by (simp add: set_union_list cl_same_def)
  moreover have "cl_size c \<le> cl_size src + cl_size dst"
    using length_union_list [of "cl_ids ?s" "cl_ids ?d"] sz c(2) by (simp add: cl_size_def)
  ultimately show ?thesis using that [of "Some ?s" c] False assms(4) c sort_same [OF assms(2)]
    by (simp add: UnionCandidates_def Let_def)
qed


section \<open>What the result of a filter stands for\<close>

text \<open>
  The entries that the result of a filter leaves in a search. A filter whose attribute is not
  indexed has no list and excludes nothing.
\<close>

definition list_allows :: "candidates \<Rightarrow> entry_id \<Rightarrow> bool" where
  "list_allows c e \<longleftrightarrow> (e \<in> cl_set c) = positive c"

definition allows :: "filter_state \<Rightarrow> entry_id \<Rightarrow> bool" where
  "allows st e =
     (case computeResult st of
        FILTER_RES_NORMAL \<Rightarrow> pred_option (\<lambda>c. list_allows c e) (candidates st)
      | FILTER_RES_TRUE \<Rightarrow> True
      | _ \<Rightarrow> False)"

text \<open>The destination of a disjunction that has no list yet allows nothing so far.\<close>

definition allows_so_far :: "filter_state \<Rightarrow> entry_id \<Rightarrow> bool" where
  "allows_so_far st e \<longleftrightarrow> allows st e \<and> (computeResult st = FILTER_RES_NORMAL \<longrightarrow> candidates st \<noteq> None)"

definition st_size :: "filter_state \<Rightarrow> nat" where
  "st_size st = (case candidates st of None \<Rightarrow> 0 | Some c \<Rightarrow> cl_size c)"

definition st_pos :: "filter_state \<Rightarrow> bool" where
  "st_pos st \<longleftrightarrow> pred_option positive (candidates st)"

definition st_ok :: "filter_state \<Rightarrow> bool" where
  "st_ok st \<longleftrightarrow> pred_option cl_ok (candidates st) \<and> (computeResult st \<noteq> FILTER_RES_NORMAL \<longrightarrow> candidates st = None)"

text \<open>A filter that has given its list away, or has it sorted now.\<close>

definition st_used :: "filter_state \<Rightarrow> filter_state \<Rightarrow> bool" where
  "st_used st st' \<longleftrightarrow> st_ok st' \<and> (\<exists>c. st' = st\<lparr>candidates := c\<rparr> \<and> (c = None \<or> c = candidates st \<or>
     (\<exists>a b. candidates st = Some a \<and> c = Some b \<and> cl_same a b)))"

lemma st_used_refl: "st_ok st \<Longrightarrow> st_used st st"
  unfolding st_used_def by (intro conjI exI [of _ "candidates st"]) simp_all

lemma st_used_None: "st_ok st \<Longrightarrow> st_used st (st\<lparr>candidates := None\<rparr>)"
  by (auto simp: st_used_def st_ok_def)

lemma st_used_same:
  "st_ok st \<Longrightarrow> candidates st = Some a \<Longrightarrow> pred_option (cl_same a) b \<Longrightarrow> st_used st (st\<lparr>candidates := b\<rparr>)"
  by (cases b) (auto simp: st_used_def st_ok_def cl_same_def)

lemma st_usedD:
  assumes "st_used st st'"
  shows "st_ok st'" "computeResult st' = computeResult st" "iMaxIndexScan st' = iMaxIndexScan st"
    "allows st e \<Longrightarrow> allows st' e" "st_pos st \<Longrightarrow> st_pos st'" "st_size st' \<le> st_size st"
    "candidates st = None \<Longrightarrow> candidates st' = None"
  using assms by (auto simp: st_used_def allows_def list_allows_def st_pos_def st_size_def cl_same_def split: filter_res.splits option.splits)

definition compatible :: "filter_state \<Rightarrow> filter_state \<Rightarrow> bool" where
  "compatible src dst \<longleftrightarrow>
     (case (candidates src, candidates dst) of (Some s, Some d) \<Rightarrow> positive s \<longrightarrow> positive d | _ \<Rightarrow> True)"


text \<open>What a conjunction or disjunction keeps of its two sides.\<close>

definition combined :: "filter_state \<Rightarrow> filter_state \<Rightarrow> filter_state \<Rightarrow> filter_state \<Rightarrow> bool" where
  "combined src dst src' dst' \<longleftrightarrow>
     st_used src src' \<and> st_ok dst' \<and> st_size dst' \<le> st_size src + st_size dst \<and>
     (st_pos src \<longrightarrow> st_pos dst \<longrightarrow> st_pos dst') \<and>
     (computeResult dst' = FILTER_RES_NORMAL \<and> candidates dst' = None \<longrightarrow>
        candidates src = None \<and> candidates dst = None \<and> computeResult dst = FILTER_RES_NORMAL)"

text \<open>
  A conjunction allows what both sides allow; when ids are subtracted from a list with
  duplicates it may allow more.
\<close>

definition and_allows :: "filter_state \<Rightarrow> filter_state \<Rightarrow> filter_state \<Rightarrow> bool" where
  "and_allows src dst dst' \<longleftrightarrow>
     (\<forall>e. allows src e \<and> allows dst e \<longrightarrow> allows dst' e) \<and>
     (pred_option (\<lambda>d. distinct (cl_ids d)) (candidates dst) \<longrightarrow> (\<forall>e. allows dst' e \<longrightarrow> allows src e \<and> allows dst e))"

lemma and_candidates_allows:
  assumes mem: "\<forall>n. mem n" and ok: "st_ok src" "st_ok dst" and sz: "st_size src + st_size dst < 2 ^ 31" and c: "compatible src dst"
    and n: "computeResult src = FILTER_RES_NORMAL" "computeResult dst = FILTER_RES_NORMAL"
  shows "\<exists>src' dst'. and_candidates mem src dst = Some (src', dst') \<and> combined src dst src' dst' \<and> and_allows src dst dst'"
proof -
  note defs = and_candidates_def combined_def and_allows_def allows_def list_allows_def st_ok_def st_size_def st_pos_def
  consider "candidates src = None" | s where "candidates src = Some s" "candidates dst = None"
    | s d where "candidates src = Some s" "candidates dst = Some d"
    by (cases "candidates src"; cases "candidates dst") auto
  then show ?thesis
  proof cases
    case 1
    then show ?thesis using ok n st_used_refl [OF ok(1)] by (simp add: defs)
  next
    case 2
    then show ?thesis using ok n st_used_None [OF ok(1)] by (simp add: defs)
  next
    case 3
    have o: "cl_ok s" "cl_ok d" "cl_size s + cl_size d < 2 ^ 31" "positive s \<longrightarrow> positive d"
      using ok sz c 3 by (simp_all add: st_ok_def st_size_def compatible_def)
    consider "positive s" "positive d" | "\<not> positive s" "positive d" | "\<not> positive s" "\<not> positive d" using o(4) by blast
    then show ?thesis
    proof cases
      case 1
      then obtain s' d' where i: "IntersectCandidates mem s d = Some (s', d')" "cl_same s s'" "cl_ok d'"
        "cl_set d' = cl_set s \<inter> cl_set d" "positive d' = positive d" "cl_size d' \<le> cl_size d"
        using IntersectCandidates_set [OF mem o(1,2)] by metis
      with 1 3 n st_used_same [OF ok(1) 3(1), of "Some s'"] show ?thesis by (auto simp: defs)
    next
      case 2
      then obtain s' d' where i: "SubtractCandidates mem s d = Some (s', d')" "cl_same s s'" "cl_ok d'"
        "cl_set d - cl_set s \<subseteq> cl_set d'" "cl_set d' \<subseteq> cl_set d" "distinct (cl_ids d) \<Longrightarrow> cl_set d' = cl_set d - cl_set s"
        "positive d' = positive d" "cl_size d' \<le> cl_size d"
        using SubtractCandidates_set [OF mem o(1,2)] by metis
      with 2 3 n st_used_same [OF ok(1) 3(1), of "Some s'"] show ?thesis by (auto simp: defs)
    next
      case 3
      then obtain s' d' where i: "UnionCandidates mem s d = Some (s', d')" "pred_option (cl_same s) s'" "cl_ok d'"
        "cl_set d' = cl_set s \<union> cl_set d" "positive d' = positive d" "cl_size d' \<le> cl_size s + cl_size d"
        using UnionCandidates_set [OF mem o(1,2) _ o(3)] by metis
      with 3 \<open>candidates src = Some s\<close> \<open>candidates dst = Some d\<close> n
        st_used_same [OF ok(1) \<open>candidates src = Some s\<close>, of s'] show ?thesis by (auto simp: defs)
    qed
  qed
qed

lemma AndFilterResults_allows:
  assumes mem: "\<forall>n. mem n" and ok: "st_ok src" "st_ok dst" and sz: "st_size src + st_size dst < 2 ^ 31" and c: "compatible src dst"
  shows "\<exists>src' dst'. AndFilterResults mem src dst = Some (src', dst') \<and> combined src dst src' dst' \<and> and_allows src dst dst'"
proof (cases "computeResult src = FILTER_RES_NORMAL \<and> computeResult dst = FILTER_RES_NORMAL")
  case True
  then show ?thesis using and_candidates_allows [OF assms] by (simp add: AndFilterResults_def)
next
  case False
  then show ?thesis
    using ok st_used_refl [OF ok(1)] st_used_None [OF ok(1)]
    by (cases "computeResult src"; cases "computeResult dst")
      (auto simp: AndFilterResults_def combined_def and_allows_def st_ok_def st_pos_def st_size_def allows_def)
qed

text \<open>A disjunction allows what either side allows; a negative list in it allows everything.\<close>

definition or_allows :: "filter_state \<Rightarrow> filter_state \<Rightarrow> filter_state \<Rightarrow> bool" where
  "or_allows src dst dst' \<longleftrightarrow>
     (\<forall>e. allows src e \<or> allows_so_far dst e \<longrightarrow> allows_so_far dst' e) \<and>
     (st_pos src \<longrightarrow> (\<forall>e. allows_so_far dst' e \<longrightarrow> allows src e \<or> allows_so_far dst e))"

lemma OrFilterResults_allows:
  assumes mem: "\<forall>n. mem n" and ok: "st_ok src" "st_ok dst" and sz: "st_size src + st_size dst < 2 ^ 31" and p: "st_pos dst"
  shows "\<exists>src' dst'. OrFilterResults mem src dst = Some (src', dst') \<and> combined src dst src' dst' \<and> or_allows src dst dst'"
proof (cases "\<exists>s d. candidates src = Some s \<and> positive s \<and> candidates dst = Some d")
  case True
  then obtain s d where sd: "candidates src = Some s" "positive s" "candidates dst = Some d" by blast
  then have o: "cl_ok s" "cl_ok d" "cl_size s + cl_size d < 2 ^ 31" "positive d"
    and n: "computeResult src = FILTER_RES_NORMAL" "computeResult dst = FILTER_RES_NORMAL"
    using ok sz p by (auto simp: st_ok_def st_size_def st_pos_def)
  obtain s' d' where i: "UnionCandidates mem s d = Some (s', d')" "pred_option (cl_same s) s'" "cl_ok d'"
    "cl_set d' = cl_set s \<union> cl_set d" "positive d' = positive d" "cl_size d' \<le> cl_size s + cl_size d"
    using UnionCandidates_set [OF mem o(1,2) _ o(3)] sd(2) o(4) by metis
  then show ?thesis
    using st_used_same [OF ok(1) sd(1) i(2)] sd n o
    by (auto simp: OrFilterResults_def or_candidates_def combined_def or_allows_def st_ok_def st_size_def st_pos_def
        allows_so_far_def allows_def list_allows_def)
next
  case False
  then show ?thesis
    using ok st_used_refl [OF ok(1)] st_used_None [OF ok(1)] p
    by (cases "computeResult src"; cases "computeResult dst"; cases "candidates src"; cases "candidates dst")
      (auto simp: OrFilterResults_def or_candidates_def combined_def or_allows_def st_ok_def st_pos_def st_size_def
        allows_so_far_def allows_def)
qed

end
