(* ===== verification/Ldap_Filter.thy ===== *)
theory Ldap_Filter
  imports Candidates
begin

text \<open>
  Search filters and their test on an entry, from \<open>lwraft/server/ldap-head/filter.c\<close>. A filter is
  a tree; the fields that a search changes are kept apart from it, in a map from the path of a
  node (the numbers of the components from the node up to the root) to its \<open>filter_state\<close>. The schema is a
  parameter: the matching rules of an attribute, the normal form of its values and of names.
  A block of memory holds a value and its terminating zero byte; reading outside it is an
  aborted run. Normal forms that the tests store in the entry are computed again instead.
\<close>

section \<open>Values, filters and entries\<close>

record berval =
  bv_val :: bytes
  bvnorm_val :: "bytes option"

definition BERVAL_NORM_VAL :: "berval \<Rightarrow> bytes" where
  "BERVAL_NORM_VAL v = (case bvnorm_val v of None \<Rightarrow> bv_val v | Some n \<Rightarrow> n) @ [0]"

definition BERVAL_NORM_LEN :: "berval \<Rightarrow> nat" where
  "BERVAL_NORM_LEN v =
     (case bvnorm_val v of
        None \<Rightarrow> length (bv_val v)
      | Some n \<Rightarrow> (if length n \<noteq> 0 then length n else length (bv_val v)))"

datatype match_type = VDIR_SCHEMA_MATCH_EQUAL | VDIR_SCHEMA_MATCH_GE | VDIR_SCHEMA_MATCH_LE

type_synonym compare_function = "match_type \<Rightarrow> berval \<Rightarrow> berval \<Rightarrow> bool"

record at_desc =
  pEqualityMR :: "compare_function option"
  pOrderingMR :: "compare_function option"

record ava =
  ava_pATDesc :: at_desc
  ava_type :: string
  ava_value :: berval

record sub_strings =
  ss_type :: string
  ss_initial :: berval
  ss_any :: "berval list"
  ss_final :: berval

datatype filter_choice =
    LDAP_FILTER_AND
  | LDAP_FILTER_OR
  | LDAP_FILTER_NOT
  | LDAP_FILTER_EQUALITY ava
  | LDAP_FILTER_GE ava
  | LDAP_FILTER_LE ava
  | LDAP_FILTER_SUBSTRINGS sub_strings
  | LDAP_FILTER_PRESENT string
  | FILTER_ONE_LEVEL_SEARCH berval
  | LDAP_FILTER_OTHER

datatype ldap_filter = Filter (f_choice: filter_choice) (f_complex: "ldap_filter list")

type_synonym path = "nat list"

record dir_entry =
  e_dn :: berval
  e_attrs :: "(string \<times> berval list) list"

record schema =
  sch_norm :: "string \<Rightarrow> bytes \<Rightarrow> bytes option"
  sch_dn :: "berval \<Rightarrow> berval option"
  sch_parent :: "berval \<Rightarrow> berval option"

definition ATTR_DN :: string where
  "ATTR_DN = ''entryDN''"

text \<open>The names of two attributes are the same.\<close>

definition same_type :: "string \<Rightarrow> string \<Rightarrow> bool" where
  "same_type a b \<longleftrightarrow> length a = length b \<and> VmDirStringCompareA a b False"

text \<open>A value with its normal form, computed if it is not there.\<close>

definition normalized :: "schema \<Rightarrow> string \<Rightarrow> berval \<Rightarrow> berval option" where
  "normalized sch a v =
     (case bvnorm_val v of
        Some n \<Rightarrow> Some v
      | None \<Rightarrow> map_option (\<lambda>n. v\<lparr>bvnorm_val := Some n\<rparr>) (sch_norm sch a (bv_val v)))"

section \<open>The library's memory functions\<close>

definition memcmp :: "bytes \<Rightarrow> nat \<Rightarrow> bytes \<Rightarrow> nat \<Rightarrow> bool option" where
  "memcmp a i b n =
     (if i + n \<le> length a \<and> n \<le> length b then Some (take n (drop i a) = take n b) else None)"

text \<open>\<open>memchr\<close> reads up to the first occurrence; the inner \<open>None\<close> is the null pointer.\<close>

definition memchr :: "bytes \<Rightarrow> nat \<Rightarrow> byte \<Rightarrow> nat \<Rightarrow> nat option option" where
  "memchr b i c n =
     (let w = take n (drop i b); k = length (takeWhile (\<lambda>x. x \<noteq> c) w) in
      if k < length w then Some (Some (i + k))
      else if i + n \<le> length b then Some None else None)"

section \<open>The tests\<close>

text \<open>
  The search for one ``any'' component, from the label \<open>next_pos\<close> on: \<open>pos\<close> is \<open>remainVal\<close> and
  \<open>len\<close> is \<open>remainLen\<close>. The code moves \<open>remainVal\<close> to the byte found and then subtracts the
  distance from it to itself, so \<open>remainLen\<close> keeps its value there.
\<close>

function any_search :: "bytes \<Rightarrow> bytes \<Rightarrow> nat \<Rightarrow> nat \<Rightarrow> nat \<Rightarrow> (nat \<times> nat) option option" where
  "any_search pat blk n pos len =
     (if n > len then Some None
      else case memchr blk pos (hd pat) len of
             None \<Rightarrow> None
           | Some None \<Rightarrow> Some None
           | Some (Some p_cur) \<Rightarrow>
               (case memcmp blk p_cur pat n of
                  None \<Rightarrow> None
                | Some True \<Rightarrow> Some (Some (p_cur + n, len - n))
                | Some False \<Rightarrow> any_search pat blk n (p_cur + 1) (len - 1)))"
  by pat_completeness auto

lemma memchr_found: "memchr b i c n = Some (Some q) \<Longrightarrow> i \<le> q \<and> q < i + n \<and> q < length b \<and> b ! q = c"
proof -
  assume a: "memchr b i c n = Some (Some q)"
  let ?w = "take n (drop i b)" and ?k = "length (takeWhile (\<lambda>x. x \<noteq> c) (take n (drop i b)))"
  from a have k: "?k < length ?w" and q: "q = i + ?k" by (auto simp: memchr_def Let_def split: if_splits)
  from nth_length_takeWhile [OF k] have "?w ! ?k = c" by simp
  with k have "drop i b ! ?k = c" and "i \<le> length b" by auto
  with k q show ?thesis by (auto simp: nth_drop)
qed

termination any_search
  by (relation "measure (\<lambda>(pat, blk, n, pos, len). len)") (auto dest: memchr_found)

declare any_search.simps [simp del]

fun TestSubstringAny :: "berval list \<Rightarrow> bytes \<Rightarrow> nat \<Rightarrow> nat \<Rightarrow> filter_res option" where
  "TestSubstringAny [] blk pos len = Some FILTER_RES_TRUE"
| "TestSubstringAny (a # anys) blk pos len =
     (case any_search (BERVAL_NORM_VAL a) blk (BERVAL_NORM_LEN a) pos len of
        None \<Rightarrow> None
      | Some None \<Rightarrow> Some FILTER_RES_FALSE
      | Some (Some (pos', len')) \<Rightarrow> TestSubstringAny anys blk pos' len')"

text \<open>
  One value of the attribute against the components of a substring filter. The length left for
  the ``any'' components is unsigned.
\<close>

definition test_substrings_value :: "sub_strings \<Rightarrow> berval \<Rightarrow> bool option" where
  "test_substrings_value ss v =
     (let b = BERVAL_NORM_VAL v; n = BERVAL_NORM_LEN v;
          initialLen = (if bv_val (ss_initial ss) \<noteq> [] then BERVAL_NORM_LEN (ss_initial ss) else 0);
          finalLen = (if bv_val (ss_final ss) \<noteq> [] then BERVAL_NORM_LEN (ss_final ss) else 0)
      in do {
        ini \<leftarrow> (if initialLen \<noteq> 0 \<and> n \<ge> initialLen then memcmp b 0 (BERVAL_NORM_VAL (ss_initial ss)) initialLen else Some False);
        fin \<leftarrow> (if finalLen \<noteq> 0 \<and> n \<ge> finalLen then memcmp b (n - finalLen) (BERVAL_NORM_VAL (ss_final ss)) finalLen else Some False);
        any \<leftarrow> (if ss_any ss = [] then Some False
                else map_option (\<lambda>r. r = FILTER_RES_TRUE)
                       (TestSubstringAny (ss_any ss) b (if ini then initialLen else 0)
                          (nat ((int n - int (if ini then initialLen else 0) - int (if fin then finalLen else 0)) mod 2 ^ 64))));
        Some ((bv_val (ss_initial ss) \<noteq> [] \<longrightarrow> ini) \<and> (bv_val (ss_final ss) \<noteq> [] \<longrightarrow> fin) \<and> (ss_any ss \<noteq> [] \<longrightarrow> any))
      })"

fun test_substrings_values :: "schema \<Rightarrow> sub_strings \<Rightarrow> berval list \<Rightarrow> filter_res option option" where
  "test_substrings_values sch ss [] = Some None"
| "test_substrings_values sch ss (v # vs) =
     (case normalized sch (ss_type ss) v of
        None \<Rightarrow> Some (Some FILTER_RES_UNDEFINED)
      | Some v' \<Rightarrow>
          do {
            r \<leftarrow> test_substrings_value ss v';
            if r then Some (Some FILTER_RES_TRUE) else test_substrings_values sch ss vs
          })"

fun test_substrings_attrs :: "schema \<Rightarrow> sub_strings \<Rightarrow> (string \<times> berval list) list \<Rightarrow> filter_res option" where
  "test_substrings_attrs sch ss [] = Some FILTER_RES_FALSE"
| "test_substrings_attrs sch ss ((a, vs) # attrs) =
     (if \<not> same_type (ss_type ss) a then test_substrings_attrs sch ss attrs
      else do {
        r \<leftarrow> test_substrings_values sch ss vs;
        case r of Some res \<Rightarrow> Some res | None \<Rightarrow> test_substrings_attrs sch ss attrs
      })"

text \<open>A filter on the name of an entry only looks at its final component.\<close>

definition TestSubstringsFilter :: "schema \<Rightarrow> dir_entry \<Rightarrow> sub_strings \<Rightarrow> filter_res \<Rightarrow> filter_res option" where
  "TestSubstringsFilter sch e ss cr =
     (if cr \<noteq> FILTER_RES_NORMAL then Some cr
      else if VmDirStringCompareA (ss_type ss) ATTR_DN False then
        (case (if bvnorm_val (e_dn e) = None then sch_dn sch (e_dn e) else Some (e_dn e)) of
           None \<Rightarrow> Some FILTER_RES_UNDEFINED
         | Some dn \<Rightarrow>
             (let n = BERVAL_NORM_LEN dn;
                  finalLen = (if bv_val (ss_final ss) \<noteq> [] then BERVAL_NORM_LEN (ss_final ss) else 0)
              in do {
                fin \<leftarrow> (if finalLen \<noteq> 0 \<and> n \<ge> finalLen
                       then memcmp (BERVAL_NORM_VAL dn) (n - finalLen) (BERVAL_NORM_VAL (ss_final ss)) finalLen
                       else Some False);
                Some (if fin then FILTER_RES_TRUE else FILTER_RES_FALSE)
              }))
      else test_substrings_attrs sch ss (e_attrs e))"

text \<open>Equality, greater-or-equal and less-or-equal: the first attribute of the name decides.\<close>

definition compare_values :: "compare_function option \<Rightarrow> match_type \<Rightarrow> berval \<Rightarrow> berval \<Rightarrow> bool option" where
  "compare_values cmp mt v fv =
     (case cmp of
        Some f \<Rightarrow> Some (f mt v fv)
      | None \<Rightarrow>
          (if BERVAL_NORM_LEN fv = BERVAL_NORM_LEN v
           then memcmp (BERVAL_NORM_VAL fv) 0 (BERVAL_NORM_VAL v) (BERVAL_NORM_LEN fv) else Some False))"

fun test_ava_values :: "schema \<Rightarrow> string \<Rightarrow> compare_function option \<Rightarrow> match_type \<Rightarrow> berval \<Rightarrow> berval list \<Rightarrow> filter_res option" where
  "test_ava_values sch a cmp mt fv [] = Some FILTER_RES_FALSE"
| "test_ava_values sch a cmp mt fv (v # vs) =
     (case normalized sch a v of
        None \<Rightarrow> Some FILTER_RES_UNDEFINED
      | Some v' \<Rightarrow>
          do {
            r \<leftarrow> compare_values cmp mt v' fv;
            if r then Some FILTER_RES_TRUE else test_ava_values sch a cmp mt fv vs
          })"

fun test_ava_attrs ::
  "schema \<Rightarrow> string \<Rightarrow> compare_function option \<Rightarrow> match_type \<Rightarrow> berval \<Rightarrow> (string \<times> berval list) list \<Rightarrow> filter_res option" where
  "test_ava_attrs sch a cmp mt fv [] = Some FILTER_RES_FALSE"
| "test_ava_attrs sch a cmp mt fv ((b, vs) # attrs) =
     (if \<not> same_type a b then test_ava_attrs sch a cmp mt fv attrs
      else test_ava_values sch a cmp mt fv vs)"

definition TestAvaFilter :: "schema \<Rightarrow> dir_entry \<Rightarrow> match_type \<Rightarrow> ava \<Rightarrow> filter_res \<Rightarrow> filter_res option" where
  "TestAvaFilter sch e mt a cr =
     (if cr \<noteq> FILTER_RES_NORMAL then Some cr
      else
        (let cmp = (if mt = VDIR_SCHEMA_MATCH_EQUAL then pEqualityMR (ava_pATDesc a) else pOrderingMR (ava_pATDesc a)) in
         if mt \<noteq> VDIR_SCHEMA_MATCH_EQUAL \<and> cmp = None then Some FILTER_RES_UNDEFINED
         else test_ava_attrs sch (ava_type a) cmp mt (ava_value a) (e_attrs e)))"

definition TestOneLevelFilter :: "schema \<Rightarrow> dir_entry \<Rightarrow> berval \<Rightarrow> filter_res \<Rightarrow> filter_res" where
  "TestOneLevelFilter sch e parentDn cr =
     (if cr \<noteq> FILTER_RES_NORMAL then cr
      else case sch_dn sch (e_dn e) of
             None \<Rightarrow> FILTER_RES_FALSE
           | Some dn \<Rightarrow>
               (case sch_parent sch dn of
                  None \<Rightarrow> FILTER_RES_FALSE
                | Some p \<Rightarrow>
                    (let norm = (\<lambda>v. case bvnorm_val v of None \<Rightarrow> [] | Some n \<Rightarrow> n) in
                     if length (norm p) = length (norm parentDn) \<and> (norm p = [] \<or> norm p = norm parentDn)
                     then FILTER_RES_TRUE else FILTER_RES_FALSE)))"

definition TestPresentFilter :: "dir_entry \<Rightarrow> string \<Rightarrow> filter_res \<Rightarrow> filter_res" where
  "TestPresentFilter e a cr =
     (if cr \<noteq> FILTER_RES_NORMAL \<and> cr \<noteq> FILTER_RES_TRUE then cr
      else if list_ex (\<lambda>(b, vs). same_type a b) (e_attrs e) then FILTER_RES_TRUE else FILTER_RES_FALSE)"

section \<open>The whole filter\<close>

text \<open>
  The loop over the components of a conjunction (\<open>is_and\<close>) or disjunction; \<open>ret\<close> is \<open>retVal\<close> and
  \<open>undef\<close> is \<open>foundAnUndefined\<close>. The components are the functions that test them.
\<close>

fun check_components :: "bool \<Rightarrow> (path \<Rightarrow> filter_res option) list \<Rightarrow> nat \<Rightarrow> path \<Rightarrow> bool \<Rightarrow> filter_res \<Rightarrow> filter_res option" where
  "check_components is_and [] i p undef ret = Some (if undef then FILTER_RES_UNDEFINED else ret)"
| "check_components is_and (f # fs) i p undef ret =
     do {
       r \<leftarrow> f (i # p);
       if is_and \<and> r = FILTER_RES_FALSE \<or> \<not> is_and \<and> r = FILTER_RES_TRUE then Some r
       else check_components is_and fs (i + 1) p (undef \<or> r = FILTER_RES_UNDEFINED) r
     }"

definition check_choice ::
  "schema \<Rightarrow> dir_entry \<Rightarrow> filter_choice \<Rightarrow> (path \<Rightarrow> filter_res option) list \<Rightarrow> filter_res \<Rightarrow> path \<Rightarrow> filter_res option" where
  "check_choice sch e c fs cr p =
     (case c of
        LDAP_FILTER_AND \<Rightarrow> check_components True fs 0 p False FILTER_RES_FALSE
      | LDAP_FILTER_OR \<Rightarrow> check_components False fs 0 p False FILTER_RES_FALSE
      | LDAP_FILTER_NOT \<Rightarrow>
          (case fs of
             [] \<Rightarrow> None
           | f # _ \<Rightarrow>
               map_option (\<lambda>r. case r of
                   FILTER_RES_TRUE \<Rightarrow> FILTER_RES_FALSE
                 | FILTER_RES_FALSE \<Rightarrow> FILTER_RES_TRUE
                 | _ \<Rightarrow> FILTER_RES_UNDEFINED) (f (0 # p)))
      | LDAP_FILTER_EQUALITY a \<Rightarrow> TestAvaFilter sch e VDIR_SCHEMA_MATCH_EQUAL a cr
      | LDAP_FILTER_GE a \<Rightarrow> TestAvaFilter sch e VDIR_SCHEMA_MATCH_GE a cr
      | LDAP_FILTER_LE a \<Rightarrow> TestAvaFilter sch e VDIR_SCHEMA_MATCH_LE a cr
      | LDAP_FILTER_SUBSTRINGS ss \<Rightarrow> TestSubstringsFilter sch e ss cr
      | LDAP_FILTER_PRESENT a \<Rightarrow> Some (TestPresentFilter e a cr)
      | FILTER_ONE_LEVEL_SEARCH dn \<Rightarrow> Some (TestOneLevelFilter sch e dn cr)
      | LDAP_FILTER_OTHER \<Rightarrow> Some FILTER_RES_FALSE)"

text \<open>\<open>cr\<close> gives the \<open>computeResult\<close> of every node; a negation without a component is a null pointer.\<close>

primrec CheckIfEntryPassesFilter ::
  "schema \<Rightarrow> dir_entry \<Rightarrow> (path \<Rightarrow> filter_res) \<Rightarrow> ldap_filter \<Rightarrow> path \<Rightarrow> filter_res option" where
  "CheckIfEntryPassesFilter sch e cr (Filter c fs) =
     (\<lambda>p. check_choice sch e c (map (CheckIfEntryPassesFilter sch e cr) fs) (cr p) p)"


section \<open>Filters as RFC 4511 defines them\<close>

text \<open>
  Section 4.5.1.7, which the source quotes: a conjunction is true if all components are, false if
  at least one is, and undefined otherwise; dually for a disjunction.
\<close>

definition rfc_and :: "filter_res list \<Rightarrow> filter_res" where
  "rfc_and rs = (if \<forall>r \<in> set rs. r = FILTER_RES_TRUE then FILTER_RES_TRUE
                 else if FILTER_RES_FALSE \<in> set rs then FILTER_RES_FALSE else FILTER_RES_UNDEFINED)"

definition rfc_or :: "filter_res list \<Rightarrow> filter_res" where
  "rfc_or rs = (if \<forall>r \<in> set rs. r = FILTER_RES_FALSE then FILTER_RES_FALSE
                else if FILTER_RES_TRUE \<in> set rs then FILTER_RES_TRUE else FILTER_RES_UNDEFINED)"

definition rfc_not :: "filter_res \<Rightarrow> filter_res" where
  "rfc_not r = (if r = FILTER_RES_TRUE then FILTER_RES_FALSE
                else if r = FILTER_RES_FALSE then FILTER_RES_TRUE else FILTER_RES_UNDEFINED)"

lemma rfc_and_False: "FILTER_RES_FALSE \<in> set rs \<Longrightarrow> rfc_and rs = FILTER_RES_FALSE"
  by (auto simp: rfc_and_def)

lemma rfc_or_True: "FILTER_RES_TRUE \<in> set rs \<Longrightarrow> rfc_or rs = FILTER_RES_TRUE"
  by (auto simp: rfc_or_def)

text \<open>\<open>leaf\<close> is the value of an item at its path.\<close>

primrec rfc_filter :: "(filter_choice \<Rightarrow> path \<Rightarrow> filter_res) \<Rightarrow> ldap_filter \<Rightarrow> path \<Rightarrow> filter_res" where
  "rfc_filter leaf (Filter c fs) =
     (\<lambda>p. let rs = map (\<lambda>(i, f). f (i # p)) (enumerate 0 (map (rfc_filter leaf) fs)) in
          case c of LDAP_FILTER_AND \<Rightarrow> rfc_and rs | LDAP_FILTER_OR \<Rightarrow> rfc_or rs | LDAP_FILTER_NOT \<Rightarrow> rfc_not (hd rs)
          | _ \<Rightarrow> leaf c p)"

definition composite :: "filter_choice \<Rightarrow> bool" where
  "composite c \<longleftrightarrow> c \<in> {LDAP_FILTER_AND, LDAP_FILTER_OR, LDAP_FILTER_NOT}"

text \<open>Every conjunction, disjunction and negation has a component, and every item's test returns.\<close>

primrec well_tested :: "schema \<Rightarrow> dir_entry \<Rightarrow> (path \<Rightarrow> filter_res) \<Rightarrow> ldap_filter \<Rightarrow> path \<Rightarrow> bool" where
  "well_tested sch e cr (Filter c fs) =
     (\<lambda>p. if composite c then fs \<noteq> [] \<and> list_all (\<lambda>(i, f). f (i # p)) (enumerate 0 (map (well_tested sch e cr) fs))
          else check_choice sch e c [] (cr p) p \<noteq> None)"

lemma test_ava_values_not_normal: "test_ava_values sch a cmp mt fv vs \<noteq> Some FILTER_RES_NORMAL"
  by (induction vs) (auto split: option.splits bind_splits)

lemma test_ava_attrs_not_normal: "test_ava_attrs sch a cmp mt fv attrs \<noteq> Some FILTER_RES_NORMAL"
  by (induction attrs) (auto simp: test_ava_values_not_normal split: if_splits)

lemma test_substrings_values_not_normal: "test_substrings_values sch ss vs \<noteq> Some (Some FILTER_RES_NORMAL)"
  by (induction vs) (auto split: option.splits bind_splits)

lemma test_substrings_attrs_not_normal: "test_substrings_attrs sch ss attrs \<noteq> Some FILTER_RES_NORMAL"
  by (induction attrs) (auto simp: test_substrings_values_not_normal split: option.splits bind_splits if_splits)

lemma item_not_normal: "\<not> composite c \<Longrightarrow> check_choice sch e c fs cr p \<noteq> Some FILTER_RES_NORMAL"
  by (cases c) (auto simp: composite_def check_choice_def TestAvaFilter_def TestSubstringsFilter_def TestPresentFilter_def
      TestOneLevelFilter_def Let_def test_ava_attrs_not_normal test_substrings_attrs_not_normal split: option.splits bind_splits)

lemma item_components: "\<not> composite c \<Longrightarrow> check_choice sch e c fs cr p = check_choice sch e c [] cr p"
  by (cases c) (auto simp: composite_def check_choice_def)

text \<open>The loops with their early exits compute these values.\<close>

lemma check_and:
  assumes "list_all2 (\<lambda>(i, f) r. f (i # p) = Some r \<and> r \<noteq> FILTER_RES_NORMAL) (enumerate i fs) rs"
  shows "check_components True fs i p undef ret =
     Some (if rs = [] then (if undef then FILTER_RES_UNDEFINED else ret)
           else if FILTER_RES_FALSE \<in> set rs then FILTER_RES_FALSE
           else if undef then FILTER_RES_UNDEFINED else rfc_and rs)"
  using assms
proof (induction fs arbitrary: i undef ret rs)
  case (Cons f fs)
  then obtain r rs' where "rs = r # rs'" "f (i # p) = Some r" "r \<noteq> FILTER_RES_NORMAL"
    "list_all2 (\<lambda>(i, f) r. f (i # p) = Some r \<and> r \<noteq> FILTER_RES_NORMAL) (enumerate (Suc i) fs) rs'"
    by (auto simp: list_all2_Cons1)
  with Cons.IH [OF this(4)] show ?case by (cases r) (auto simp: rfc_and_def)
qed simp

lemma check_or:
  assumes "list_all2 (\<lambda>(i, f) r. f (i # p) = Some r \<and> r \<noteq> FILTER_RES_NORMAL) (enumerate i fs) rs"
  shows "check_components False fs i p undef ret =
     Some (if rs = [] then (if undef then FILTER_RES_UNDEFINED else ret)
           else if FILTER_RES_TRUE \<in> set rs then FILTER_RES_TRUE
           else if undef then FILTER_RES_UNDEFINED else rfc_or rs)"
  using assms
proof (induction fs arbitrary: i undef ret rs)
  case (Cons f fs)
  then obtain r rs' where "rs = r # rs'" "f (i # p) = Some r" "r \<noteq> FILTER_RES_NORMAL"
    "list_all2 (\<lambda>(i, f) r. f (i # p) = Some r \<and> r \<noteq> FILTER_RES_NORMAL) (enumerate (Suc i) fs) rs'"
    by (auto simp: list_all2_Cons1)
  with Cons.IH [OF this(4)] show ?case by (cases r) (auto simp: rfc_or_def)
qed simp

definition leaf_value :: "schema \<Rightarrow> dir_entry \<Rightarrow> (path \<Rightarrow> filter_res) \<Rightarrow> filter_choice \<Rightarrow> path \<Rightarrow> filter_res" where
  "leaf_value sch e cr c p = the (check_choice sch e c [] (cr p) p)"

lemma check_is_rfc:
  "well_tested sch e cr f p \<Longrightarrow>
     CheckIfEntryPassesFilter sch e cr f p = Some (rfc_filter (leaf_value sch e cr) f p) \<and>
     rfc_filter (leaf_value sch e cr) f p \<noteq> FILTER_RES_NORMAL"
proof (induction f arbitrary: p)
  case (Filter c fs)
  let ?r = "rfc_filter (leaf_value sch e cr)"
  let ?rs = "map (\<lambda>(i, f). f (i # p)) (enumerate 0 (map ?r fs))"
  show ?case
  proof (cases "composite c")
    case True
    with Filter.prems have wt: "fs \<noteq> []" "\<And>i. i < length fs \<Longrightarrow> well_tested sch e cr (fs ! i) (i # p)"
      by (auto simp: list_all_length nth_enumerate_eq)
    have kids: "list_all2 (\<lambda>(i, f) r. f (i # p) = Some r \<and> r \<noteq> FILTER_RES_NORMAL)
        (enumerate 0 (map (CheckIfEntryPassesFilter sch e cr) fs)) ?rs"
      using Filter.IH wt(2) by (auto simp: list_all2_conv_all_nth nth_enumerate_eq)
    have ne: "?rs \<noteq> []" using wt(1) by (cases fs) simp_all
    let ?cs = "map (CheckIfEntryPassesFilter sch e cr) fs"
    have a: "check_components True ?cs 0 p False FILTER_RES_FALSE = Some (rfc_and ?rs)"
      using check_and [OF kids] ne rfc_and_False [of ?rs] by simp
    have o: "check_components False ?cs 0 p False FILTER_RES_FALSE = Some (rfc_or ?rs)"
      using check_or [OF kids] ne rfc_or_True [of ?rs] by simp
    obtain g gs where fs: "fs = g # gs" using wt(1) by (cases fs) auto
    have n: "CheckIfEntryPassesFilter sch e cr g (0 # p) = Some (?r g (0 # p))"
      using Filter.IH [of g "0 # p"] wt(2) [of 0] fs by simp
    from True consider "c = LDAP_FILTER_AND" | "c = LDAP_FILTER_OR" | "c = LDAP_FILTER_NOT" by (auto simp: composite_def)
    then show ?thesis
    proof cases
      case 1
      then show ?thesis using a by (simp add: check_choice_def Let_def rfc_and_def)
    next
      case 2
      then show ?thesis using o by (simp add: check_choice_def Let_def rfc_or_def)
    next
      case 3
      then show ?thesis using n fs by (auto simp: check_choice_def Let_def rfc_not_def split: filter_res.split)
    qed
  next
    case False
    with Filter.prems show ?thesis
      using item_not_normal [OF False, of sch e "[]" "cr p" p] item_components [OF False, of sch e]
      by (cases c) (auto simp: leaf_value_def composite_def)
  qed
qed


text \<open>
  C31. The evaluation of a filter on an entry, with its early exits, gives the value that RFC 4511
  defines for the filter from the values of its items.
\<close>

theorem filter_follows_rfc:
  assumes "well_tested sch e cr f p"
  shows "CheckIfEntryPassesFilter sch e cr f p = Some (rfc_filter (leaf_value sch e cr) f p)"
  using check_is_rfc [OF assms] by simp

text \<open>An entry with one name, a schema that compares bytes, and a filter with a negation.\<close>

definition plain :: "bytes \<Rightarrow> berval" where
  "plain b = \<lparr>bv_val = b, bvnorm_val = Some b\<rparr>"

definition byte_desc :: at_desc where
  "byte_desc = \<lparr>pEqualityMR = None, pOrderingMR = None\<rparr>"

definition byte_schema :: schema where
  "byte_schema = \<lparr>sch_norm = (\<lambda>a b. Some b), sch_dn = Some, sch_parent = (\<lambda>d. None)\<rparr>"

definition one_entry :: dir_entry where
  "one_entry = \<lparr>e_dn = plain [1], e_attrs = [(''cn'', [plain [97, 98]])]\<rparr>"

definition cn_is :: "bytes \<Rightarrow> ldap_filter" where
  "cn_is b = Filter (LDAP_FILTER_EQUALITY \<lparr>ava_pATDesc = byte_desc, ava_type = ''CN'', ava_value = plain b\<rparr>) []"

lemma same_type_cn: "same_type ''CN'' ''cn''"
  by code_simp

theorem filter_follows_rfc_witness:
  "CheckIfEntryPassesFilter byte_schema one_entry (\<lambda>p. FILTER_RES_NORMAL)
     (Filter LDAP_FILTER_AND [cn_is [97, 98], Filter LDAP_FILTER_NOT [cn_is [1]]]) [] = Some FILTER_RES_TRUE"
proof -
  note defs = byte_schema_def one_entry_def cn_is_def byte_desc_def plain_def
    composite_def check_choice_def TestAvaFilter_def compare_values_def memcmp_def normalized_def
    BERVAL_NORM_VAL_def BERVAL_NORM_LEN_def same_type_cn
  have "well_tested byte_schema one_entry (\<lambda>p. FILTER_RES_NORMAL)
     (Filter LDAP_FILTER_AND [cn_is [97, 98], Filter LDAP_FILTER_NOT [cn_is [1]]]) []"
    by (simp add: defs)
  from filter_follows_rfc [OF this] show ?thesis
    by (simp add: defs leaf_value_def rfc_and_def rfc_not_def)
qed


section \<open>Substring filters\<close>

text \<open>The strings occur in this order, without overlap.\<close>

fun in_order :: "bytes list \<Rightarrow> bytes \<Rightarrow> bool" where
  "in_order [] xs \<longleftrightarrow> True"
| "in_order (a # as) xs \<longleftrightarrow> (\<exists>u w. xs = u @ a @ w \<and> in_order as w)"

lemma in_order_prefix: "in_order as w \<Longrightarrow> in_order as (v @ w)"
proof (cases as)
  case (Cons a bs)
  assume "in_order as w"
  with Cons obtain u z where "w = u @ a @ z" "in_order bs z" by auto
  then have "v @ w = (v @ u) @ a @ z" by simp
  with Cons \<open>in_order bs z\<close> show ?thesis by (metis in_order.simps(2))
qed simp

lemma memchr_first:
  assumes "x < n" and "i + x < length b" and "b ! (i + x) = c"
  shows "\<exists>k \<le> x. memchr b i c n = Some (Some (i + k))"
proof -
  let ?w = "take n (drop i b)"
  have x: "x < length ?w" "?w ! x = c" using assms by simp_all
  have "length (takeWhile (\<lambda>y. y \<noteq> c) ?w) \<le> x"
  proof (rule ccontr)
    assume "\<not> ?thesis"
    then have l: "x < length (takeWhile (\<lambda>y. y \<noteq> c) ?w)" by simp
    from set_takeWhileD [OF nth_mem [OF l]] takeWhile_nth [OF l] x(2) show False by simp
  qed
  with x show ?thesis by (auto simp: memchr_def Let_def)
qed

text \<open>Although \<open>remainLen\<close> is too long, the first occurrence is found if there is one.\<close>

lemma any_search_finds:
  assumes "a \<noteq> []" and "length (u @ a @ w) \<le> len"
  shows "\<exists>u' w' len'. any_search (a @ [0]) (pre @ u @ a @ w @ post) (length a) (length pre) len =
      Some (Some (length (pre @ u' @ a), len')) \<and> u @ a @ w = u' @ a @ w' \<and> length u' \<le> length u \<and> length w' \<le> len'"
  using assms(2)
proof (induction "length u" arbitrary: u pre len rule: less_induct)
  case less
  let ?b = "pre @ u @ a @ w @ post"
  have "?b ! (length pre + length u) = hd a" using assms(1) by (cases a) (simp_all add: nth_append)
  moreover have "length u < len" and "length pre + length u < length ?b" using less.prems assms(1) by (cases a; simp)+
  ultimately obtain k where k: "k \<le> length u" "memchr ?b (length pre) (hd a) len = Some (Some (length pre + k))"
    using memchr_first by blast
  have hd: "hd (a @ [0]) = hd a" using assms(1) by simp
  have cmp: "memcmp ?b (length pre + k) (a @ [0]) (length a) = Some (take (length a) (drop k (u @ a @ w @ post)) = a)"
    using k(1) by (simp add: memcmp_def)
  have step: "any_search (a @ [0]) ?b (length a) (length pre) len =
      (if take (length a) (drop k (u @ a @ w @ post)) = a then Some (Some (length pre + k + length a, len - length a))
       else any_search (a @ [0]) ?b (length a) (length pre + k + 1) (len - 1))"
    using less.prems k(2) cmp by (subst any_search.simps) (simp add: hd)
  show ?case
  proof (cases "take (length a) (drop k (u @ a @ w @ post)) = a")
    case True
    have "take (length a) (drop k (u @ a @ w)) = a" using True k(1) by (simp add: drop_append take_append)
    then have "u @ a @ w = take k u @ a @ drop (length a) (drop k (u @ a @ w))"
      using k(1) by (metis append_take_drop_id take_append diff_is_0_eq' take_0 append_Nil2)
    moreover have "length (drop (length a) (drop k (u @ a @ w))) \<le> len - length a" using less.prems k(1) by simp
    moreover have "any_search (a @ [0]) ?b (length a) (length pre) len = Some (Some (length (pre @ take k u @ a), len - length a))"
      using step True k(1) by simp
    moreover have "length (take k u) \<le> length u" by simp
    ultimately show ?thesis by blast
  next
    case False
    with k(1) have lt: "k < length u" by (cases "k = length u") auto
    let ?p = "pre @ take (k + 1) u" and ?u = "drop (k + 1) u"
    have b: "?b = ?p @ ?u @ a @ w @ post" and p: "length ?p = length pre + k + 1" using lt by auto
    have "length ?u < length u" and "length (?u @ a @ w) \<le> len - 1" using lt less.prems by auto
    from less.hyps [OF this, of ?p] obtain u' w' len' where r:
      "any_search (a @ [0]) (?p @ ?u @ a @ w @ post) (length a) (length ?p) (len - 1) = Some (Some (length (?p @ u' @ a), len'))"
      "?u @ a @ w = u' @ a @ w'" "length u' \<le> length ?u" "length w' \<le> len'" by blast
    have "any_search (a @ [0]) ?b (length a) (length pre) len = Some (Some (length (pre @ (take (k + 1) u @ u') @ a), len'))"
    proof -
      have "any_search (a @ [0]) ?b (length a) (length pre + k + 1) (len - 1) = Some (Some (length (?p @ u' @ a), len'))"
        using r(1) unfolding b [symmetric] p .
      with step False show ?thesis by simp
    qed
    moreover have "u @ a @ w = (take (k + 1) u @ u') @ a @ w'" using r(2) by (metis append_assoc append_take_drop_id)
    moreover have "length (take (k + 1) u @ u') \<le> length u" using r(3) lt by simp
    ultimately show ?thesis using r(4) by blast
  qed
qed

definition norm_is :: "berval \<Rightarrow> bytes \<Rightarrow> bool" where
  "norm_is v x \<longleftrightarrow> bvnorm_val v = Some x \<and> (x \<noteq> [] \<or> bv_val v = [])"

lemma norm_is_val: "norm_is v x \<Longrightarrow> BERVAL_NORM_VAL v = x @ [0]" and norm_is_len: "norm_is v x \<Longrightarrow> BERVAL_NORM_LEN v = length x"
  by (auto simp: norm_is_def BERVAL_NORM_VAL_def BERVAL_NORM_LEN_def)

lemma TestSubstringAny_finds:
  "list_all2 norm_is anys as \<Longrightarrow> [] \<notin> set as \<Longrightarrow> in_order as xs \<Longrightarrow> length xs \<le> len \<Longrightarrow>
     TestSubstringAny anys (pre @ xs @ post) (length pre) len = Some FILTER_RES_TRUE"
proof (induction anys arbitrary: as xs pre len)
  case (Cons v anys)
  then obtain a bs where as: "as = a # bs" "norm_is v a" "list_all2 norm_is anys bs" by (auto simp: list_all2_Cons1)
  with Cons.prems obtain u w where xs: "xs = u @ a @ w" "in_order bs w" by auto
  have "a \<noteq> []" "length (u @ a @ w) \<le> len" using Cons.prems as xs by auto
  from any_search_finds [OF this, of pre post] obtain u' w' len' where r:
    "any_search (a @ [0]) (pre @ xs @ post) (length a) (length pre) len = Some (Some (length (pre @ u' @ a), len'))"
    "xs = u' @ a @ w'" "length u' \<le> length u" "length w' \<le> len'" using xs by auto
  have "u' @ a @ w' = u @ a @ w" using r(2) xs(1) by simp
  then have "drop (length u + length a) (u' @ a @ w') = w" by simp
  then have "drop (length u - length u') w' = w" using r(3) by simp
  then have "\<exists>v. w' = v @ w" by (metis append_take_drop_id)
  then have "in_order bs w'" using xs(2) in_order_prefix by auto
  moreover have "[] \<notin> set bs" using Cons.prems(2) as(1) by simp
  ultimately have "TestSubstringAny anys ((pre @ u' @ a) @ w' @ post) (length (pre @ u' @ a)) len' = Some FILTER_RES_TRUE"
    using as(3) r(4) by (intro Cons.IH) auto
  then show ?case using r(1,2) as(2) by (simp add: norm_is_val norm_is_len)
qed simp


text \<open>A component of a filter that is there, with this normal form, or is not.\<close>

definition component :: "berval \<Rightarrow> bytes \<Rightarrow> bool" where
  "component v x \<longleftrightarrow> (if bv_val v = [] then x = [] else norm_is v x)"

text \<open>
  C32. A value that consists of the initial component, a middle part in which the ``any'' components
  occur in order, and the final component passes the test of the substring filter, and the test
  reads nothing outside the value.
\<close>

theorem substring_value_found:
  assumes v: "norm_is v (i @ m @ f)" and comps: "component (ss_initial ss) i" "component (ss_final ss) f"
    and anys: "list_all2 norm_is (ss_any ss) as" "[] \<notin> set as" and order: "in_order as m"
    and len: "length (i @ m @ f) < 2 ^ 64"
  shows "test_substrings_value ss v = Some True"
proof -
  let ?b = "i @ m @ f @ [0]"
  have val: "BERVAL_NORM_VAL v = ?b" "BERVAL_NORM_LEN v = length i + length m + length f"
    using v by (simp_all add: norm_is_val norm_is_len)
  have ini: "(if bv_val (ss_initial ss) \<noteq> [] then BERVAL_NORM_LEN (ss_initial ss) else 0) = length i"
    and fin: "(if bv_val (ss_final ss) \<noteq> [] then BERVAL_NORM_LEN (ss_final ss) else 0) = length f"
    using comps by (auto simp: component_def norm_is_len split: if_splits)
  have ini': "i \<noteq> [] \<longleftrightarrow> bv_val (ss_initial ss) \<noteq> []" "i \<noteq> [] \<Longrightarrow> BERVAL_NORM_VAL (ss_initial ss) = i @ [0]"
    and fin': "f \<noteq> [] \<longleftrightarrow> bv_val (ss_final ss) \<noteq> []" "f \<noteq> [] \<Longrightarrow> BERVAL_NORM_VAL (ss_final ss) = f @ [0]"
    using comps by (auto simp: component_def norm_is_val norm_is_def split: if_splits)
  have c1: "(if length i \<noteq> 0 \<and> length i + length m + length f \<ge> length i
        then memcmp ?b 0 (BERVAL_NORM_VAL (ss_initial ss)) (length i) else Some False) = Some (i \<noteq> [])"
    using ini' by (simp add: memcmp_def)
  have c2: "(if length f \<noteq> 0 \<and> length i + length m + length f \<ge> length f
        then memcmp ?b (length i + length m + length f - length f) (BERVAL_NORM_VAL (ss_final ss)) (length f)
        else Some False) = Some (f \<noteq> [])"
    using fin' by (simp add: memcmp_def)
  have left: "nat ((int (length i + length m + length f) - int (if i \<noteq> [] then length i else 0) - int (if f \<noteq> [] then length f else 0)) mod 2 ^ 64) = length m"
    using len by (simp add: mod_pos_pos_trivial)
  have any: "TestSubstringAny (ss_any ss) ?b (if i \<noteq> [] then length i else 0) (length m) = Some FILTER_RES_TRUE"
    using TestSubstringAny_finds [OF anys order, of "length m" i "f @ [0]"] by auto
  show ?thesis
    unfolding test_substrings_value_def Let_def val ini fin c1 c2 Option.bind.bind_lunit left any
    using ini' fin' by simp
qed

definition absent :: berval where
  "absent = \<lparr>bv_val = [], bvnorm_val = None\<rparr>"

definition cn_sub :: "berval \<Rightarrow> bytes list \<Rightarrow> berval \<Rightarrow> sub_strings" where
  "cn_sub i as f = \<lparr>ss_type = ''cn'', ss_initial = i, ss_any = map plain as, ss_final = f\<rparr>"

theorem substring_value_found_witness:
  "test_substrings_value (cn_sub (plain [1]) [[2], [3, 4]] absent) (plain [1, 5, 2, 2, 3, 4]) = Some True"
proof (rule substring_value_found [of _ "[1]" "[5, 2, 2, 3, 4]" "[]" _ "[[2], [3, 4]]"])
  have "in_order [[3, 4]] [2, 3, 4]" unfolding in_order.simps by (intro exI [of _ "[2]"] exI [of _ "[]"]) simp
  then show "in_order [[2], [3, 4]] [5, 2, 2, 3, 4]"
    unfolding in_order.simps(2) [of "[2]"] by (intro exI [of _ "[5]"] exI [of _ "[2, 3, 4]"]) simp
qed (simp_all add: cn_sub_def absent_def plain_def norm_is_def component_def)


end
