(* ===== verification/Mdb_Index.thy ===== *)
theory Mdb_Index
  imports Ldap_Filter Mdb_Error "HOL-Library.List_Lexorder" "HOL-Library.Product_Lexorder" "HOL-Library.Sublist"
begin

text \<open>
  Attribute indices of the backend: \<open>indexwriteutil.c\<close> and \<open>indexreadutil.c\<close> of
  \<open>lwraft/server/mdb-store\<close>. An index is a database of the MDB library that maps keys to entry
  ids: here the list of its records in the library's order, that of the keys as byte strings and,
  for equal keys, of the ids, whose stored form keeps their order. The library's calls have
  their documented effect on this list or fail; the failures, the configuration of the indices, the
  transaction around a scan (\<open>se_begin\<close> is the first error up to the open cursor) and the check of
  uniqueness scopes are parameters.
\<close>

section \<open>Entry ids as stored\<close>

definition MDBEntryIdToDBT :: "entry_id \<Rightarrow> bytes" where
  "MDBEntryIdToDBT eId = rev (map (\<lambda>i. ucast (drop_bit (8 * i) eId)) [0..<8])"

definition MDBDBTToEntryId :: "bytes \<Rightarrow> entry_id" where
  "MDBDBTToEntryId b = foldl (\<lambda>eId x. push_bit 8 eId OR ucast x) 0 b"

section \<open>The library\<close>

type_synonym index_db = "(bytes \<times> entry_id) list"

text \<open>A database without duplicate keys holds one value per key; \<open>no\<close> is \<open>MDB_NOOVERWRITE\<close>.\<close>

definition mdb_put :: "bool \<Rightarrow> bool \<Rightarrow> bytes \<Rightarrow> entry_id \<Rightarrow> index_db \<Rightarrow> rc \<times> index_db" where
  "mdb_put uniq no k v db =
     (if uniq then
        (if no \<and> k \<in> fst ` set db then (Some MDB_KEYEXIST, db)
         else (None, insort (k, v) (filter (\<lambda>(k', v'). k' \<noteq> k) db)))
      else (None, if (k, v) \<in> set db then db else insort (k, v) db))"

definition mdb_del :: "bytes \<Rightarrow> entry_id option \<Rightarrow> index_db \<Rightarrow> rc \<times> index_db" where
  "mdb_del k v db =
     (let gone = (\<lambda>(k', v'). k' = k \<and> (case v of None \<Rightarrow> True | Some x \<Rightarrow> v' = x)) in
      if list_ex gone db then (None, filter (\<lambda>r. \<not> gone r) db) else (Some MDB_NOTFOUND, db))"

datatype cursor_op = MDB_SET | MDB_SET_RANGE | MDB_NEXT | MDB_NEXT_DUP | MDB_PREV | MDB_LAST

text \<open>The position of a cursor after an operation, from its position before.\<close>

definition mdb_cursor_get :: "index_db \<Rightarrow> cursor_op \<Rightarrow> bytes \<Rightarrow> nat \<Rightarrow> nat option" where
  "mdb_cursor_get db oper k p =
     (let first = length (takeWhile (\<lambda>(k', v). k' < k) db) in
      case oper of
        MDB_SET \<Rightarrow> (if first < length db \<and> fst (db ! first) = k then Some first else None)
      | MDB_SET_RANGE \<Rightarrow> (if first < length db then Some first else None)
      | MDB_NEXT \<Rightarrow> (if p + 1 < length db then Some (p + 1) else None)
      | MDB_NEXT_DUP \<Rightarrow> (if p + 1 < length db \<and> fst (db ! (p + 1)) = fst (db ! p) then Some (p + 1) else None)
      | MDB_PREV \<Rightarrow> (if p > 0 then Some (p - 1) else None)
      | MDB_LAST \<Rightarrow> (if db \<noteq> [] then Some (length db - 1) else None))"

section \<open>Writing\<close>

definition BE_INDEX_KEY_TYPE_FWD :: byte where "BE_INDEX_KEY_TYPE_FWD = 0x30"
definition BE_INDEX_KEY_TYPE_REV :: byte where "BE_INDEX_KEY_TYPE_REV = 0x31"

datatype index_op = BE_INDEX_OP_TYPE_CREATE | BE_INDEX_OP_TYPE_DELETE | BE_INDEX_OP_TYPE_UPDATE

record index_cfg =
  bGlobalUniq :: bool
  bEquality :: bool
  bSubstr :: bool

definition MdbDeleteKeyValue :: "bytes \<Rightarrow> entry_id \<Rightarrow> bool \<Rightarrow> index_db \<Rightarrow> rc \<times> index_db" where
  "MdbDeleteKeyValue k v bIsUniqueVal db = (if bIsUniqueVal then mdb_del k None db else mdb_del k (Some v) db)"

definition MdbUpdateKeyValue :: "bytes \<Rightarrow> entry_id \<Rightarrow> bool \<Rightarrow> index_op \<Rightarrow> index_db \<Rightarrow> rc \<times> index_db" where
  "MdbUpdateKeyValue k v bIsUniqueVal oper db =
     (case oper of
        BE_INDEX_OP_TYPE_CREATE \<Rightarrow> mdb_put bIsUniqueVal bIsUniqueVal k v db
      | BE_INDEX_OP_TYPE_UPDATE \<Rightarrow> mdb_put bIsUniqueVal False k v db
      | BE_INDEX_OP_TYPE_DELETE \<Rightarrow> MdbDeleteKeyValue k v bIsUniqueVal db)"

text \<open>The bytes of a normal form; a length beyond its block is read outside it.\<close>

definition norm_bytes :: "berval \<Rightarrow> bytes option" where
  "norm_bytes v = (if BERVAL_NORM_LEN v \<le> length (BERVAL_NORM_VAL v) then Some (take (BERVAL_NORM_LEN v) (BERVAL_NORM_VAL v)) else None)"

text \<open>
  The keys of one value: forward for equality, reversed for substrings. \<open>full\<close> is the error of the
  library for a key it cannot store, because it is too long or the map is full.
\<close>

definition update_key ::
  "(bytes \<Rightarrow> rc) \<Rightarrow> bool \<Rightarrow> bytes \<Rightarrow> entry_id \<Rightarrow> index_cfg \<Rightarrow> index_op \<Rightarrow> rc \<times> index_db \<Rightarrow> rc \<times> index_db" where
  "update_key full wanted k v cfg oper r =
     (if fst r \<noteq> None \<or> \<not> wanted then r
      else if full k \<noteq> None then (full k, snd r)
      else MdbUpdateKeyValue k v (bGlobalUniq cfg) oper (snd r))"

fun update_values ::
  "(bytes \<Rightarrow> rc) \<Rightarrow> (bytes \<Rightarrow> rc) \<Rightarrow> index_cfg \<Rightarrow> entry_id \<Rightarrow> index_op \<Rightarrow> berval list \<Rightarrow> index_db \<Rightarrow> (rc \<times> index_db) option" where
  "update_values full uniq cfg eId oper [] db = Some (None, db)"
| "update_values full uniq cfg eId oper (v # vs) db =
     do {
       n \<leftarrow> norm_bytes v;
       case uniq n of
         Some e \<Rightarrow> Some (Some e, db)
       | None \<Rightarrow>
           (case update_key full (bSubstr cfg) (BE_INDEX_KEY_TYPE_REV # rev n) eId cfg oper
                   (update_key full (bEquality cfg) (BE_INDEX_KEY_TYPE_FWD # n) eId cfg oper (None, db)) of
              (Some e, db') \<Rightarrow> Some (Some e, db')
            | (None, db') \<Rightarrow> update_values full uniq cfg eId oper vs db')
     }"

text \<open>
  \<open>cfg\<close> is the result of acquiring the configuration of the attribute and \<open>dbi\<close> that of finding
  its database; \<open>uniq\<close> is \<open>MdbValidateAttrUniqueness\<close>.
\<close>

definition MdbUpdateIndicesForAttr ::
  "(nat \<Rightarrow> bool) \<Rightarrow> vmdir_error + index_cfg option \<Rightarrow> rc \<Rightarrow> (bytes \<Rightarrow> rc) \<Rightarrow> (bytes \<Rightarrow> rc) \<Rightarrow> berval list \<Rightarrow> entry_id \<Rightarrow> index_op \<Rightarrow>
     index_db \<Rightarrow> (rc \<times> index_db) option" where
  "MdbUpdateIndicesForAttr mem cfg dbi full uniq vals eId oper db =
     (case cfg of
        Inl e \<Rightarrow> Some (Some e, db)
      | Inr None \<Rightarrow> Some (None, db)
      | Inr (Some c) \<Rightarrow>
          (if dbi \<noteq> None then Some (dbi, db)
           else if VmDirAllocateMemory mem (fold max (map BERVAL_NORM_LEN vals) 0 + 1) \<noteq> None
           then Some (Some VMDIR_ERROR_BACKEND_OPERATIONS, db)
           else update_values full uniq c eId oper vals db))"

section \<open>Scanning\<close>

record scan_env =
  se_mem :: "nat \<Rightarrow> bool"
  se_cfg :: "string \<Rightarrow> vmdir_error + index_cfg option"
  se_dbi :: "string \<Rightarrow> rc"
  se_begin :: rc
  se_hasTxn :: bool
  se_commit :: rc
  se_get :: "nat \<Rightarrow> rc"
  se_index :: "string \<Rightarrow> index_db"
  se_dn :: "berval \<Rightarrow> vmdir_error + entry_id"

record scan_ctx =
  iMaxScanForSizeLimit :: nat
  iPartialCandidates :: bool

definition exact_match :: "filter_choice \<Rightarrow> bool" where
  "exact_match c = (case c of LDAP_FILTER_EQUALITY _ \<Rightarrow> True | FILTER_ONE_LEVEL_SEARCH _ \<Rightarrow> True | _ \<Rightarrow> False)"

definition partial_match :: "filter_choice \<Rightarrow> bool" where
  "partial_match c = (case c of LDAP_FILTER_SUBSTRINGS _ \<Rightarrow> True | _ \<Rightarrow> False)"

definition is_le :: "filter_choice \<Rightarrow> bool" where
  "is_le c = (case c of LDAP_FILTER_LE _ \<Rightarrow> True | _ \<Rightarrow> False)"

text \<open>A read of the library, the \<open>n\<close>-th of the scan.\<close>

definition cursor_get :: "scan_env \<Rightarrow> nat \<Rightarrow> nat option \<Rightarrow> vmdir_error + nat" where
  "cursor_get env n pos =
     (case se_get env n of
        Some e \<Rightarrow> Inl e
      | None \<Rightarrow> (case pos of None \<Rightarrow> Inl MDB_NOTFOUND | Some p \<Rightarrow> Inr p))"

text \<open>
  The loop of the scan, at a record: error, candidates (none once deleted) and whether they are
  partial.
\<close>

definition scan_end :: "vmdir_error \<Rightarrow> candidates \<Rightarrow> bool \<Rightarrow> rc \<times> candidates option \<times> bool" where
  "scan_end e c part =
     (if e = MDB_NOTFOUND then (if cl_size c > 0 then None else Some MDB_NOTFOUND, Some c, part)
      else (Some e, None, part))"

definition next_op :: "filter_choice \<Rightarrow> cursor_op" where
  "next_op ch = (if exact_match ch then MDB_NEXT_DUP else if is_le ch then MDB_PREV else MDB_NEXT)"

function scan_loop ::
  "scan_env \<Rightarrow> filter_choice \<Rightarrow> bytes \<Rightarrow> index_db \<Rightarrow> nat \<Rightarrow> nat \<Rightarrow> entry_id \<Rightarrow> nat \<Rightarrow> nat \<Rightarrow> candidates \<Rightarrow> bool \<Rightarrow>
     (rc \<times> candidates option \<times> bool) option" where
  "scan_loop env ch k db maxIdx maxScan start n p c part =
     (if exact_match ch \<and> fst (db ! p) \<noteq> k then Some (None, Some c, part)
      else if partial_match ch \<and> \<not> prefix k (fst (db ! p)) then Some (None, Some c, part)
      else do {
        (err, c1) \<leftarrow> (if start \<le> snd (db ! p) then VmDirAddToCandidates (se_mem env) c (snd (db ! p)) else Some (None, c));
        if err \<noteq> None then Some (err, None, part)
        else if maxIdx > 0 \<and> cl_size c1 > maxIdx then Some (Some MDB_NOTFOUND, None, part)
        else if maxScan > 0 \<and> cl_size c1 > maxScan then Some (None, Some c1, True)
        else case cursor_get env n (mdb_cursor_get db (next_op ch) k p) of
               Inl e \<Rightarrow> Some (scan_end e c1 part)
             | Inr p' \<Rightarrow> scan_loop env ch k db maxIdx maxScan start (n + 1) p' c1 part
      })"
  by pat_completeness auto

termination scan_loop
  by (relation "measure (\<lambda>(env, ch, k, db, mi, ms, start, n, p, c, part). if is_le ch then p else length db - p)")
    (auto simp: cursor_get_def mdb_cursor_get_def next_op_def is_le_def exact_match_def Let_def
      split: option.splits if_splits filter_choice.splits)

declare scan_loop.simps [simp del]

text \<open>
  The scan with a cursor. For less-or-equal the first read only tells whether a key is large
  enough; its other errors are ignored and the read is repeated.
\<close>

definition scan_cursor ::
  "scan_env \<Rightarrow> filter_choice \<Rightarrow> bytes \<Rightarrow> index_db \<Rightarrow> nat \<Rightarrow> nat \<Rightarrow> entry_id \<Rightarrow> candidates \<Rightarrow> bool \<Rightarrow>
     (rc \<times> candidates option \<times> bool) option" where
  "scan_cursor env ch k db maxIdx maxScan start c part =
     (let probe = cursor_get env 0 (mdb_cursor_get db MDB_SET_RANGE k 0);
          oper = (if exact_match ch then MDB_SET
                  else if is_le ch \<and> probe = Inl MDB_NOTFOUND then MDB_LAST else MDB_SET_RANGE);
          n = (if is_le ch then 1 else 0)
      in case cursor_get env n (mdb_cursor_get db oper k 0) of
           Inl e \<Rightarrow> Some (scan_end e c part)
         | Inr p \<Rightarrow> scan_loop env ch k db maxIdx maxScan start (n + 1) p c part)"

text \<open>The single read for an exact match in an index with unique values.\<close>

definition scan_unique ::
  "scan_env \<Rightarrow> bytes \<Rightarrow> index_db \<Rightarrow> entry_id \<Rightarrow> candidates \<Rightarrow> bool \<Rightarrow> (rc \<times> candidates option \<times> bool) option" where
  "scan_unique env k db start c part =
     (case cursor_get env 0 (mdb_cursor_get db MDB_SET k 0) of
        Inl e \<Rightarrow> Some (Some e, if e = MDB_NOTFOUND then Some c else None, part)
      | Inr p \<Rightarrow>
          (if start \<le> snd (db ! p) then
             do {
               (err, c1) \<leftarrow> VmDirAddToCandidates (se_mem env) c (snd (db ! p));
               Some (err, if err = None then Some c1 else None, part)
             }
           else Some (None, Some c, part)))"

definition MdbScanIndex ::
  "scan_env \<Rightarrow> string \<Rightarrow> bytes \<Rightarrow> filter_choice \<Rightarrow> filter_state \<Rightarrow> entry_id \<Rightarrow> scan_ctx \<Rightarrow> (rc \<times> filter_state \<times> scan_ctx) option" where
  "MdbScanIndex env attrType k ch fs start ctx =
     (let failed = (\<lambda>e. Some (Some e, if e = MDB_NOTFOUND then fs else fs\<lparr>candidates := None\<rparr>, ctx)) in
      case se_cfg env attrType of
        Inl e \<Rightarrow> failed e
      | Inr None \<Rightarrow> Some (None, fs, ctx)
      | Inr (Some cfg) \<Rightarrow>
          do {
            new \<leftarrow> NewCandidates (se_mem env) 10 True;
            case new of
              None \<Rightarrow> Some (Some VMDIR_ERROR_BACKEND_ERROR, fs\<lparr>candidates := None\<rparr>, ctx)
            | Some c \<Rightarrow>
                (let fs1 = fs\<lparr>candidates := Some c\<rparr>; db = se_index env attrType in
                 case (if se_dbi env attrType \<noteq> None then se_dbi env attrType else se_begin env) of
                   Some e \<Rightarrow> Some (Some e, if e = MDB_NOTFOUND then fs1 else fs\<lparr>candidates := None\<rparr>, ctx)
                 | None \<Rightarrow>
                     do {
                       (err, c', part) \<leftarrow>
                         (if exact_match ch \<and> bGlobalUniq cfg then scan_unique env k db start c (iPartialCandidates ctx)
                          else scan_cursor env ch k db (iMaxIndexScan fs) (iMaxScanForSizeLimit ctx) start c (iPartialCandidates ctx));
                       Some (if se_hasTxn env \<and> (err = None \<or> err = Some MDB_NOTFOUND) then se_commit env else err,
                             fs\<lparr>candidates := c'\<rparr>, ctx\<lparr>iPartialCandidates := part\<rparr>)
                     })
          })"

definition ATTR_PARENT_ID :: string where
  "ATTR_PARENT_ID = ''parentid''"

text \<open>The result of a scan as an error of the backend.\<close>

definition scan_result :: "(rc \<times> filter_state \<times> scan_ctx) option \<Rightarrow> (rc \<times> filter_state \<times> scan_ctx) option" where
  "scan_result r =
     map_option (\<lambda>(err, fs, ctx).
       (if err = Some MDB_NOTFOUND then Some VMDIR_ERROR_BACKEND_ENTRY_NOTFOUND
        else MDBToBackendError err None VMDIR_ERROR_BACKEND_ERROR, fs, ctx)) r"

text \<open>The key of a value is allocated and scanned for.\<close>

definition scan_value ::
  "scan_env \<Rightarrow> string \<Rightarrow> byte \<Rightarrow> (bytes \<Rightarrow> bytes) \<Rightarrow> berval \<Rightarrow> filter_choice \<Rightarrow> filter_state \<Rightarrow> entry_id \<Rightarrow> scan_ctx \<Rightarrow>
     (rc \<times> filter_state \<times> scan_ctx) option" where
  "scan_value env a t f v ch fs start ctx =
     (case VmDirAllocateMemory (se_mem env) (BERVAL_NORM_LEN v + 1) of
        Some e \<Rightarrow> Some (Some e, fs, ctx)
      | None \<Rightarrow> do { n \<leftarrow> norm_bytes v; MdbScanIndex env a (t # f n) ch fs start ctx })"

definition VmDirMDBGetCandidates ::
  "scan_env \<Rightarrow> filter_choice \<Rightarrow> filter_state \<Rightarrow> entry_id \<Rightarrow> scan_ctx \<Rightarrow> (rc \<times> filter_state \<times> scan_ctx) option" where
  "VmDirMDBGetCandidates env ch fs start ctx =
     scan_result
       (let ava = (\<lambda>a. scan_value env (ava_type a) BE_INDEX_KEY_TYPE_FWD id (ava_value a) ch fs start ctx) in
        case ch of
          LDAP_FILTER_EQUALITY a \<Rightarrow> ava a
        | LDAP_FILTER_GE a \<Rightarrow> ava a
        | LDAP_FILTER_LE a \<Rightarrow> ava a
        | LDAP_FILTER_SUBSTRINGS ss \<Rightarrow>
            (if bv_val (ss_initial ss) \<noteq> [] then
               scan_value env (ss_type ss) BE_INDEX_KEY_TYPE_FWD id (ss_initial ss) ch fs start ctx
             else if bv_val (ss_final ss) \<noteq> [] then
               scan_value env (ss_type ss) BE_INDEX_KEY_TYPE_REV rev (ss_final ss) ch fs start ctx
             else if ss_any ss \<noteq> [] then Some (None, fs, ctx)
             else None)
        | FILTER_ONE_LEVEL_SEARCH dn \<Rightarrow>
            (case se_dn env dn of
               Inl e \<Rightarrow> Some (Some e, fs, ctx)
             | Inr parentId \<Rightarrow> MdbScanIndex env ATTR_PARENT_ID (MDBEntryIdToDBT parentId) ch fs start ctx)
        | _ \<Rightarrow> None)"


section \<open>Writing an index\<close>

definition index_ok :: "bool \<Rightarrow> index_db \<Rightarrow> bool" where
  "index_ok uniq db \<longleftrightarrow> sorted_wrt (<) db \<and> (uniq \<longrightarrow> (\<forall>k v w. (k, v) \<in> set db \<longrightarrow> (k, w) \<in> set db \<longrightarrow> v = w))"

lemma index_ok_eq: "index_ok u db \<Longrightarrow> index_ok u db' \<Longrightarrow> set db = set db' \<Longrightarrow> db = db'"
  by (simp add: index_ok_def strict_sorted_equal)

definition may_add :: "bool \<Rightarrow> bytes \<Rightarrow> entry_id \<Rightarrow> index_db \<Rightarrow> bool" where
  "may_add uniq k v db \<longleftrightarrow> (if uniq then \<forall>w. (k, w) \<notin> set db else (k, v) \<notin> set db)"

lemma put_new:
  assumes "index_ok uniq db" and "may_add uniq k v db"
  shows "mdb_put uniq no k v db = (None, insort (k, v) db)" and "index_ok uniq (insort (k, v) db)"
proof -
  have new: "(k, v) \<notin> set db" using assms(2) by (force simp: may_add_def split: if_splits)
  have "filter (\<lambda>(k', v'). k' \<noteq> k) db = db" if uniq
    using that assms(2) by (force simp: filter_id_conv may_add_def)
  then show "mdb_put uniq no k v db = (None, insort (k, v) db)"
    using assms(2) new by (auto simp: mdb_put_def may_add_def)
  show "index_ok uniq (insort (k, v) db)"
    using assms new by (auto simp: index_ok_def may_add_def strict_sorted_iff sorted_insort distinct_insort set_insort_key)
qed

lemma del_stored:
  assumes "index_ok uniq db" and "(k, v) \<in> set db"
  obtains db' where "MdbDeleteKeyValue k v uniq db = (None, db')" and "index_ok uniq db'" and "set db' = set db - {(k, v)}"
proof -
  define db' where "db' = snd (MdbDeleteKeyValue k v uniq db)"
  have "set db' = set db - {(k, v)}"
    using assms by (auto simp: db'_def MdbDeleteKeyValue_def mdb_del_def index_ok_def Let_def list_ex_iff)
  moreover have "fst (MdbDeleteKeyValue k v uniq db) = None"
    using assms(2) by (auto simp: MdbDeleteKeyValue_def mdb_del_def Let_def list_ex_iff)
  moreover have "index_ok uniq db'"
    using assms(1) by (auto simp: db'_def MdbDeleteKeyValue_def mdb_del_def index_ok_def Let_def sorted_wrt_filter)
  ultimately show ?thesis using that [of db'] by (simp add: db'_def prod_eq_iff)
qed

text \<open>The records of one value of an entry, in the order in which they are written.\<close>

definition value_keys :: "index_cfg \<Rightarrow> bytes \<Rightarrow> bytes list" where
  "value_keys cfg n =
     (if bEquality cfg then [BE_INDEX_KEY_TYPE_FWD # n] else []) @ (if bSubstr cfg then [BE_INDEX_KEY_TYPE_REV # rev n] else [])"

definition value_records :: "index_cfg \<Rightarrow> entry_id \<Rightarrow> bytes list \<Rightarrow> (bytes \<times> entry_id) set" where
  "value_records cfg eId ns = (\<Union>n \<in> set ns. (\<lambda>k. (k, eId)) ` set (value_keys cfg n))"

fun write_keys :: "bool \<Rightarrow> index_op \<Rightarrow> entry_id \<Rightarrow> bytes list \<Rightarrow> index_db \<Rightarrow> rc \<times> index_db" where
  "write_keys uniq oper eId [] db = (None, db)"
| "write_keys uniq oper eId (k # ks) db =
     (case MdbUpdateKeyValue k eId uniq oper db of
        (Some e, db') \<Rightarrow> (Some e, db')
      | (None, db') \<Rightarrow> write_keys uniq oper eId ks db')"

lemma write_keys_append:
  "write_keys uniq oper eId (ks @ ks') db =
     (case write_keys uniq oper eId ks db of (Some e, db') \<Rightarrow> (Some e, db') | (None, db') \<Rightarrow> write_keys uniq oper eId ks' db')"
  by (induction ks arbitrary: db) (auto split: prod.splits option.splits)

lemma update_values_keys:
  assumes "\<forall>k. full k = None" and "\<forall>n. uniq n = None"
  shows "map norm_bytes vs = map Some ns \<Longrightarrow>
     update_values full uniq cfg eId oper vs db = Some (write_keys (bGlobalUniq cfg) oper eId (concat (map (value_keys cfg) ns)) db)"
proof (induction vs arbitrary: ns db)
  case (Cons v vs)
  then obtain n ns' where ns: "ns = n # ns'" "norm_bytes v = Some n" "map norm_bytes vs = map Some ns'" by (cases ns) auto
  have "update_key full (bSubstr cfg) (BE_INDEX_KEY_TYPE_REV # rev n) eId cfg oper
        (update_key full (bEquality cfg) (BE_INDEX_KEY_TYPE_FWD # n) eId cfg oper (None, db)) =
      write_keys (bGlobalUniq cfg) oper eId (value_keys cfg n) db"
    using assms(1) by (auto simp: update_key_def value_keys_def split: prod.splits option.splits)
  with Cons.IH [OF ns(3)] ns assms(2) show ?case
    by (auto simp: write_keys_append split: prod.splits option.splits)
qed simp

lemma create_keys:
  assumes "distinct ks" and "index_ok u db" and "\<forall>k \<in> set ks. may_add u k eId db"
  shows "\<exists>db'. write_keys u BE_INDEX_OP_TYPE_CREATE eId ks db = (None, db') \<and> index_ok u db' \<and> set db' = set db \<union> (\<lambda>k. (k, eId)) ` set ks"
  using assms
proof (induction ks arbitrary: db)
  case (Cons k ks)
  let ?db = "insort (k, eId) db"
  have p: "mdb_put u u k eId db = (None, ?db)" "index_ok u ?db" using put_new [of u db k eId] Cons.prems by simp_all
  have "\<forall>k' \<in> set ks. may_add u k' eId ?db"
    using Cons.prems by (auto simp: may_add_def set_insort_key)
  with Cons.IH [of ?db] Cons.prems p obtain db' where
    "write_keys u BE_INDEX_OP_TYPE_CREATE eId ks ?db = (None, db')" "index_ok u db'" "set db' = set ?db \<union> (\<lambda>k. (k, eId)) ` set ks"
    by auto
  with p show ?case by (auto simp: MdbUpdateKeyValue_def set_insort_key)
qed simp

lemma delete_keys:
  assumes "distinct ks" and "index_ok u db" and "(\<lambda>k. (k, eId)) ` set ks \<subseteq> set db"
  shows "\<exists>db'. write_keys u BE_INDEX_OP_TYPE_DELETE eId ks db = (None, db') \<and> index_ok u db' \<and> set db' = set db - (\<lambda>k. (k, eId)) ` set ks"
  using assms
proof (induction ks arbitrary: db)
  case (Cons k ks)
  have "(k, eId) \<in> set db" using Cons.prems by simp
  from del_stored [OF Cons.prems(2) this] obtain db1 where d: "MdbDeleteKeyValue k eId u db = (None, db1)"
    "index_ok u db1" "set db1 = set db - {(k, eId)}" by blast
  with Cons.prems have "(\<lambda>k. (k, eId)) ` set ks \<subseteq> set db1" by auto
  with Cons.IH [of db1] Cons.prems d obtain db' where
    "write_keys u BE_INDEX_OP_TYPE_DELETE eId ks db1 = (None, db')" "index_ok u db'" "set db' = set db1 - (\<lambda>k. (k, eId)) ` set ks"
    by auto
  with d show ?case by (auto simp: MdbUpdateKeyValue_def)
qed simp

lemma distinct_value_keys: "distinct ns \<Longrightarrow> distinct (concat (map (value_keys cfg) ns))"
proof (induction ns)
  case (Cons n ns)
  then show ?case
    by (auto simp: value_keys_def BE_INDEX_KEY_TYPE_FWD_def BE_INDEX_KEY_TYPE_REV_def)
qed simp

lemma value_records_keys: "(\<lambda>k. (k, eId)) ` set (concat (map (value_keys cfg) ns)) = value_records cfg eId ns"
  by (auto simp: value_records_def)


text \<open>
  C34. Storing the values of an attribute of a new entry in the index of the attribute adds exactly
  their records, forward for an equality index and reversed for a substring index, and keeps the
  index in order and its unique values unique. Deleting them again restores the index.
\<close>

theorem index_roundtrip:
  assumes "\<forall>n. mem n" and "\<forall>k. full k = None" and "\<forall>n. uniq n = None"
    and ok: "index_ok (bGlobalUniq cfg) db"
    and vals: "map norm_bytes vals = map Some ns" and "distinct ns"
    and new: "\<forall>k \<in> set (concat (map (value_keys cfg) ns)). may_add (bGlobalUniq cfg) k eId db"
  shows "\<exists>db'. MdbUpdateIndicesForAttr mem (Inr (Some cfg)) None full uniq vals eId BE_INDEX_OP_TYPE_CREATE db = Some (None, db') \<and>
    index_ok (bGlobalUniq cfg) db' \<and> set db' = set db \<union> value_records cfg eId ns \<and>
    MdbUpdateIndicesForAttr mem (Inr (Some cfg)) None full uniq vals eId BE_INDEX_OP_TYPE_DELETE db' = Some (None, db)"
proof -
  let ?u = "bGlobalUniq cfg" and ?ks = "concat (map (value_keys cfg) ns)"
  have upd: "MdbUpdateIndicesForAttr mem (Inr (Some cfg)) None full uniq vals eId oper d = Some (write_keys ?u oper eId ?ks d)" for oper d
    using assms(1) update_values_keys [OF assms(2,3) vals] by (simp add: MdbUpdateIndicesForAttr_def VmDirAllocateMemory_def)
  obtain db1 where c: "write_keys ?u BE_INDEX_OP_TYPE_CREATE eId ?ks db = (None, db1)" "index_ok ?u db1"
    "set db1 = set db \<union> value_records cfg eId ns"
    using create_keys [OF distinct_value_keys [OF assms(6)] ok new] value_records_keys by metis
  obtain db2 where d: "write_keys ?u BE_INDEX_OP_TYPE_DELETE eId ?ks db1 = (None, db2)" "index_ok ?u db2"
    "set db2 = set db1 - value_records cfg eId ns"
    using delete_keys [OF distinct_value_keys [OF assms(6), of cfg] c(2), of eId] c(3) value_records_keys [of eId cfg ns] by auto
  have "value_records cfg eId ns \<inter> set db = {}"
    using new unfolding value_records_keys [symmetric] by (fastforce simp: may_add_def split: if_splits)
  then have "db2 = db" using index_ok_eq [OF d(2) ok] d(3) c(3) by blast
  with upd c d show ?thesis by auto
qed

definition text_index :: index_cfg where
  "text_index = \<lparr>bGlobalUniq = False, bEquality = True, bSubstr = True\<rparr>"

theorem index_roundtrip_witness:
  "\<exists>db'. MdbUpdateIndicesForAttr (\<lambda>n. True) (Inr (Some text_index)) None (\<lambda>k. None) (\<lambda>n. None) [plain [97, 98]] 5
      BE_INDEX_OP_TYPE_CREATE [([48, 97, 98], 3)] = Some (None, db') \<and>
    set db' = {([48, 97, 98], 3), ([48, 97, 98], 5), ([49, 98, 97], 5)} \<and>
    MdbUpdateIndicesForAttr (\<lambda>n. True) (Inr (Some text_index)) None (\<lambda>k. None) (\<lambda>n. None) [plain [97, 98]] 5
      BE_INDEX_OP_TYPE_DELETE db' = Some (None, [([48, 97, 98], 3)])"
proof -
  have "map norm_bytes [plain [97, 98]] = map Some [[97, 98 :: byte]]"
    by (simp add: norm_bytes_def plain_def BERVAL_NORM_LEN_def BERVAL_NORM_VAL_def)
  moreover have "value_records text_index 5 [[97, 98]] = {([48, 97, 98], 5), ([49, 98, 97], 5)}"
    by (simp add: value_records_def value_keys_def text_index_def BE_INDEX_KEY_TYPE_FWD_def BE_INDEX_KEY_TYPE_REV_def)
  ultimately show ?thesis
    using index_roundtrip [of "\<lambda>n. True" "\<lambda>k. None" "\<lambda>n. None" text_index "[([48, 97, 98], 3)]" "[plain [97, 98]]" "[[97, 98]]" 5]
    by (auto simp: index_ok_def may_add_def value_keys_def text_index_def BE_INDEX_KEY_TYPE_FWD_def BE_INDEX_KEY_TYPE_REV_def insert_commute)
qed

section \<open>What a scan visits\<close>

text \<open>The records that the loop adds when no limit is hit.\<close>

function visited :: "filter_choice \<Rightarrow> bytes \<Rightarrow> index_db \<Rightarrow> nat \<Rightarrow> index_db" where
  "visited ch k db p =
     (if exact_match ch \<and> fst (db ! p) \<noteq> k \<or> partial_match ch \<and> \<not> prefix k (fst (db ! p)) then []
      else db ! p # (case mdb_cursor_get db (next_op ch) k p of None \<Rightarrow> [] | Some p' \<Rightarrow> visited ch k db p'))"
  by pat_completeness auto

termination visited
  by (relation "measure (\<lambda>(ch, k, db, p). if is_le ch then p else length db - p)")
    (auto simp: mdb_cursor_get_def next_op_def is_le_def exact_match_def Let_def split: if_splits filter_choice.splits)

declare visited.simps [simp del]

definition room :: "candidates \<Rightarrow> bool" where
  "room c \<longleftrightarrow> eIds c \<noteq> None \<and> cl_size c \<le> cl_max c \<and> 0 < cl_max c"

lemma add_grows:
  assumes "\<forall>n. mem n" and "room c" and "cl_size c < 2 ^ 26"
  obtains c' where "VmDirAddToCandidates mem c x = Some (None, c')" and "cl_ids c' = cl_ids c @ [x]" and "room c'"
    and "positive c' = positive c" and "eIdsSorted c' = eIdsSorted c"
proof -
  obtain xs where xs: "eIds c = Some xs" "cl_ids c = xs" using assms(2) by (auto simp: room_def cl_ids_def)
  show ?thesis
  proof (cases "cl_size c = cl_max c")
    case True
    with assms xs show ?thesis
      using that [of "c\<lparr>eIds := Some (xs @ [x]), cl_max := cl_max c * 2\<rparr>"]
      by (simp add: VmDirAddToCandidates_def VmDirReallocCandidates_def VmDirReallocateMemoryWithInit_def VmDirReallocateMemory_def
          room_def cl_size_def cl_ids_def)
  next
    case False
    with assms xs add_room [OF xs(1), of mem x] show ?thesis
      using that [of "c\<lparr>eIds := Some (xs @ [x])\<rparr>"] by (simp add: room_def cl_size_def cl_ids_def)
  qed
qed

definition scanned :: "nat \<Rightarrow> entry_id \<Rightarrow> candidates \<Rightarrow> index_db \<Rightarrow> rc \<Rightarrow> candidates option \<Rightarrow> bool" where
  "scanned maxIdx start c rs err c' \<longleftrightarrow>
     err \<in> {None, Some MDB_NOTFOUND} \<and>
     (case c' of
        None \<Rightarrow> maxIdx > 0
      | Some d \<Rightarrow> cl_ids d = cl_ids c @ map snd (filter (\<lambda>r. start \<le> snd r) rs) \<and>
          positive d = positive c \<and> eIdsSorted d = eIdsSorted c)"

lemma scan_loop_visits:
  assumes "\<forall>n. se_mem env n" and "\<forall>n. se_get env n = None"
  shows "room c \<Longrightarrow> cl_size c + length (visited ch k db p) < 2 ^ 26 \<Longrightarrow>
     \<exists>err c'. scan_loop env ch k db maxIdx 0 start n p c part = Some (err, c', part) \<and> scanned maxIdx start c (visited ch k db p) err c'"
proof (induction ch k db p arbitrary: n c rule: visited.induct)
  case (1 ch k db p)
  show ?case
  proof (cases "exact_match ch \<and> fst (db ! p) \<noteq> k \<or> partial_match ch \<and> \<not> prefix k (fst (db ! p))")
    case True
    then show ?thesis by (subst scan_loop.simps) (auto simp: visited.simps [of ch k db p] scanned_def)
  next
    case False
    let ?next = "mdb_cursor_get db (next_op ch) k p"
    let ?rest = "case ?next of None \<Rightarrow> [] | Some p' \<Rightarrow> visited ch k db p'"
    have vis: "visited ch k db p = db ! p # ?rest" using False by (simp add: visited.simps [of ch k db p])
    obtain c1 where add: "(if start \<le> snd (db ! p) then VmDirAddToCandidates (se_mem env) c (snd (db ! p)) else Some (None, c)) = Some (None, c1)"
      "cl_ids c1 = cl_ids c @ map snd (filter (\<lambda>r. start \<le> snd r) [db ! p])" "room c1" "positive c1 = positive c" "eIdsSorted c1 = eIdsSorted c"
    proof (cases "start \<le> snd (db ! p)")
      case True
      have "cl_size c < 2 ^ 26" using "1.prems"(2) by simp
      from add_grows [OF assms(1) "1.prems"(1) this, of "snd (db ! p)"] that True show ?thesis by fastforce
    qed (use "1.prems"(1) that in auto)
    have loop: "scan_loop env ch k db maxIdx 0 start n p c part =
      (if maxIdx > 0 \<and> cl_size c1 > maxIdx then Some (Some MDB_NOTFOUND, None, part)
       else case ?next of None \<Rightarrow> Some (scan_end MDB_NOTFOUND c1 part)
            | Some p' \<Rightarrow> scan_loop env ch k db maxIdx 0 start (n + 1) p' c1 part)"
      using False add(1) assms(2) by (subst scan_loop.simps) (auto simp: cursor_get_def split: option.splits)
    show ?thesis
    proof (cases "maxIdx > 0 \<and> cl_size c1 > maxIdx")
      case True
      then show ?thesis using loop by (auto simp: scanned_def)
    next
      case no_limit: False
      show ?thesis
      proof (cases ?next)
        case None
        then show ?thesis using loop no_limit vis add by (auto simp: scan_end_def scanned_def)
      next
        case (Some p')
        have "cl_size c1 + length (visited ch k db p') < 2 ^ 26"
          using "1.prems"(2) vis Some add(2) by (auto simp: cl_size_def split: if_splits)
        from "1.IH" [OF False Some add(3) this, of "n + 1"] obtain err c' where
          "scan_loop env ch k db maxIdx 0 start (n + 1) p' c1 part = Some (err, c', part)" "scanned maxIdx start c1 (visited ch k db p') err c'" by blast
        then show ?thesis using loop no_limit vis Some add(2,4,5)
          by (intro exI [of _ err] exI [of _ c']) (auto simp: scanned_def split: option.splits)
      qed
    qed
  qed
qed


lemma takeWhile_filter:
  "sorted_wrt R xs \<Longrightarrow> (\<And>x y. x \<in> set xs \<Longrightarrow> R x y \<Longrightarrow> \<not> P x \<Longrightarrow> \<not> P y) \<Longrightarrow> takeWhile P xs = filter P xs"
proof (induction xs)
  case (Cons x xs)
  show ?case
  proof (cases "P x")
    case True
    with Cons show ?thesis by auto
  next
    case False
    with Cons.prems have "\<forall>y \<in> set xs. \<not> P y" by auto
    with False show ?thesis by simp
  qed
qed simp

lemma visited_exact:
  "exact_match ch \<Longrightarrow> p < length db \<Longrightarrow> visited ch k db p = takeWhile (\<lambda>r. fst r = k) (drop p db)"
proof (induction ch k db p rule: visited.induct)
  case (1 ch k db p)
  have np: "\<not> partial_match ch" using "1.prems"(1) by (cases ch) (simp_all add: exact_match_def partial_match_def)
  have d: "drop p db = db ! p # drop (p + 1) db" using "1.prems"(2) by (simp add: Cons_nth_drop_Suc)
  show ?case
  proof (cases "fst (db ! p) = k")
    case True
    let ?next = "mdb_cursor_get db (next_op ch) k p"
    have n: "?next = (if p + 1 < length db \<and> fst (db ! (p + 1)) = k then Some (p + 1) else None)"
      using "1.prems"(1) True by (simp add: mdb_cursor_get_def next_op_def)
    have "(case ?next of None \<Rightarrow> [] | Some p' \<Rightarrow> visited ch k db p') = takeWhile (\<lambda>r. fst r = k) (drop (p + 1) db)"
    proof (cases "p + 1 < length db \<and> fst (db ! (p + 1)) = k")
      case more: True
      then have "?next = Some (p + 1)" using n by simp
      with "1.IH" [OF _ this "1.prems"(1)] more True np show ?thesis by simp
    next
      case False
      then show ?thesis using n by (cases "p + 1 < length db") (auto simp: Cons_nth_drop_Suc [symmetric])
    qed
    then show ?thesis using True np d by (subst visited.simps) simp
  qed (use "1.prems" np d in \<open>subst visited.simps, simp\<close>)
qed

lemma visited_partial:
  "partial_match ch \<Longrightarrow> p < length db \<Longrightarrow> visited ch k db p = takeWhile (\<lambda>r. prefix k (fst r)) (drop p db)"
proof (induction ch k db p rule: visited.induct)
  case (1 ch k db p)
  have ch: "\<not> exact_match ch" "\<not> is_le ch" using "1.prems"(1) by (cases ch; simp add: exact_match_def partial_match_def is_le_def)+
  have d: "drop p db = db ! p # drop (p + 1) db" using "1.prems"(2) by (simp add: Cons_nth_drop_Suc)
  have n: "mdb_cursor_get db (next_op ch) k p = (if p + 1 < length db then Some (p + 1) else None)"
    using ch by (simp add: mdb_cursor_get_def next_op_def)
  show ?case
  proof (cases "prefix k (fst (db ! p)) \<and> p + 1 < length db")
    case True
    with "1.IH" [of "p + 1"] "1.prems"(1) n ch have "visited ch k db (p + 1) = takeWhile (\<lambda>r. prefix k (fst r)) (drop (p + 1) db)" by simp
    then show ?thesis using True ch d n by (subst visited.simps) simp
  qed (use "1.prems" ch d n in \<open>subst visited.simps, auto\<close>)
qed

lemma visited_ge:
  "\<not> exact_match ch \<Longrightarrow> \<not> partial_match ch \<Longrightarrow> \<not> is_le ch \<Longrightarrow> p < length db \<Longrightarrow> visited ch k db p = drop p db"
proof (induction ch k db p rule: visited.induct)
  case (1 ch k db p)
  have d: "drop p db = db ! p # drop (p + 1) db" using "1.prems"(4) by (simp add: Cons_nth_drop_Suc)
  have n: "mdb_cursor_get db (next_op ch) k p = (if p + 1 < length db then Some (p + 1) else None)"
    using "1.prems" by (simp add: mdb_cursor_get_def next_op_def)
  show ?case using "1.IH" [of "p + 1"] "1.prems" d n
    by (subst visited.simps) (cases "p + 1 < length db"; simp)
qed

lemma visited_le:
  "is_le ch \<Longrightarrow> p < length db \<Longrightarrow> visited ch k db p = rev (take (p + 1) db)"
proof (induction ch k db p rule: visited.induct)
  case (1 ch k db p)
  have ch: "\<not> exact_match ch" "\<not> partial_match ch" using "1.prems"(1) by (cases ch; simp add: exact_match_def partial_match_def is_le_def)+
  have d: "take (p + 1) db = take p db @ [db ! p]" using "1.prems"(2) by (simp add: take_Suc_conv_app_nth)
  have n: "mdb_cursor_get db (next_op ch) k p = (if p > 0 then Some (p - 1) else None)"
    using ch "1.prems"(1) by (simp add: mdb_cursor_get_def next_op_def)
  show ?case using "1.IH" [of "p - 1"] "1.prems" ch d n
    by (subst visited.simps) (cases p; simp)
qed

text \<open>Where the keys lie in the order of the index.\<close>

lemma prefix_le: "prefix k y \<Longrightarrow> k \<le> (y :: bytes)"
  by (induction k y rule: list_induct2') auto

lemma prefix_block: "k \<le> x \<Longrightarrow> \<not> prefix k x \<Longrightarrow> x \<le> y \<Longrightarrow> \<not> prefix k (y :: bytes)"
proof (induction k arbitrary: x y)
  case (Cons a k)
  from Cons.prems(1) obtain b x' where x: "x = b # x'" by (cases x) auto
  show ?case
  proof
    assume "prefix (a # k) y"
    then obtain y' where y: "y = a # y'" "prefix k y'" by (cases y) auto
    from Cons.prems(1,3) x y have "b = a" by auto
    with Cons x y show False by auto
  qed
qed simp

definition first_key :: "bytes \<Rightarrow> index_db \<Rightarrow> nat" where
  "first_key k db = length (takeWhile (\<lambda>(k', v). k' < k) db)"

lemma sorted_keys: "index_ok u db \<Longrightarrow> sorted_wrt (\<lambda>r s. fst r \<le> fst s) db"
  by (auto simp: index_ok_def elim!: sorted_wrt_mono_rel [rotated])

lemma dropWhile_keys:
  "sorted_wrt (\<lambda>r s. fst r \<le> fst s) (db :: index_db) \<Longrightarrow> dropWhile (\<lambda>(k', v). k' < k) db = filter (\<lambda>r. k \<le> fst r) db"
proof (induction db)
  case (Cons r db)
  show ?case
  proof (cases "fst r < k")
    case True
    with Cons show ?thesis by (simp add: case_prod_beta not_le)
  next
    case False
    then have k: "k \<le> fst r" by simp
    have "k \<le> fst s" if "s \<in> set db" for s using Cons.prems that order_trans [OF k] by simp
    then have "filter (\<lambda>r. k \<le> fst r) db = db" by (simp add: filter_id_conv)
    with False k show ?thesis by (simp add: case_prod_beta)
  qed
qed simp

lemma drop_first_key: "index_ok u db \<Longrightarrow> drop (first_key k db) db = filter (\<lambda>r. k \<le> fst r) db"
  using dropWhile_keys [OF sorted_keys] by (simp add: first_key_def dropWhile_eq_drop)

lemma visited_first:
  assumes "index_ok u db" and "first_key k db < length db"
  shows "exact_match ch \<Longrightarrow> visited ch k db (first_key k db) = filter (\<lambda>r. fst r = k) db"
    and "partial_match ch \<Longrightarrow> visited ch k db (first_key k db) = filter (\<lambda>r. prefix k (fst r)) db"
    and "\<not> exact_match ch \<Longrightarrow> \<not> partial_match ch \<Longrightarrow> \<not> is_le ch \<Longrightarrow> visited ch k db (first_key k db) = filter (\<lambda>r. k \<le> fst r) db"
proof -
  let ?up = "filter (\<lambda>r. k \<le> fst r) db"
  have s: "sorted_wrt (\<lambda>r s. fst r \<le> fst s) ?up" by (rule sorted_wrt_filter [OF sorted_keys [OF assms(1)]])
  have "takeWhile (\<lambda>r. fst r = k) ?up = filter (\<lambda>r. fst r = k) ?up" by (rule takeWhile_filter [OF s]) auto
  also have "\<dots> = filter (\<lambda>r. fst r = k) db" by (auto intro!: filter_cong)
  finally show "exact_match ch \<Longrightarrow> visited ch k db (first_key k db) = filter (\<lambda>r. fst r = k) db"
    using visited_exact [of ch "first_key k db" db k] assms by (simp add: drop_first_key)
  have "takeWhile (\<lambda>r. prefix k (fst r)) ?up = filter (\<lambda>r. prefix k (fst r)) ?up"
    by (rule takeWhile_filter [OF s]) (auto dest: prefix_block)
  also have "\<dots> = filter (\<lambda>r. prefix k (fst r)) db" by (auto intro!: filter_cong dest: prefix_le)
  finally show "partial_match ch \<Longrightarrow> visited ch k db (first_key k db) = filter (\<lambda>r. prefix k (fst r)) db"
    using visited_partial [of ch "first_key k db" db k] assms by (simp add: drop_first_key)
  show "\<not> exact_match ch \<Longrightarrow> \<not> partial_match ch \<Longrightarrow> \<not> is_le ch \<Longrightarrow> visited ch k db (first_key k db) = ?up"
    using visited_ge [of ch "first_key k db" db k] assms by (simp add: drop_first_key)
qed


text \<open>The records that a scan is meant to find.\<close>

definition wanted :: "filter_choice \<Rightarrow> bytes \<Rightarrow> bytes \<times> entry_id \<Rightarrow> bool" where
  "wanted ch k r \<longleftrightarrow>
     (if exact_match ch then fst r = k else if partial_match ch then prefix k (fst r)
      else if is_le ch then fst r \<le> k else k \<le> fst r)"

lemma choice_exclusive:
  "exact_match ch \<Longrightarrow> \<not> partial_match ch \<and> \<not> is_le ch" "partial_match ch \<Longrightarrow> \<not> exact_match ch \<and> \<not> is_le ch"
  "is_le ch \<Longrightarrow> \<not> exact_match ch \<and> \<not> partial_match ch"
  by (cases ch; simp add: exact_match_def partial_match_def is_le_def)+

lemma first_key_range: "mdb_cursor_get db MDB_SET_RANGE k p = (if first_key k db < length db then Some (first_key k db) else None)"
  by (simp add: mdb_cursor_get_def first_key_def)

lemma first_key_set:
  "mdb_cursor_get db MDB_SET k p = (if first_key k db < length db \<and> fst (db ! first_key k db) = k then Some (first_key k db) else None)"
  by (simp add: mdb_cursor_get_def first_key_def Let_def)

lemma no_upper: "index_ok u db \<Longrightarrow> \<not> first_key k db < length db \<Longrightarrow> \<forall>r \<in> set db. fst r < k"
proof
  fix r assume "index_ok u db" and "\<not> first_key k db < length db" and r: "r \<in> set db"
  then have "filter (\<lambda>r. k \<le> fst r) db = []" using drop_first_key [of u db k] by simp
  with r show "fst r < k" by (auto simp: filter_empty_conv)
qed

lemma not_stored: "index_ok u db \<Longrightarrow> mdb_cursor_get db MDB_SET k p = None \<Longrightarrow> filter (\<lambda>r. fst r = k) db = []"
proof (cases "first_key k db < length db")
  case True
  assume ok: "index_ok u db" and none: "mdb_cursor_get db MDB_SET k p = None"
  let ?ch = "FILTER_ONE_LEVEL_SEARCH (plain [])"
  have ch: "exact_match ?ch" by (simp add: exact_match_def)
  have "visited ?ch k db (first_key k db) = []" using True none ch by (subst visited.simps) (auto simp: first_key_set)
  with visited_first(1) [OF ok True ch] show ?thesis by simp
next
  case False
  assume "index_ok u db"
  from no_upper [OF this False] show ?thesis by (auto simp: filter_empty_conv)
qed

lemma scan_end_scanned: "\<exists>err c'. scan_end MDB_NOTFOUND c part = (err, c', part) \<and> scanned maxIdx start c [] err c'"
  by (simp add: scan_end_def scanned_def)

lemma scan_cursor_exact:
  assumes env: "\<forall>n. se_mem env n" "\<forall>n. se_get env n = None" and ok: "index_ok u db" and len: "length db < 2 ^ 26"
    and c: "room c" "cl_size c = 0" and ch: "\<not> is_le ch"
  shows "\<exists>err c'. scan_cursor env ch k db maxIdx 0 start c part = Some (err, c', part) \<and>
    scanned maxIdx start c (filter (wanted ch k) db) err c'"
proof (cases "mdb_cursor_get db (if exact_match ch then MDB_SET else MDB_SET_RANGE) k 0")
  case None
  have "filter (wanted ch k) db = []"
  proof (cases "exact_match ch")
    case True
    with None not_stored [OF ok, of k 0] show ?thesis by (simp add: wanted_def [abs_def])
  next
    case False
    with None have "\<forall>r \<in> set db. fst r < k" using no_upper [OF ok, of k] by (simp add: first_key_range split: if_splits)
    then show ?thesis using False ch by (force simp: filter_empty_conv wanted_def dest: prefix_le)
  qed
  with None ch scan_end_scanned [of c part maxIdx start] env(2) show ?thesis
    by (auto simp: scan_cursor_def cursor_get_def Let_def split: if_splits)
next
  case (Some p)
  then have p: "p = first_key k db" "first_key k db < length db"
    by (auto simp: first_key_range first_key_set split: if_splits)
  have v: "visited ch k db p = filter (wanted ch k) db"
    using visited_first [OF ok p(2), of ch] p(1) ch choice_exclusive [of ch] unfolding wanted_def [abs_def]
    by (cases "exact_match ch"; cases "partial_match ch") simp_all
  have "cl_size c + length (visited ch k db p) < 2 ^ 26"
    using c(2) len le_less_trans [OF length_filter_le [of "wanted ch k" db] len] v by simp
  from scan_loop_visits [OF env c(1) this, of maxIdx start 1 part] obtain err c' where
    r: "scan_loop env ch k db maxIdx 0 start 1 p c part = Some (err, c', part)" "scanned maxIdx start c (visited ch k db p) err c'" by blast
  then show ?thesis using Some ch env(2) v
    by (intro exI [of _ err] exI [of _ c']) (auto simp: scan_cursor_def cursor_get_def Let_def split: if_splits)
qed

text \<open>The scan for less-or-equal reaches every record below the key, and with the key one record.\<close>

lemma scan_cursor_le:
  assumes env: "\<forall>n. se_mem env n" "\<forall>n. se_get env n = None" and ok: "index_ok u db" and len: "length db < 2 ^ 26"
    and c: "room c" "cl_size c = 0" and ch: "is_le ch" and uniq: "distinct (map fst db)"
  shows "\<exists>err c' rs. scan_cursor env ch k db maxIdx 0 start c part = Some (err, c', part) \<and>
    scanned maxIdx start c rs err c' \<and> set rs \<subseteq> set db \<and> set (filter (wanted ch k) db) \<subseteq> set rs \<and> length rs \<le> length db"
proof -
  have nx: "\<not> exact_match ch" "\<not> partial_match ch" using ch choice_exclusive(3) by auto
  let ?f = "first_key k db"
  let ?p = "if ?f < length db then ?f else length db - 1"
  show ?thesis
  proof (cases "db = []")
    case True
    then show ?thesis using scan_end_scanned [of c part maxIdx start] env(2) ch nx
      by (auto simp: scan_cursor_def cursor_get_def mdb_cursor_get_def Let_def)
  next
    case False
    let ?rs = "rev (take (?p + 1) db)"
    have p: "?p < length db" using False by auto
    have v: "visited ch k db ?p = ?rs" by (rule visited_le [OF ch p])
    have "cl_size c + length (visited ch k db ?p) < 2 ^ 26" using c(2) len p unfolding v by simp
    from scan_loop_visits [OF env c(1) this, of maxIdx start 2 part] obtain err c' where
      r: "scan_loop env ch k db maxIdx 0 start 2 ?p c part = Some (err, c', part)" "scanned maxIdx start c ?rs err c'"
      unfolding v by blast
    have "scan_cursor env ch k db maxIdx 0 start c part = scan_loop env ch k db maxIdx 0 start 2 ?p c part"
      using ch nx env(2) False
      by (simp add: scan_cursor_def cursor_get_def first_key_range Let_def) (simp add: mdb_cursor_get_def numeral_2_eq_2)
    moreover have "r \<in> set ?rs" if "r \<in> set db" "wanted ch k r" for r
    proof (cases "?f < length db")
      case True
      from that(1) obtain i where i: "i < length db" "db ! i = r" by (auto simp: in_set_conv_nth)
      have "i \<le> ?f"
      proof (rule ccontr)
        assume gt: "\<not> i \<le> ?f"
        have "drop ?f db \<noteq> []" using True by simp
        then have "k \<le> fst (db ! ?f)" using drop_first_key [OF ok, of k] True by (metis Cons_nth_drop_Suc filter_eq_ConsD list.set_intros(1) mem_Collect_eq set_filter)
        moreover have "fst (db ! ?f) \<le> fst (db ! i)" using gt i(1) sorted_wrt_nth_less [OF sorted_keys [OF ok], of ?f i] by simp
        ultimately have "fst (db ! ?f) = fst (db ! i)" using that(2) i(2) nx ch by (auto simp: wanted_def)
        then show False using uniq gt i(1) True by (metis distinct_conv_nth length_map nth_map le_refl)
      qed
      then show ?thesis using True i by (auto simp: in_set_conv_nth intro!: exI [of _ i])
    next
      case False
      then show ?thesis using that p by simp
    qed
    ultimately show ?thesis using r by (intro exI [of _ err] exI [of _ c'] exI [of _ ?rs]) (auto dest: in_set_takeD)
  qed
qed


lemma distinct_singleton_set: "distinct xs \<Longrightarrow> set xs = {x} \<Longrightarrow> xs = [x]"
proof (cases xs)
  case (Cons y ys)
  assume "distinct xs" and "set xs = {x}"
  with Cons have "y = x" and "set ys \<subseteq> {x}" and "x \<notin> set ys" by auto
  then have "set ys = {}" by (auto simp: subset_singleton_iff)
  with Cons \<open>y = x\<close> show ?thesis by simp
qed simp

lemma scan_unique_exact:
  assumes env: "\<forall>n. se_mem env n" "\<forall>n. se_get env n = None" and ok: "index_ok True db" and c: "room c" "cl_size c = 0"
  shows "\<exists>err c'. scan_unique env k db start c part = Some (err, c', part) \<and> scanned maxIdx start c (filter (\<lambda>r. fst r = k) db) err c'"
proof (cases "mdb_cursor_get db MDB_SET k 0")
  case None
  with not_stored [OF ok None] env(2) show ?thesis by (simp add: scan_unique_def cursor_get_def scanned_def)
next
  case (Some p)
  then have p: "p < length db" "fst (db ! p) = k" by (auto simp: first_key_set split: if_splits)
  have "filter (\<lambda>r. fst r = k) db = [db ! p]"
  proof -
    have "set (filter (\<lambda>r. fst r = k) db) = {db ! p}"
      using p ok by (auto simp: index_ok_def) (metis nth_mem prod.collapse)
    moreover have "distinct (filter (\<lambda>r. fst r = k) db)" using ok by (simp add: index_ok_def strict_sorted_iff)
    ultimately show ?thesis by (rule distinct_singleton_set [rotated])
  qed
  moreover obtain c1 where "VmDirAddToCandidates (se_mem env) c (snd (db ! p)) = Some (None, c1)"
    "cl_ids c1 = cl_ids c @ [snd (db ! p)]" "positive c1 = positive c" "eIdsSorted c1 = eIdsSorted c"
  proof -
    have "cl_size c < 2 ^ 26" using c(2) by simp
    from add_grows [OF env(1) c(1) this, of "snd (db ! p)"] that show ?thesis by blast
  qed
  ultimately show ?thesis using Some env(2) by (auto simp: scan_unique_def cursor_get_def scanned_def)
qed

text \<open>An index that can be read, with its configuration.\<close>

definition readable :: "scan_env \<Rightarrow> string \<Rightarrow> index_cfg \<Rightarrow> bool" where
  "readable env a cfg \<longleftrightarrow>
     (\<forall>n. se_mem env n) \<and> (\<forall>n. se_get env n = None) \<and> se_cfg env a = Inr (Some cfg) \<and> se_dbi env a = None \<and> se_begin env = None \<and>
     (se_hasTxn env \<longrightarrow> se_commit env = None) \<and> index_ok (bGlobalUniq cfg) (se_index env a) \<and> length (se_index env a) < 2 ^ 26"

lemma new_candidates: "\<forall>n. mem n \<Longrightarrow> NewCandidates mem 10 True = Some (Some \<lparr>eIds = Some [], cl_max = 10, positive = True, eIdsSorted = False\<rparr>)"
  by (simp add: NewCandidates_def VmDirAllocateMemory_def)

lemma MdbScanIndex_scans:
  assumes r: "readable env a cfg" and ctx: "iMaxScanForSizeLimit ctx = 0"
    and le: "is_le ch \<Longrightarrow> distinct (map fst (se_index env a))"
  shows "\<exists>err c' rs. MdbScanIndex env a k ch fs start ctx = Some (err, fs\<lparr>candidates := c'\<rparr>, ctx) \<and>
    scanned (iMaxIndexScan fs) start \<lparr>eIds = Some [], cl_max = 10, positive = True, eIdsSorted = False\<rparr> rs
      (if err = None then None else Some MDB_NOTFOUND) c' \<and> err \<in> {None, Some MDB_NOTFOUND} \<and>
    set rs \<subseteq> set (se_index env a) \<and> set (filter (wanted ch k) (se_index env a)) \<subseteq> set rs \<and> length rs \<le> length (se_index env a) \<and>
    (\<not> is_le ch \<longrightarrow> rs = filter (wanted ch k) (se_index env a))"
proof -
  let ?c = "\<lparr>eIds = Some [], cl_max = 10, positive = True, eIdsSorted = False\<rparr>" and ?db = "se_index env a"
  have env: "\<forall>n. se_mem env n" "\<forall>n. se_get env n = None" "index_ok (bGlobalUniq cfg) ?db" "length ?db < 2 ^ 26"
    using r by (simp_all add: readable_def)
  have c: "room ?c" "cl_size ?c = 0" by (simp_all add: room_def cl_size_def cl_ids_def)
  let ?scan = "if exact_match ch \<and> bGlobalUniq cfg then scan_unique env k ?db start ?c (iPartialCandidates ctx)
    else scan_cursor env ch k ?db (iMaxIndexScan fs) 0 start ?c (iPartialCandidates ctx)"
  have "\<exists>err c' rs. ?scan = Some (err, c', iPartialCandidates ctx) \<and> scanned (iMaxIndexScan fs) start ?c rs err c' \<and>
      set rs \<subseteq> set ?db \<and> set (filter (wanted ch k) ?db) \<subseteq> set rs \<and> length rs \<le> length ?db \<and>
      (\<not> is_le ch \<longrightarrow> rs = filter (wanted ch k) ?db)"
  proof (cases "is_le ch")
    case True
    with scan_cursor_le [OF env c True le [OF True]] choice_exclusive(3) [OF True] show ?thesis by auto
  next
    case False
    have "\<exists>err c'. ?scan = Some (err, c', iPartialCandidates ctx) \<and> scanned (iMaxIndexScan fs) start ?c (filter (wanted ch k) ?db) err c'"
    proof (cases "exact_match ch \<and> bGlobalUniq cfg")
      case True
      moreover from True have "wanted ch k = (\<lambda>r. fst r = k)" by (simp add: wanted_def [abs_def])
      ultimately show ?thesis using scan_unique_exact [OF env(1,2) _ c] env(3) by auto
    next
      case False
      with scan_cursor_exact [OF env c \<open>\<not> is_le ch\<close>] show ?thesis by auto
    qed
    then show ?thesis by (elim exE conjE) (intro exI conjI; assumption?; auto)
  qed
  then obtain err c' rs where s: "?scan = Some (err, c', iPartialCandidates ctx)" "scanned (iMaxIndexScan fs) start ?c rs err c'"
    "set rs \<subseteq> set ?db" "set (filter (wanted ch k) ?db) \<subseteq> set rs" "length rs \<le> length ?db" "\<not> is_le ch \<longrightarrow> rs = filter (wanted ch k) ?db" by blast
  let ?err = "if se_hasTxn env \<and> (err = None \<or> err = Some MDB_NOTFOUND) then se_commit env else err"
  have "MdbScanIndex env a k ch fs start ctx = Some (?err, fs\<lparr>candidates := c'\<rparr>, ctx)"
  proof -
    have "se_cfg env a = Inr (Some cfg)" "se_dbi env a = None" "se_begin env = None" using r by (simp_all add: readable_def)
    then show ?thesis using s(1)
      by (cases "exact_match ch \<and> bGlobalUniq cfg") (auto simp: MdbScanIndex_def new_candidates [OF env(1)] ctx Let_def)
  qed
  moreover have "?err \<in> {None, Some MDB_NOTFOUND}" using r s(2) by (auto simp: readable_def scanned_def)
  moreover have "scanned (iMaxIndexScan fs) start ?c rs (if ?err = None then None else Some MDB_NOTFOUND) c'"
    using s(2) by (auto simp: scanned_def)
  ultimately show ?thesis using s(3-6) by blast
qed

text \<open>
  C35. A scan of an index without limits gives exactly the ids of the records that match, in their
  order: for equality those with the key, for a substring those with the key as prefix and for
  greater-or-equal those from the key on.
\<close>

theorem index_scan_exact:
  assumes "readable env a cfg" and "iMaxScanForSizeLimit ctx = 0" and "iMaxIndexScan fs = 0" and "\<not> is_le ch"
  shows "\<exists>err c. MdbScanIndex env a k ch fs start ctx = Some (err, fs\<lparr>candidates := Some c\<rparr>, ctx) \<and>
    err \<in> {None, Some MDB_NOTFOUND} \<and> positive c \<and>
    cl_ids c = map snd (filter (\<lambda>r. wanted ch k r \<and> start \<le> snd r) (se_index env a))"
proof -
  from MdbScanIndex_scans [OF assms(1,2), of ch k fs start] assms(4) obtain err c' where
    s: "MdbScanIndex env a k ch fs start ctx = Some (err, fs\<lparr>candidates := c'\<rparr>, ctx)" "err \<in> {None, Some MDB_NOTFOUND}"
    "scanned (iMaxIndexScan fs) start \<lparr>eIds = Some [], cl_max = 10, positive = True, eIdsSorted = False\<rparr>
      (filter (wanted ch k) (se_index env a)) (if err = None then None else Some MDB_NOTFOUND) c'" by auto
  with assms(3) obtain c where "c' = Some c" by (auto simp: scanned_def split: option.splits)
  with s show ?thesis by (auto simp: scanned_def cl_ids_def conj_commute)
qed


text \<open>A small index: the value \<open>ab\<close> in entries 3 and 5 and the value \<open>b\<close> in entry 4.\<close>

definition name_scan :: scan_env where
  "name_scan = \<lparr>se_mem = (\<lambda>n. True), se_cfg = (\<lambda>a. Inr (Some text_index)), se_dbi = (\<lambda>a. None), se_begin = None, se_hasTxn = False,
     se_commit = None, se_get = (\<lambda>n. None),
     se_index = (\<lambda>a. [([48, 97, 98], 3), ([48, 97, 98], 5), ([48, 98], 4), ([49, 98], 4), ([49, 98, 97], 3), ([49, 98, 97], 5)]),
     se_dn = (\<lambda>dn. Inl VMDIR_ERROR_BACKEND_ENTRY_NOTFOUND)\<rparr>"

definition open_state :: filter_state where
  "open_state = \<lparr>computeResult = FILTER_RES_NORMAL, iMaxIndexScan = 0, bAncestorGotPositiveCandidateSet = False, candidates = None\<rparr>"

definition open_ctx :: scan_ctx where
  "open_ctx = \<lparr>iMaxScanForSizeLimit = 0, iPartialCandidates = False\<rparr>"

definition cn_ava :: "bytes \<Rightarrow> ava" where
  "cn_ava b = \<lparr>ava_pATDesc = byte_desc, ava_type = ''cn'', ava_value = plain b\<rparr>"

lemma name_scan_readable: "readable name_scan ''cn'' text_index"
  by (simp add: readable_def name_scan_def index_ok_def text_index_def)

theorem index_scan_exact_witness:
  "\<exists>err c. MdbScanIndex name_scan ''cn'' [48, 97, 98] (LDAP_FILTER_EQUALITY (cn_ava [97, 98])) open_state 4 open_ctx =
       Some (err, open_state\<lparr>candidates := Some c\<rparr>, open_ctx) \<and> err \<in> {None, Some MDB_NOTFOUND} \<and> positive c \<and> cl_ids c = [5]"
  using index_scan_exact [OF name_scan_readable, of open_ctx open_state "LDAP_FILTER_EQUALITY (cn_ava [97, 98])" "[48, 97, 98]" 4]
  by (simp add: open_ctx_def open_state_def is_le_def wanted_def exact_match_def partial_match_def name_scan_def)

text \<open>
  For less-or-equal the scan starts at the first record of the smallest key that is large enough and
  goes back, so it misses the other entries with that key: here entry 5.
\<close>

lemma le_scan_misses:
  "\<exists>c. MdbScanIndex name_scan ''cn'' [48, 97, 98] (LDAP_FILTER_LE (cn_ava [97, 98])) open_state 0 open_ctx =
       Some (None, open_state\<lparr>candidates := Some c\<rparr>, open_ctx) \<and> cl_ids c = [3]"
  by (simp add: MdbScanIndex_def name_scan_def open_state_def open_ctx_def text_index_def NewCandidates_def VmDirAllocateMemory_def
      exact_match_def partial_match_def is_le_def scan_cursor_def cursor_get_def mdb_cursor_get_def Let_def scan_loop.simps next_op_def
      VmDirAddToCandidates_def cl_size_def cl_ids_def scan_end_def)

end
