(* ===== verification/Search.thy ===== *)
theory Search
  imports Mdb_Index
begin

text \<open>
  A search in the directory: the scope as a filter (\<open>AppendDNFilter\<close> of
  \<open>lwraft/server/ldap-head/filter.c\<close>), the candidate list of the filter from the indices of its
  attributes and the entries sent (\<open>BuildCandidateList\<close> and \<open>ProcessCandidateList\<close> of
  \<open>lwraft/server/middle-layer/search.c\<close>). The fields of the nodes of a filter that change are in a
  store, a map from the path of a node to its state. The backend is a parameter: the function that
  gives the candidates of an item, which the model of the indices provides, and the one that reads
  an entry. So are the configuration of the indices, the computed attributes, the connection to
  which entries are sent, the allocator and the time at which the server is shut down.
\<close>

type_synonym store = "path \<Rightarrow> filter_state"

section \<open>The scope as a filter\<close>

datatype scope = LDAP_SCOPE_BASE | LDAP_SCOPE_ONELEVEL | LDAP_SCOPE_SUBTREE | LDAP_SCOPE_OTHER

text \<open>A filter whose memory is zero.\<close>

definition new_filter :: filter_state where
  "new_filter = \<lparr>computeResult = FILTER_RES_NORMAL, iMaxIndexScan = 0, bAncestorGotPositiveCandidateSet = False, candidates = None\<rparr>"

text \<open>The filter of the scope and its state.\<close>

definition dn_filter :: "at_desc option \<Rightarrow> scope \<Rightarrow> berval \<Rightarrow> vmdir_error + filter_choice \<times> filter_state" where
  "dn_filter desc scope normDn =
     (case scope of
        LDAP_SCOPE_BASE \<Rightarrow>
          (case desc of
             None \<Rightarrow> Inl LDAP_OPERATIONS_ERROR
           | Some d \<Rightarrow>
               Inr (LDAP_FILTER_EQUALITY \<lparr>ava_pATDesc = d, ava_type = ATTR_DN, ava_value = normDn\<rparr>, new_filter))
      | LDAP_SCOPE_ONELEVEL \<Rightarrow> Inr (FILTER_ONE_LEVEL_SEARCH normDn, new_filter)
      | LDAP_SCOPE_SUBTREE \<Rightarrow>
          (if desc = None then Inl LDAP_OPERATIONS_ERROR
           else
             Inr (LDAP_FILTER_SUBSTRINGS \<lparr>ss_type = ATTR_DN, ss_initial = absent, ss_any = [], ss_final = normDn\<rparr>,
                  if bvnorm_val normDn \<in> {None, Some []} then new_filter\<lparr>computeResult := FILTER_RES_TRUE\<rparr> else new_filter))
      | LDAP_SCOPE_OTHER \<Rightarrow> Inl LDAP_UNWILLING_TO_PERFORM)"

text \<open>
  The filter of the request becomes a component of a conjunction, with the path \<open>q @ [i]\<close> for its
  node at \<open>q\<close>; \<open>ok\<close> tells which of the two allocations succeed.
\<close>

definition AppendDNFilter ::
  "(nat \<Rightarrow> bool) \<Rightarrow> schema \<Rightarrow> at_desc option \<Rightarrow> scope \<Rightarrow> berval \<Rightarrow> ldap_filter \<times> store \<Rightarrow> rc \<times> ldap_filter \<times> store" where
  "AppendDNFilter ok sch desc scope reqDn req =
     (if \<not> ok 0 \<or> \<not> ok 1 then (Some LDAP_OPERATIONS_ERROR, req)
      else case sch_dn sch reqDn of
             None \<Rightarrow> (Some LDAP_OPERATIONS_ERROR, req)
           | Some normDn \<Rightarrow>
               (case dn_filter desc scope normDn of
                  Inl e \<Rightarrow> (Some e, req)
                | Inr (c, st) \<Rightarrow>
                    (let (f, S) = req;
                         (i, j) = (if scope = LDAP_SCOPE_BASE then (1, 0) else (0, 1 :: nat));
                         S' = (\<lambda>p. if p \<noteq> [] \<and> last p = i then S (butlast p) else if p = [j] then st else new_filter)
                     in (None, Filter LDAP_FILTER_AND (if scope = LDAP_SCOPE_BASE then [Filter c [], f] else [f, Filter c []]), S'))))"

section \<open>Candidate lists\<close>

type_synonym get_candidates = "filter_choice \<Rightarrow> filter_state \<Rightarrow> entry_id \<Rightarrow> scan_ctx \<Rightarrow> (rc \<times> filter_state \<times> scan_ctx) option"

record search_env =
  sv_mem :: "nat \<Rightarrow> bool"
  sv_cfg :: "string \<Rightarrow> vmdir_error + index_cfg option"
  sv_get :: get_candidates
  sv_label :: "filter_choice \<Rightarrow> nat \<Rightarrow> rc"
  dwMaxIndexScan :: nat
  dwSmallCandidateSet :: nat
  dwMaxSizelimitScan :: nat
  sv_sizeLimit :: int
  sv_paged :: bool

type_synonym build_state = "store \<times> scan_ctx"
type_synonym builder = "path \<Rightarrow> build_state \<Rightarrow> (rc \<times> build_state) option"

text \<open>A component: its position, its choice and the function that builds its list.\<close>

type_synonym component_of = "nat \<times> filter_choice \<times> builder"

definition ATTR_USN_CHANGED :: string where
  "ATTR_USN_CHANGED = ''uSNChanged''"

fun find_special ::
  "(string \<Rightarrow> vmdir_error + index_cfg option) \<Rightarrow> component_of list \<Rightarrow> component_of option \<Rightarrow> vmdir_error + component_of option" where
  "find_special cfg [] special = Inr special"
| "find_special cfg ((i, c, b) # ks) special =
     (case c of
        LDAP_FILTER_GE a \<Rightarrow>
          find_special cfg ks (if VmDirStringCompareA (ava_type a) ATTR_USN_CHANGED False then Some (i, c, b) else special)
      | LDAP_FILTER_EQUALITY a \<Rightarrow>
          (case cfg (ava_type a) of
             Inl e \<Rightarrow> Inl e
           | Inr ic \<Rightarrow>
               (if (case ic of None \<Rightarrow> False | Some x \<Rightarrow> bGlobalUniq x) then Inr (Some (i, c, b))
                else find_special cfg ks special))
      | _ \<Rightarrow> find_special cfg ks special)"

text \<open>
  A pass of a conjunction ends with an error, with a small list (the second component) or with
  whether a positive list is there.
\<close>

type_synonym pass_result = "(rc \<times> bool \<times> bool \<times> build_state) option"

definition and_special :: "search_env \<Rightarrow> path \<Rightarrow> component_of option \<Rightarrow> bool \<Rightarrow> build_state \<Rightarrow> pass_result" where
  "and_special env p special got st =
     (case special of
        None \<Rightarrow> Some (None, False, got, st)
      | Some (i, c, b) \<Rightarrow>
          do {
            (err, st1) \<leftarrow> b (i # p) ((fst st)(i # p := (fst st (i # p))\<lparr>iMaxIndexScan := 0\<rparr>), snd st);
            if err \<noteq> None \<and> err \<noteq> Some VMDIR_ERROR_BACKEND_ENTRY_NOTFOUND then Some (err, False, got, st1)
            else case candidates (fst st1 (i # p)) of
                   None \<Rightarrow> Some (None, False, got, st1)
                 | Some cl \<Rightarrow>
                     (if cl_size cl \<le> dwSmallCandidateSet env then Some (None, True, got, st1)
                      else Some (None, False, True, st1))
          })"

text \<open>A first pass over the components that \<open>use\<close> selects, each prepared by \<open>prep\<close>.\<close>

fun and_pass ::
  "search_env \<Rightarrow> (nat \<Rightarrow> filter_choice \<Rightarrow> bool) \<Rightarrow> (bool \<Rightarrow> filter_state \<Rightarrow> filter_state) \<Rightarrow> path \<Rightarrow> component_of list \<Rightarrow>
     bool \<Rightarrow> build_state \<Rightarrow> pass_result" where
  "and_pass env use prep p [] got st = Some (None, False, got, st)"
| "and_pass env use prep p ((i, c, b) # ks) got st =
     (if \<not> use i c then and_pass env use prep p ks got st
      else do {
        (err, st1) \<leftarrow> b (i # p) ((fst st)(i # p := prep got (fst st (i # p))), snd st);
        if err \<noteq> None then Some (err, False, got, st1)
        else case candidates (fst st1 (i # p)) of
               None \<Rightarrow> and_pass env use prep p ks got st1
             | Some cl \<Rightarrow>
                 (if \<not> positive cl then and_pass env use prep p ks got st1
                  else if cl_size cl \<le> dwSmallCandidateSet env then Some (None, True, got, st1)
                  else and_pass env use prep p ks True st1)
      })"

text \<open>The lists of all components, each prepared by \<open>prep\<close>.\<close>

fun build_all :: "(filter_state \<Rightarrow> filter_state) \<Rightarrow> path \<Rightarrow> component_of list \<Rightarrow> build_state \<Rightarrow> (rc \<times> build_state) option" where
  "build_all prep p [] st = Some (None, st)"
| "build_all prep p ((i, c, b) # ks) st =
     do {
       (err, st1) \<leftarrow> b (i # p) ((fst st)(i # p := prep (fst st (i # p))), snd st);
       if err \<noteq> None then Some (err, st1) else build_all prep p ks st1
     }"

text \<open>The results of the components that \<open>sel\<close> selects are combined with that of the filter.\<close>

type_synonym combine_op = "filter_state \<Rightarrow> filter_state \<Rightarrow> (filter_state \<times> filter_state) option"

fun combine :: "combine_op \<Rightarrow> (filter_state \<Rightarrow> bool) \<Rightarrow> path \<Rightarrow> nat list \<Rightarrow> store \<Rightarrow> store option" where
  "combine oper sel p [] S = Some S"
| "combine oper sel p (i # is) S =
     (if sel (S (i # p)) then
        do { (s, d) \<leftarrow> oper (S (i # p)) (S p); combine oper sel p is (S(i # p := s, p := d)) }
      else combine oper sel p is S)"

definition negative :: "filter_state \<Rightarrow> bool" where
  "negative st = (case candidates st of None \<Rightarrow> False | Some c \<Rightarrow> \<not> positive c)"

definition combine_all :: "combine_op \<Rightarrow> path \<Rightarrow> nat list \<Rightarrow> build_state \<Rightarrow> (rc \<times> build_state) option" where
  "combine_all oper p is st =
     do {
       S1 \<leftarrow> combine oper (\<lambda>s. \<not> negative s) p is (fst st);
       S2 \<leftarrow> combine oper negative p is S1;
       Some (None, S2, snd st)
     }"

definition and_composite :: "filter_choice \<Rightarrow> bool" where
  "and_composite c \<longleftrightarrow> c = LDAP_FILTER_AND \<or> c = LDAP_FILTER_OR"

text \<open>The passes of a conjunction, one after the other until one ends it.\<close>

definition next_pass :: "pass_result \<Rightarrow> (bool \<Rightarrow> build_state \<Rightarrow> pass_result) \<Rightarrow> pass_result" where
  "next_pass r k = do { (err, small, got, st) \<leftarrow> r; if err \<noteq> None \<or> small then Some (err, small, got, st) else k got st }"

definition build_and :: "search_env \<Rightarrow> component_of list \<Rightarrow> path \<Rightarrow> build_state \<Rightarrow> (rc \<times> build_state) option" where
  "build_and env ks p st0 =
     (let st = (fst st0, (snd st0)\<lparr>iMaxScanForSizeLimit := if \<not> sv_paged env \<and> sv_sizeLimit env > 0 then dwMaxSizelimitScan env else 0\<rparr>) in
      case find_special (sv_cfg env) ks None of
        Inl e \<Rightarrow> Some (Some e, st)
      | Inr special \<Rightarrow>
          (let not_special = (\<lambda>i. case special of None \<Rightarrow> True | Some (j, _) \<Rightarrow> i \<noteq> j) in
           do {
             (err, small, got, st1) \<leftarrow>
               next_pass (next_pass (and_special env p special (bAncestorGotPositiveCandidateSet (fst st p)) st)
                 (and_pass env (\<lambda>i c. not_special i \<and> \<not> and_composite c) (\<lambda>got s. s\<lparr>iMaxIndexScan := dwMaxIndexScan env\<rparr>) p ks))
                 (and_pass env (\<lambda>i c. and_composite c) (\<lambda>got s. s\<lparr>bAncestorGotPositiveCandidateSet := got\<rparr>) p ks);
             if err \<noteq> None then Some (err, st1)
             else if small \<or> got then combine_all (AndFilterResults (sv_mem env)) p (map fst ks) st1
             else do {
               (err, st2) \<leftarrow> build_all (\<lambda>s. s\<lparr>iMaxIndexScan := 0\<rparr>) p ks st1;
               if err \<noteq> None then Some (err, st2) else combine_all (AndFilterResults (sv_mem env)) p (map fst ks) st2
             }
           }))"

definition build_or :: "search_env \<Rightarrow> component_of list \<Rightarrow> path \<Rightarrow> build_state \<Rightarrow> (rc \<times> build_state) option" where
  "build_or env ks p st =
     do {
       (err, st1) \<leftarrow> build_all (\<lambda>s. s\<lparr>bAncestorGotPositiveCandidateSet := bAncestorGotPositiveCandidateSet (fst st p)\<rparr>) p ks st;
       if err \<noteq> None then Some (err, st1) else combine_all (OrFilterResults (sv_mem env)) p (map fst ks) st1
     }"

text \<open>\<open>sv_label\<close> is the result of adding the list to the operation's text for the log.\<close>

definition build_leaf :: "search_env \<Rightarrow> entry_id \<Rightarrow> filter_choice \<Rightarrow> path \<Rightarrow> build_state \<Rightarrow> (rc \<times> build_state) option" where
  "build_leaf env start c p st =
     do {
       (err, fs, ctx) \<leftarrow> sv_get env c (fst st p) start (snd st);
       Some (case err of
               Some e \<Rightarrow> (if e = VMDIR_ERROR_BACKEND_ENTRY_NOTFOUND then None else Some e)
             | None \<Rightarrow> (case candidates fs of None \<Rightarrow> None | Some cl \<Rightarrow> sv_label env c (cl_size cl)),
             (fst st)(p := fs), ctx)
     }"

definition build_choice ::
  "search_env \<Rightarrow> entry_id \<Rightarrow> filter_choice \<Rightarrow> component_of list \<Rightarrow> path \<Rightarrow> build_state \<Rightarrow> (rc \<times> build_state) option" where
  "build_choice env start c ks p st =
     (case c of
        LDAP_FILTER_AND \<Rightarrow> build_and env ks p st
      | LDAP_FILTER_OR \<Rightarrow> build_or env ks p st
      | LDAP_FILTER_NOT \<Rightarrow> Some (None, (fst st)(p := (fst st p)\<lparr>computeResult := FILTER_RES_TRUE\<rparr>), snd st)
      | LDAP_FILTER_PRESENT a \<Rightarrow>
          Some (None, (fst st)(p := (fst st p)\<lparr>computeResult := FILTER_RES_TRUE, candidates := None\<rparr>), snd st)
      | LDAP_FILTER_OTHER \<Rightarrow> Some (None, st)
      | _ \<Rightarrow> build_leaf env start c p st)"

primrec BuildCandidateList :: "search_env \<Rightarrow> entry_id \<Rightarrow> ldap_filter \<Rightarrow> builder" where
  "BuildCandidateList env start (Filter c fs) =
     (\<lambda>p st. if computeResult (fst st p) \<noteq> FILTER_RES_NORMAL then Some (None, st)
             else build_choice env start c (enumerate 0 (zip (map f_choice fs) (map (BuildCandidateList env start) fs))) p st)"

section \<open>Sending the entries\<close>

record send_env =
  sn_entry :: "entry_id \<Rightarrow> vmdir_error + dir_entry"
  sn_computed :: "entry_id \<Rightarrow> rc"
  sn_send :: "entry_id \<Rightarrow> rc \<times> bool"
  sn_shutdown :: "nat \<Rightarrow> bool"
  sn_alloc :: "nat \<Rightarrow> rc"
  sn_internal :: bool
  sn_inMem :: bool
  bPagedSearchReadAhead :: bool

text \<open>
  One entry that passes the filter is sent: the error, and whether it was sent. A denied access is
  not an error.
\<close>

definition send_entry :: "send_env \<Rightarrow> entry_id \<Rightarrow> rc \<times> bool" where
  "send_entry env x =
     (case sn_computed env x of
        Some e \<Rightarrow> (Some e, False)
      | None \<Rightarrow>
          (let (err, sent) = sn_send env x in
           if err \<noteq> None \<and> err \<noteq> Some VMDIR_ERROR_INSUFFICIENT_ACCESS then (err, False) else (None, sent)))"

text \<open>How the loop over the candidates ends: at its end, with an error, or with a full page at a candidate.\<close>

datatype loop_end = Loop_Done | Loop_Failed | Page_Full entry_id nat

text \<open>\<open>page\<close> is the size of the pages and the id of the last page, and \<open>ret\<close> is \<open>retVal\<close>.\<close>

fun process_loop ::
  "send_env \<Rightarrow> (dir_entry \<Rightarrow> filter_res option) \<Rightarrow> int \<Rightarrow> (nat \<times> entry_id) option \<Rightarrow> nat \<Rightarrow> entry_id list \<Rightarrow> rc \<Rightarrow> entry_id list \<Rightarrow>
     (rc \<times> entry_id list \<times> loop_end) option" where
  "process_loop env check limit page i [] ret sent = Some (ret, sent, Loop_Done)"
| "process_loop env check limit page i (x # xs) ret sent =
     (if sn_shutdown env i \<or> limit \<noteq> 0 \<and> limit \<le> int (length sent) then Some (ret, sent, Loop_Done)
      else if \<not> bPagedSearchReadAhead env \<and> (case page of None \<Rightarrow> False | Some (_, lastEID) \<Rightarrow> x \<le> lastEID)
      then process_loop env check limit page (i + 1) xs ret sent
      else case sn_entry env x of
             Inl e \<Rightarrow> process_loop env check limit page (i + 1) xs (Some e) sent
           | Inr e \<Rightarrow>
               do {
                 r \<leftarrow> check e;
                 let (err, now) = (if r = FILTER_RES_TRUE then send_entry env x else (None, False));
                     sent1 = (if now then sent @ [x] else sent)
                 in if err \<noteq> None then Some (err, sent, Loop_Failed)
                    else if (case page of None \<Rightarrow> False | Some (n, _) \<Rightarrow> length sent1 = n) then Some (None, sent1, Page_Full x i)
                    else process_loop env check limit page (i + 1) xs None sent1
               })"

text \<open>Cookies: \<open>atoll\<close>, and the decimal form of \<open>%llu\<close>.\<close>

definition is_digit :: "char \<Rightarrow> bool" where
  "is_digit c \<longleftrightarrow> 48 \<le> (of_char c :: nat) \<and> (of_char c :: nat) \<le> 57"

definition is_space :: "char \<Rightarrow> bool" where
  "is_space c \<longleftrightarrow> (of_char c :: nat) = 32 \<or> 9 \<le> (of_char c :: nat) \<and> (of_char c :: nat) \<le> 13"

definition digits_value :: "string \<Rightarrow> nat" where
  "digits_value s = foldl (\<lambda>n c. 10 * n + (of_char c - 48)) 0 (takeWhile is_digit s)"

definition atoll :: "string \<Rightarrow> entry_id" where
  "atoll s =
     (let t = dropWhile is_space s in
      case t of
        [] \<Rightarrow> 0
      | c # cs \<Rightarrow>
          (if c = CHR ''-'' then - of_nat (min (digits_value cs) (2 ^ 63))
           else of_nat (min (digits_value (if c = CHR ''+'' then cs else t)) (2 ^ 63 - 1))))"

fun decimal :: "nat \<Rightarrow> string" where
  "decimal n = (if n < 10 then [char_of (48 + n)] else decimal (n div 10) @ [char_of (48 + n mod 10)])"

declare decimal.simps [simp del]

text \<open>
  The entries sent for a candidate list. The control of a paged search is the size of its pages and
  its cookie; \<open>set_cookie\<close> is \<open>SetPagedSearchCookie\<close>, which may keep the rest of the list in a
  state of its own. The result is the error, the ids sent, the cookie and this state.
\<close>

definition page_of :: "int \<Rightarrow> (nat \<times> string) option \<Rightarrow> (nat \<times> entry_id) option" where
  "page_of limit ctrl =
     (case ctrl of
        None \<Rightarrow> None
      | Some (n, cookie) \<Rightarrow>
          (if limit = 0 \<or> n < nat (limit mod 2 ^ 32) then Some (n, atoll cookie) else None))"

definition ProcessCandidateList ::
  "send_env \<Rightarrow> (dir_entry \<Rightarrow> filter_res option) \<Rightarrow> int \<Rightarrow> (nat \<times> string) option \<Rightarrow>
     (candidates \<Rightarrow> string \<Rightarrow> entry_id \<Rightarrow> nat \<Rightarrow> 's \<Rightarrow> (rc \<times> string \<times> 's) option) \<Rightarrow> candidates option \<Rightarrow> bool \<Rightarrow> 's \<Rightarrow>
     (rc \<times> entry_id list \<times> string \<times> 's) option" where
  "ProcessCandidateList env check limit ctrl set_cookie cl partial s =
     (let page = page_of limit ctrl;
          cookie = (if page \<noteq> None then '''' else case ctrl of None \<Rightarrow> '''' | Some (_, c) \<Rightarrow> c);
          cl1 = (if page \<noteq> None then map_option VmDirSortCandidateList cl else cl);
          finish = (\<lambda>(ret, sent, cookie, s).
            (if limit \<noteq> 0 \<and> int (length sent) < limit \<and> partial then Some LDAP_UNWILLING_TO_PERFORM else ret, sent, cookie, s))
      in case cl1 of
           None \<Rightarrow> Some (finish (None, [], cookie, s))
         | Some c \<Rightarrow>
             (if cl_size c = 0 then Some (finish (None, [], cookie, s))
              else case (if sn_internal env \<or> sn_inMem env then sn_alloc env (cl_size c) else None) of
                     Some e \<Rightarrow> Some (Some e, [], cookie, s)
                   | None \<Rightarrow>
                       do {
                         (ret, sent, fin) \<leftarrow> process_loop env check limit page 0 (cl_ids c) None [];
                         case fin of
                           Loop_Done \<Rightarrow> Some (finish (ret, sent, cookie, s))
                         | Loop_Failed \<Rightarrow> Some (ret, sent, cookie, s)
                         | Page_Full x i \<Rightarrow>
                             do {
                               (err, cookie1, s1) \<leftarrow> set_cookie c cookie x i s;
                               Some (if err \<noteq> None then (err, sent, cookie1, s1) else finish (None, sent, cookie1, s1))
                             }
                       }))"

text \<open>
  The search from the indices, without the cache of paged searches: the result, the ids sent, the
  cookie and the state behind it. A filter that excludes nothing is refused.
\<close>

definition index_search ::
  "search_env \<Rightarrow> send_env \<Rightarrow> schema \<Rightarrow> ldap_filter \<Rightarrow> (nat \<times> string) option \<Rightarrow>
     (store \<Rightarrow> candidates \<Rightarrow> string \<Rightarrow> entry_id \<Rightarrow> nat \<Rightarrow> 's \<Rightarrow> (rc \<times> string \<times> 's) option) \<Rightarrow> entry_id \<Rightarrow> store \<Rightarrow> scan_ctx \<Rightarrow> 's \<Rightarrow>
     (rc \<times> entry_id list \<times> string \<times> 's) option" where
  "index_search env senv sch f ctrl set_cookie start S ctx s =
     (let cookie = (case ctrl of None \<Rightarrow> '''' | Some (_, c) \<Rightarrow> c) in
      do {
        (err, S1, ctx1) \<leftarrow> BuildCandidateList env start f [] (S, ctx);
        if err \<noteq> None then Some (err, [], cookie, s)
        else if computeResult (S1 []) = FILTER_RES_TRUE then Some (Some VMDIR_ERROR_UNWILLING_TO_PERFORM, [], cookie, s)
        else ProcessCandidateList senv (\<lambda>e. CheckIfEntryPassesFilter sch e (\<lambda>p. computeResult (S1 p)) f []) (sv_sizeLimit env) ctrl
               (set_cookie S1) (candidates (S1 [])) (iPartialCandidates ctx1) s
      })"

end
