(* ===== verification/Search_Build.thy ===== *)
theory Search_Build
  imports Search
begin

text \<open>
  The candidate list of a filter contains every entry that passes the filter: what a list has to
  contain, the loops of \<open>BuildCandidateList\<close> that combine and build the lists of components, and the
  contract of the backend on which the items rely, which the indices satisfy.
\<close>

section \<open>What a candidate list has to contain\<close>

text \<open>The number of items of a filter for which a list may be built.\<close>

primrec items :: "ldap_filter \<Rightarrow> nat" where
  "items (Filter c fs) = (if and_composite c then sum_list (map items fs) else 1)"

text \<open>
  \<open>P p x\<close> says that entry \<open>x\<close> passes the filter at \<open>p\<close>. The result of a filter is good if it
  allows these entries, up to those below the starting id; a filter without a list can be built again.
\<close>

definition node_good :: "nat \<Rightarrow> entry_id \<Rightarrow> (path \<Rightarrow> entry_id \<Rightarrow> bool) \<Rightarrow> store \<Rightarrow> nat \<Rightarrow> path \<Rightarrow> bool" where
  "node_good cap start P S n p \<longleftrightarrow>
     st_ok (S p) \<and> st_pos (S p) \<and> st_size (S p) \<le> n * cap \<and> (\<forall>x. start \<le> x \<and> P p x \<longrightarrow> allows (S p) x)"

primrec good :: "nat \<Rightarrow> entry_id \<Rightarrow> (path \<Rightarrow> entry_id \<Rightarrow> bool) \<Rightarrow> store \<Rightarrow> ldap_filter \<Rightarrow> path \<Rightarrow> bool" where
  "good cap start P S (Filter c fs) =
     (\<lambda>p. node_good cap start P S (items (Filter c fs)) p \<and>
        (and_composite c \<and> candidates (S p) = None \<and> computeResult (S p) = FILTER_RES_NORMAL \<longrightarrow>
         list_all (\<lambda>(i, g). g (i # p) \<and> candidates (S (i # p)) = None) (enumerate 0 (map (good cap start P S) fs))))"

lemma good_node: "good cap start P S f p \<Longrightarrow> node_good cap start P S (items f) p"
  by (cases f) simp

lemma good_iff:
  "good cap start P S (Filter c fs) p \<longleftrightarrow> node_good cap start P S (items (Filter c fs)) p \<and>
     (and_composite c \<and> candidates (S p) = None \<and> computeResult (S p) = FILTER_RES_NORMAL \<longrightarrow>
      (\<forall>i < length fs. good cap start P S (fs ! i) (i # p) \<and> candidates (S (i # p)) = None))"
  by (auto simp: list_all_length nth_enumerate_eq)

declare good.simps [simp del]

text \<open>A result depends on the store at its path and below.\<close>

lemma suffix_Cons_cases: "suffix (i # p) q \<Longrightarrow> suffix (j # p) q \<Longrightarrow> i = j"
  by (auto simp: suffix_def)

lemma good_cong: "\<forall>q. suffix p q \<longrightarrow> S' q = S q \<Longrightarrow> good cap start P S' f p = good cap start P S f p"
proof (induction f arbitrary: p)
  case (Filter c fs)
  have "S' p = S p" using Filter.prems by simp
  moreover have "S' (i # p) = S (i # p)" for i using Filter.prems by (simp add: suffix_def)
  moreover have "good cap start P S' (fs ! i) (i # p) = good cap start P S (fs ! i) (i # p)" if "i < length fs" for i
    using Filter.IH [of "fs ! i" "i # p"] Filter.prems that by (metis nth_mem suffix_ConsI suffix_order.trans suffix_order.refl)
  ultimately show ?case by (simp add: good_iff node_good_def)
qed

definition fresh :: "nat \<Rightarrow> entry_id \<Rightarrow> (path \<Rightarrow> entry_id \<Rightarrow> bool) \<Rightarrow> store \<Rightarrow> ldap_filter \<Rightarrow> path \<Rightarrow> bool" where
  "fresh cap start P S f p \<longleftrightarrow> good cap start P S f p \<and> candidates (S p) = None"

lemma fresh_cong: "\<forall>q. suffix p q \<longrightarrow> S' q = S q \<Longrightarrow> fresh cap start P S' f p = fresh cap start P S f p"
  using good_cong [of p S' S cap start P f] by (simp add: fresh_def)

text \<open>The two fields that limit the work do not matter.\<close>

definition same_result :: "filter_state \<Rightarrow> filter_state \<Rightarrow> bool" where
  "same_result s s' \<longleftrightarrow> computeResult s' = computeResult s \<and> candidates s' = candidates s"

lemma same_result_upd:
  "same_result s (s\<lparr>iMaxIndexScan := n\<rparr>)" "same_result s (s\<lparr>bAncestorGotPositiveCandidateSet := b\<rparr>)"
  by (simp_all add: same_result_def)

lemma good_same_result:
  assumes "same_result (S p) s"
  shows "good cap start P (S(p := s)) f p = good cap start P S f p" "fresh cap start P (S(p := s)) f p = fresh cap start P S f p"
proof -
  obtain c fs where f: "f = Filter c fs" by (cases f)
  have "good cap start P (S(p := s)) g (i # p) = good cap start P S g (i # p)" for g i
    by (rule good_cong) (auto simp: suffix_def)
  moreover have "node_good cap start P (S(p := s)) n p = node_good cap start P S n p" for n
  proof -
    have "allows s = allows (S p)" using assms by (auto simp: allows_def same_result_def split: filter_res.splits)
    then show ?thesis using assms by (simp add: node_good_def same_result_def st_ok_def st_pos_def st_size_def)
  qed
  ultimately show "good cap start P (S(p := s)) f p = good cap start P S f p"
    using assms by (simp add: f good_iff same_result_def)
  then show "fresh cap start P (S(p := s)) f p = fresh cap start P S f p" using assms by (simp add: fresh_def same_result_def)
qed

section \<open>Combining the results of the components\<close>

text \<open>
  The contract of \<open>AndFilterResults\<close> and \<open>OrFilterResults\<close> on which the loops over the
  components rely: \<open>acc\<close> is what the filter allows so far and \<open>joined\<close> how a component changes it.
\<close>

locale combining =
  fixes oper :: "(nat \<Rightarrow> bool) \<Rightarrow> combine_op"
    and acc :: "filter_state \<Rightarrow> entry_id \<Rightarrow> bool"
    and joined :: "bool \<Rightarrow> bool \<Rightarrow> bool"
  assumes oper_law: "\<And>mem src dst. \<forall>n. mem n \<Longrightarrow> st_ok src \<Longrightarrow> st_ok dst \<Longrightarrow> st_pos src \<Longrightarrow> st_pos dst \<Longrightarrow>
      st_size src + st_size dst < 2 ^ 31 \<Longrightarrow>
      \<exists>src' dst'. oper mem src dst = Some (src', dst') \<and> combined src dst src' dst' \<and>
        (\<forall>e. joined (allows src e) (acc dst e) \<longrightarrow> acc dst' e)"
    and joined_mono: "\<And>a b b'. joined a b \<Longrightarrow> (b \<Longrightarrow> b') \<Longrightarrow> joined a b'"
    and acc_allows: "\<And>st e. acc st e \<Longrightarrow> allows st e"
begin

definition combined_list :: "path \<Rightarrow> nat list \<Rightarrow> store \<Rightarrow> store \<Rightarrow> bool" where
  "combined_list p is S S' \<longleftrightarrow>
     st_ok (S' p) \<and> st_pos (S' p) \<and> st_size (S' p) \<le> st_size (S p) + (\<Sum>i\<leftarrow>is. st_size (S (i # p))) \<and>
     (\<forall>e. fold (\<lambda>i. joined (allows (S (i # p)) e)) is (acc (S p) e) \<longrightarrow> acc (S' p) e) \<and>
     (\<forall>i \<in> set is. st_used (S (i # p)) (S' (i # p))) \<and> (\<forall>q. q \<noteq> p \<and> q \<notin> (\<lambda>i. i # p) ` set is \<longrightarrow> S' q = S q) \<and>
     (computeResult (S' p) = FILTER_RES_NORMAL \<and> candidates (S' p) = None \<longrightarrow>
        computeResult (S p) = FILTER_RES_NORMAL \<and> candidates (S p) = None \<and> (\<forall>i \<in> set is. candidates (S (i # p)) = None))"

lemma fold_joined_mono:
  "fold (\<lambda>i. joined (f i)) is b \<Longrightarrow> (b \<Longrightarrow> b') \<Longrightarrow> fold (\<lambda>i. joined (f i)) is b'"
proof (induction "is" arbitrary: b b')
  case (Cons i "is")
  then show ?case using joined_mono [of "f i" b b'] by simp
qed simp

lemma combine_list:
  assumes mem: "\<forall>n. mem n"
  shows "distinct is \<Longrightarrow> st_ok (S p) \<Longrightarrow> st_pos (S p) \<Longrightarrow> \<forall>i \<in> set is. st_ok (S (i # p)) \<and> st_pos (S (i # p)) \<Longrightarrow>
     st_size (S p) + (\<Sum>i\<leftarrow>is. st_size (S (i # p))) < 2 ^ 31 \<Longrightarrow>
     \<exists>S'. combine (oper mem) (\<lambda>s. \<not> negative s) p is S = Some S' \<and> combined_list p is S S'"
proof (induction "is" arbitrary: S)
  case Nil
  then show ?case by (simp add: combined_list_def)
next
  case (Cons i "is")
  let ?k = "i # p"
  have sz: "st_size (S ?k) + st_size (S p) < 2 ^ 31" using Cons.prems(5) by simp
  from Cons.prems have k: "st_ok (S ?k)" "st_pos (S ?k)" "i \<notin> set is" by simp_all
  from oper_law [OF mem k(1) Cons.prems(2) k(2) Cons.prems(3) sz] obtain s d where
    o: "oper mem (S ?k) (S p) = Some (s, d)" "combined (S ?k) (S p) s d" "\<forall>e. joined (allows (S ?k) e) (acc (S p) e) \<longrightarrow> acc d e" by blast
  let ?S = "S(?k := s, p := d)"
  have same: "?S (j # p) = S (j # p)" if "j \<in> set is" for j using that k(3) by auto
  have sums: "(\<Sum>j\<leftarrow>is. st_size (?S (j # p))) = (\<Sum>j\<leftarrow>is. st_size (S (j # p)))"
    by (rule arg_cong [where f = sum_list], rule map_cong [OF refl]) (use k(3) in auto)
  have d: "st_ok d" "st_pos d" "st_size d \<le> st_size (S ?k) + st_size (S p)" "st_used (S ?k) s"
    "computeResult d = FILTER_RES_NORMAL \<and> candidates d = None \<longrightarrow>
       candidates (S ?k) = None \<and> candidates (S p) = None \<and> computeResult (S p) = FILTER_RES_NORMAL"
    using o(2) k Cons.prems(3) by (simp_all add: combined_def)
  have "distinct is" "st_ok (?S p)" "st_pos (?S p)" "\<forall>j \<in> set is. st_ok (?S (j # p)) \<and> st_pos (?S (j # p))"
    using Cons.prems(1,4) d(1,2) same by simp_all
  moreover have "st_size (?S p) + (\<Sum>j\<leftarrow>is. st_size (?S (j # p))) < 2 ^ 31" using Cons.prems(5) d(3) unfolding sums by simp
  ultimately obtain S' where S': "combine (oper mem) (\<lambda>s. \<not> negative s) p is ?S = Some S'" "combined_list p is ?S S'"
    using Cons.IH [of ?S] by blast
  have "\<not> negative (S ?k)" using k(2) by (auto simp: negative_def st_pos_def split: option.splits)
  with o(1) S'(1) have res: "combine (oper mem) (\<lambda>s. \<not> negative s) p (i # is) S = Some S'" by simp
  have frame: "\<forall>q. q \<noteq> p \<and> q \<notin> (\<lambda>i. i # p) ` set is \<longrightarrow> S' q = ?S q"
    and used: "\<forall>j \<in> set is. st_used (?S (j # p)) (S' (j # p))"
    and none: "computeResult (S' p) = FILTER_RES_NORMAL \<and> candidates (S' p) = None \<longrightarrow>
      computeResult (?S p) = FILTER_RES_NORMAL \<and> candidates (?S p) = None \<and> (\<forall>j \<in> set is. candidates (?S (j # p)) = None)"
    and szS: "st_ok (S' p)" "st_pos (S' p)" "st_size (S' p) \<le> st_size (?S p) + (\<Sum>j\<leftarrow>is. st_size (?S (j # p)))"
    and acc: "\<And>e. fold (\<lambda>j. joined (allows (?S (j # p)) e)) is (acc (?S p) e) \<Longrightarrow> acc (S' p) e"
    using S'(2) unfolding combined_list_def by blast+
  have "S' ?k = ?S ?k" by (rule frame [rule_format]) (use k(3) in auto)
  then have Sk: "S' ?k = s" by simp
  have "\<forall>e. fold (\<lambda>j. joined (allows (S (j # p)) e)) (i # is) (acc (S p) e) \<longrightarrow> acc (S' p) e"
  proof (intro allI impI acc)
    fix e
    assume "fold (\<lambda>j. joined (allows (S (j # p)) e)) (i # is) (acc (S p) e)"
    then have "fold (\<lambda>j. joined (allows (S (j # p)) e)) is (joined (allows (S ?k) e) (acc (S p) e))" by simp
    from fold_joined_mono [OF this, of "acc d e"] o(3) have "fold (\<lambda>j. joined (allows (S (j # p)) e)) is (acc d e)" by blast
    also have "fold (\<lambda>j. joined (allows (S (j # p)) e)) is (acc d e) = fold (\<lambda>j. joined (allows (?S (j # p)) e)) is (acc d e)"
      by (rule fold_cong) (use k(3) in auto)
    finally show "fold (\<lambda>j. joined (allows (?S (j # p)) e)) is (acc (?S p) e)" by simp
  qed
  moreover have "\<forall>j \<in> set (i # is). st_used (S (j # p)) (S' (j # p))" using used same d(4) Sk by simp
  moreover have "st_size (S' p) \<le> st_size (S p) + (\<Sum>j\<leftarrow>i # is. st_size (S (j # p)))"
    using szS(3) d(3) unfolding sums by simp
  moreover have "\<forall>q. q \<noteq> p \<and> q \<notin> (\<lambda>i. i # p) ` set (i # is) \<longrightarrow> S' q = S q" using frame by simp
  moreover have "computeResult (S' p) = FILTER_RES_NORMAL \<and> candidates (S' p) = None \<longrightarrow>
    computeResult (S p) = FILTER_RES_NORMAL \<and> candidates (S p) = None \<and> (\<forall>j \<in> set (i # is). candidates (S (j # p)) = None)"
  proof
    assume "computeResult (S' p) = FILTER_RES_NORMAL \<and> candidates (S' p) = None"
    with none have "computeResult d = FILTER_RES_NORMAL" "candidates d = None" "\<forall>j \<in> set is. candidates (?S (j # p)) = None"
      by simp_all
    with d(5) same show "computeResult (S p) = FILTER_RES_NORMAL \<and> candidates (S p) = None \<and>
      (\<forall>j \<in> set (i # is). candidates (S (j # p)) = None)" by simp
  qed
  ultimately have "combined_list p (i # is) S S'" using szS(1,2) unfolding combined_list_def by (intro conjI)
  with res show ?case by (intro exI conjI)
qed

text \<open>After the positive lists there is no negative one.\<close>

lemma combine_all_list:
  assumes "\<forall>n. mem n" and "distinct is" and "st_ok (S p)" "st_pos (S p)" and "\<forall>i \<in> set is. st_ok (S (i # p)) \<and> st_pos (S (i # p))"
    and "st_size (S p) + (\<Sum>i\<leftarrow>is. st_size (S (i # p))) < 2 ^ 31"
  shows "\<exists>S'. combine_all (oper mem) p is (S, ctx) = Some (None, S', ctx) \<and> combined_list p is S S'"
proof -
  from combine_list [OF assms] obtain S' where
    S': "combine (oper mem) (\<lambda>s. \<not> negative s) p is S = Some S'" "combined_list p is S S'" by blast
  have "\<not> negative (S' (i # p))" if i: "i \<in> set is" for i
  proof -
    have "st_used (S (i # p)) (S' (i # p))" using S'(2) i by (simp add: combined_list_def)
    from st_usedD(5) [OF this] assms(5) i show ?thesis by (auto simp: negative_def st_pos_def split: option.splits)
  qed
  moreover have "\<forall>i \<in> set js. \<not> negative (S' (i # p)) \<Longrightarrow> combine (oper mem) negative p js S' = Some S'" for js
    by (induction js) auto
  ultimately show ?thesis using S' by (simp add: combine_all_def)
qed

end

interpretation and_results: combining AndFilterResults allows "(\<and>)"
proof
  fix mem :: "nat \<Rightarrow> bool" and src dst
  assume "\<forall>n. mem n" "st_ok src" "st_ok dst" "st_pos src" "st_pos dst" "st_size src + st_size dst < 2 ^ 31"
  moreover from this have "compatible src dst" by (auto simp: compatible_def st_pos_def split: option.splits)
  ultimately show "\<exists>src' dst'. AndFilterResults mem src dst = Some (src', dst') \<and> combined src dst src' dst' \<and>
      (\<forall>e. allows src e \<and> allows dst e \<longrightarrow> allows dst' e)"
    using AndFilterResults_allows [of mem src dst] by (simp add: and_allows_def) blast
qed blast

interpretation or_results: combining OrFilterResults allows_so_far "(\<or>)"
proof
  fix mem :: "nat \<Rightarrow> bool" and src dst
  assume "\<forall>n. mem n" "st_ok src" "st_ok dst" "st_pos src" "st_pos dst" "st_size src + st_size dst < 2 ^ 31"
  then show "\<exists>src' dst'. OrFilterResults mem src dst = Some (src', dst') \<and> combined src dst src' dst' \<and>
      (\<forall>e. allows src e \<or> allows_so_far dst e \<longrightarrow> allows_so_far dst' e)"
    using OrFilterResults_allows [of mem src dst] by (simp add: or_allows_def) blast
qed (auto simp: allows_so_far_def)

lemma fold_conj: "fold (\<lambda>i. (\<and>) (f i)) is b \<longleftrightarrow> b \<and> (\<forall>i \<in> set is. f i)"
  by (induction "is" arbitrary: b) auto

lemma fold_disj: "fold (\<lambda>i. (\<or>) (f i)) is b \<longleftrightarrow> b \<or> (\<exists>i \<in> set is. f i)"
  by (induction "is" arbitrary: b) auto


section \<open>The passes over the components\<close>

text \<open>\<open>K\<close> are the values that \<open>computeResult\<close> may take at a path, so that the tests of the entries stay the same.\<close>

definition kept :: "(path \<Rightarrow> filter_res \<Rightarrow> bool) \<Rightarrow> store \<Rightarrow> bool" where
  "kept K S \<longleftrightarrow> (\<forall>q. K q (computeResult (S q)))"

lemma kept_same_result: "kept K S \<Longrightarrow> same_result (S q) s \<Longrightarrow> kept K (S(q := s))"
  by (simp add: kept_def same_result_def)

lemma kept_upd: "kept K S \<Longrightarrow> K q (computeResult s) \<Longrightarrow> kept K (S(q := s))"
  by (simp add: kept_def)

text \<open>A function that builds the list of filter \<open>f\<close> at \<open>p\<close>.\<close>

definition builds :: "(path \<Rightarrow> filter_res \<Rightarrow> bool) \<Rightarrow> nat \<Rightarrow> entry_id \<Rightarrow> (path \<Rightarrow> entry_id \<Rightarrow> bool) \<Rightarrow> ldap_filter \<Rightarrow> path \<Rightarrow> builder \<Rightarrow> bool" where
  "builds K cap start P f p b \<longleftrightarrow>
     (\<forall>S ctx. fresh cap start P S f p \<and> kept K S \<and> iMaxScanForSizeLimit ctx = 0 \<longrightarrow>
        (\<exists>S'. b p (S, ctx) = Some (None, S', ctx) \<and> good cap start P S' f p \<and> kept K S' \<and> (\<forall>q. \<not> suffix p q \<longrightarrow> S' q = S q)))"

definition kids_good :: "(path \<Rightarrow> filter_res \<Rightarrow> bool) \<Rightarrow> nat \<Rightarrow> entry_id \<Rightarrow> (path \<Rightarrow> entry_id \<Rightarrow> bool) \<Rightarrow> ldap_filter list \<Rightarrow> path \<Rightarrow> store \<Rightarrow> bool" where
  "kids_good K cap start P fs p S \<longleftrightarrow> kept K S \<and> (\<forall>i < length fs. good cap start P S (fs ! i) (i # p))"

definition kids_fresh :: "nat \<Rightarrow> entry_id \<Rightarrow> (path \<Rightarrow> entry_id \<Rightarrow> bool) \<Rightarrow> ldap_filter list \<Rightarrow> path \<Rightarrow> store \<Rightarrow> bool" where
  "kids_fresh cap start P fs p S \<longleftrightarrow> (\<forall>i < length fs. fresh cap start P S (fs ! i) (i # p))"

definition kids_build :: "(path \<Rightarrow> filter_res \<Rightarrow> bool) \<Rightarrow> nat \<Rightarrow> entry_id \<Rightarrow> (path \<Rightarrow> entry_id \<Rightarrow> bool) \<Rightarrow> ldap_filter list \<Rightarrow> path \<Rightarrow> component_of list \<Rightarrow> bool" where
  "kids_build K cap start P fs p ks \<longleftrightarrow>
     distinct (map fst ks) \<and> (\<forall>(i, c, b) \<in> set ks. i < length fs \<and> builds K cap start P (fs ! i) (i # p) b)"


text \<open>Steps that leave the store as it is outside the components in \<open>T\<close>.\<close>

definition moves :: "nat set \<Rightarrow> path \<Rightarrow> store \<Rightarrow> store \<Rightarrow> bool" where
  "moves T p S S' \<longleftrightarrow> (\<forall>q. (\<forall>i \<in> T. \<not> suffix (i # p) q) \<longrightarrow> S' q = S q)"

lemma not_suffix_self: "\<not> suffix (i # p) p"
  by (auto simp: suffix_def)

lemma moves_refl: "moves T p S S"
  by (simp add: moves_def)

lemma moves_trans: "moves T p S S' \<Longrightarrow> moves U p S' S'' \<Longrightarrow> T \<union> U \<subseteq> V \<Longrightarrow> moves V p S S''"
  unfolding moves_def by (metis Un_iff subset_iff)

lemma moves_self: "moves T p S S' \<Longrightarrow> S' p = S p"
  by (simp add: moves_def not_suffix_self)

lemma moves_below: "moves T p S S' \<Longrightarrow> \<not> suffix p q \<Longrightarrow> S' q = S q"
  unfolding moves_def by (metis suffix_ConsD)

lemma moves_other: "moves T p S S' \<Longrightarrow> j \<notin> T \<Longrightarrow> suffix (j # p) q \<Longrightarrow> S' q = S q"
  unfolding moves_def by (metis suffix_Cons_cases)

lemma moves_good: "moves T p S S' \<Longrightarrow> j \<notin> T \<Longrightarrow> good cap start P S' f (j # p) = good cap start P S f (j # p)"
  by (rule good_cong) (blast intro: moves_other)

lemma moves_fresh: "moves T p S S' \<Longrightarrow> j \<notin> T \<Longrightarrow> fresh cap start P S' f (j # p) = fresh cap start P S f (j # p)"
  by (rule fresh_cong) (blast intro: moves_other)

text \<open>Neither a list nor a result.\<close>

definition open_result :: "filter_state \<Rightarrow> bool" where
  "open_result s \<longleftrightarrow> computeResult s = FILTER_RES_NORMAL \<and> candidates s = None"

definition has_list :: "ldap_filter list \<Rightarrow> path \<Rightarrow> store \<Rightarrow> bool" where
  "has_list fs p S \<longleftrightarrow> (\<exists>i < length fs. candidates (S (i # p)) \<noteq> None)"

text \<open>A filter that has a result once its list is built without a limit.\<close>

definition decides :: "(path \<Rightarrow> filter_res \<Rightarrow> bool) \<Rightarrow> nat \<Rightarrow> entry_id \<Rightarrow> (path \<Rightarrow> entry_id \<Rightarrow> bool) \<Rightarrow> ldap_filter \<Rightarrow> path \<Rightarrow> builder \<Rightarrow> bool" where
  "decides K cap start P f p b \<longleftrightarrow>
     (\<forall>S ctx err S' ctx'. fresh cap start P S f p \<and> kept K S \<and> iMaxScanForSizeLimit ctx = 0 \<and> iMaxIndexScan (S p) = 0 \<and>
        b p (S, ctx) = Some (err, S', ctx') \<longrightarrow> \<not> open_result (S' p))"

text \<open>One component, prepared and built, while the others stay as they are.\<close>

lemma build_kid:
  assumes b: "builds K cap start P (fs ! i) (i # p) b" and i: "i < length fs" and ctx: "iMaxScanForSizeLimit ctx = 0"
    and f: "fresh cap start P S (fs ! i) (i # p)" and k: "kids_good K cap start P fs p S" and s: "same_result (S (i # p)) s"
  shows "\<exists>S'. b (i # p) (S(i # p := s), ctx) = Some (None, S', ctx) \<and> kids_good K cap start P fs p S' \<and> moves {i} p S S' \<and>
    (has_list fs p S \<longrightarrow> has_list fs p S') \<and>
    (decides K cap start P (fs ! i) (i # p) b \<and> iMaxIndexScan s = 0 \<longrightarrow> \<not> open_result (S' (i # p)))"
proof -
  let ?S = "S(i # p := s)"
  have fS: "fresh cap start P ?S (fs ! i) (i # p)" using f s good_same_result(2) by blast
  have kS: "kept K ?S" using k s by (simp add: kids_good_def kept_same_result)
  from b fS kS ctx obtain S' where S': "b (i # p) (?S, ctx) = Some (None, S', ctx)"
    "good cap start P S' (fs ! i) (i # p)" "\<forall>q. \<not> suffix (i # p) q \<longrightarrow> S' q = ?S q" "kept K S'"
    unfolding builds_def by blast
  have m: "moves {i} p S S'" using S'(3) by (auto simp: moves_def)
  have "kids_good K cap start P fs p S'"
    unfolding kids_good_def
  proof (intro conjI allI impI)
    fix j assume "j < length fs"
    with k S'(2) moves_good [OF m, of j] show "good cap start P S' (fs ! j) (j # p)" by (cases "j = i") (auto simp: kids_good_def)
  qed (rule S'(4))
  moreover have "has_list fs p S \<longrightarrow> has_list fs p S'"
  proof
    assume "has_list fs p S"
    then obtain j where j: "j < length fs" "candidates (S (j # p)) \<noteq> None" by (auto simp: has_list_def)
    with f have "j \<noteq> i" by (auto simp: fresh_def)
    with moves_other [OF m, of j "j # p"] have "S' (j # p) = S (j # p)" by simp
    with j show "has_list fs p S'" by (auto simp: has_list_def)
  qed
  moreover have "decides K cap start P (fs ! i) (i # p) b \<and> iMaxIndexScan s = 0 \<longrightarrow> \<not> open_result (S' (i # p))"
  proof
    assume d: "decides K cap start P (fs ! i) (i # p) b \<and> iMaxIndexScan s = 0"
    then have "iMaxIndexScan (?S (i # p)) = 0" by simp
    with d fS kS ctx S'(1) show "\<not> open_result (S' (i # p))" unfolding decides_def by blast
  qed
  ultimately show ?thesis using S'(1) m by (intro exI conjI)
qed

text \<open>
  The state between two passes: without a list of a component all components can be built again,
  and a list that was found, unless by an ancestor (\<open>anc\<close>), is there.
\<close>

definition pass_ok ::
  "(path \<Rightarrow> filter_res \<Rightarrow> bool) \<Rightarrow> nat \<Rightarrow> entry_id \<Rightarrow> (path \<Rightarrow> entry_id \<Rightarrow> bool) \<Rightarrow> ldap_filter list \<Rightarrow> path \<Rightarrow> bool \<Rightarrow> bool \<Rightarrow> bool \<Rightarrow> store \<Rightarrow> bool" where
  "pass_ok K cap start P fs p anc small got S \<longleftrightarrow>
     kids_good K cap start P fs p S \<and> (\<not> small \<and> \<not> got \<longrightarrow> kids_fresh cap start P fs p S) \<and>
     (small \<or> got \<longrightarrow> anc \<or> has_list fs p S)"

lemma pass_kid:
  assumes b: "builds K cap start P (fs ! i) (i # p) b" and i: "i < length fs" and ctx: "iMaxScanForSizeLimit ctx = 0"
    and f: "fresh cap start P S (fs ! i) (i # p)" and ok: "pass_ok K cap start P fs p anc False got S" and s: "same_result (S (i # p)) s"
  shows "\<exists>S'. b (i # p) (S(i # p := s), ctx) = Some (None, S', ctx) \<and> moves {i} p S S' \<and>
    pass_ok K cap start P fs p anc False (got \<or> candidates (S' (i # p)) \<noteq> None) S' \<and>
    (candidates (S' (i # p)) \<noteq> None \<longrightarrow> pass_ok K cap start P fs p anc True got S') \<and> st_pos (S' (i # p))"
proof -
  have k: "kids_good K cap start P fs p S" using ok by (simp add: pass_ok_def)
  from build_kid [OF b i ctx f k s] obtain S' where
    S': "b (i # p) (S(i # p := s), ctx) = Some (None, S', ctx)" "kids_good K cap start P fs p S'" "moves {i} p S S'"
    "has_list fs p S \<longrightarrow> has_list fs p S'" by blast
  have fr: "kids_fresh cap start P fs p S'" if "\<not> got" "candidates (S' (i # p)) = None"
    using that ok S'(2) moves_fresh [OF S'(3)] unfolding pass_ok_def kids_fresh_def kids_good_def by (metis fresh_def singletonD)
  have "st_pos (S' (i # p))" using S'(2) i good_node unfolding kids_good_def node_good_def by blast
  moreover have "has_list fs p S'" if "candidates (S' (i # p)) \<noteq> None" using that i by (auto simp: has_list_def)
  ultimately show ?thesis using S' fr ok unfolding pass_ok_def by blast
qed

definition used_keys :: "component_of list \<Rightarrow> (nat \<Rightarrow> filter_choice \<Rightarrow> bool) \<Rightarrow> nat set" where
  "used_keys ks use = {i. \<exists>c b. (i, c, b) \<in> set ks \<and> use i c}"

lemma used_keys_Cons:
  "used_keys ((i, c, b) # ks) use = (if use i c then insert i (used_keys ks use) else used_keys ks use)"
  by (auto simp: used_keys_def)

lemma used_keys_fst: "used_keys ks use \<subseteq> fst ` set ks"
  by (force simp: used_keys_def)

lemma and_pass_good:
  assumes prep: "\<And>g s. same_result s (prep g s)" and ctx: "iMaxScanForSizeLimit ctx = 0"
  shows "kids_build K cap start P fs p ks \<Longrightarrow> pass_ok K cap start P fs p anc False got S \<Longrightarrow>
     \<forall>i \<in> used_keys ks use. fresh cap start P S (fs ! i) (i # p) \<Longrightarrow>
     \<exists>small got' S'. and_pass env use prep p ks got (S, ctx) = Some (None, small, got', S', ctx) \<and>
       pass_ok K cap start P fs p anc small got' S' \<and> moves (used_keys ks use) p S S'"
proof (induction ks arbitrary: S got)
  case Nil
  then show ?case by (intro exI [of _ False] exI [of _ got] exI [of _ S]) (simp add: moves_refl)
next
  case (Cons k ks)
  obtain i c b where k: "k = (i, c, b)" by (cases k)
  have kb: "kids_build K cap start P fs p ks" "builds K cap start P (fs ! i) (i # p) b" "i < length fs" "i \<notin> fst ` set ks"
    using Cons.prems(1) by (auto simp: kids_build_def k)
  show ?case
  proof (cases "use i c")
    case False
    with Cons.IH [OF kb(1) Cons.prems(2)] Cons.prems(3) show ?thesis by (simp add: k used_keys_Cons)
  next
    case True
    then have keys: "used_keys (k # ks) use = insert i (used_keys ks use)" by (simp add: k used_keys_Cons)
    have fr: "fresh cap start P S (fs ! i) (i # p)" using Cons.prems(3) keys by simp
    from pass_kid [where s = "prep got (S (i # p))", OF kb(2,3) ctx fr Cons.prems(2) prep] obtain S1 where
      S1: "b (i # p) (S(i # p := prep got (S (i # p))), ctx) = Some (None, S1, ctx)" "moves {i} p S S1"
      "pass_ok K cap start P fs p anc False (got \<or> candidates (S1 (i # p)) \<noteq> None) S1"
      "candidates (S1 (i # p)) \<noteq> None \<longrightarrow> pass_ok K cap start P fs p anc True got S1" "st_pos (S1 (i # p))" by blast
    let ?got = "got \<or> candidates (S1 (i # p)) \<noteq> None"
    have "\<forall>j \<in> used_keys ks use. fresh cap start P S1 (fs ! j) (j # p)"
    proof
      fix j assume j: "j \<in> used_keys ks use"
      with kb(4) used_keys_fst have "j \<notin> {i}" by blast
      from moves_fresh [OF S1(2) this] Cons.prems(3) j keys show "fresh cap start P S1 (fs ! j) (j # p)" by simp
    qed
    from Cons.IH [OF kb(1) S1(3) this] obtain small got' S' where
      S': "and_pass env use prep p ks ?got (S1, ctx) = Some (None, small, got', S', ctx)"
      "pass_ok K cap start P fs p anc small got' S'" "moves (used_keys ks use) p S1 S'" by blast
    have m: "moves (used_keys (k # ks) use) p S S'" "moves (used_keys (k # ks) use) p S S1"
      unfolding keys by (rule moves_trans [OF S1(2) S'(3)], simp, rule moves_trans [OF S1(2) moves_refl, of "{}"], simp)
    show ?thesis
    proof (cases "\<exists>cl. candidates (S1 (i # p)) = Some cl \<and> cl_size cl \<le> dwSmallCandidateSet env")
      case small: True
      then obtain cl where cl: "candidates (S1 (i # p)) = Some cl" "cl_size cl \<le> dwSmallCandidateSet env" "positive cl"
        using S1(5) by (auto simp: st_pos_def)
      then have "and_pass env use prep p (k # ks) got (S, ctx) = Some (None, True, got, S1, ctx)"
        using S1(1) True by (simp add: k)
      with S1(4) m(2) cl(1) show ?thesis by (intro exI [of _ True] exI [of _ got] exI [of _ S1]) simp
    next
      case False
      then have "and_pass env use prep p (k # ks) got (S, ctx) = and_pass env use prep p ks ?got (S1, ctx)"
        using S1(1,5) True by (cases "candidates (S1 (i # p))") (auto simp: k st_pos_def)
      with S' m(1) show ?thesis by (intro exI [of _ small] exI [of _ got'] exI [of _ S']) simp
    qed
  qed
qed

lemma build_all_good:
  assumes prep: "\<And>s. same_result s (prep s)" and ctx: "iMaxScanForSizeLimit ctx = 0"
  shows "kids_build K cap start P fs p ks \<Longrightarrow> kids_good K cap start P fs p S \<Longrightarrow>
     \<forall>i \<in> fst ` set ks. fresh cap start P S (fs ! i) (i # p) \<Longrightarrow>
     \<exists>S'. build_all prep p ks (S, ctx) = Some (None, S', ctx) \<and> kids_good K cap start P fs p S' \<and> moves (fst ` set ks) p S S' \<and>
       ((\<forall>s. iMaxIndexScan (prep s) = 0) \<longrightarrow>
        (\<forall>(i, c, b) \<in> set ks. decides K cap start P (fs ! i) (i # p) b \<longrightarrow> \<not> open_result (S' (i # p))))"
proof (induction ks arbitrary: S)
  case Nil
  then show ?case by (simp add: moves_refl)
next
  case (Cons k ks)
  obtain i c b where k: "k = (i, c, b)" by (cases k)
  have kb: "kids_build K cap start P fs p ks" "builds K cap start P (fs ! i) (i # p) b" "i < length fs" "i \<notin> fst ` set ks"
    using Cons.prems(1) by (auto simp: kids_build_def k)
  have fr: "fresh cap start P S (fs ! i) (i # p)" using Cons.prems(3) by (simp add: k)
  from build_kid [where s = "prep (S (i # p))", OF kb(2,3) ctx fr Cons.prems(2) prep] obtain S1 where
    S1: "b (i # p) (S(i # p := prep (S (i # p))), ctx) = Some (None, S1, ctx)" "kids_good K cap start P fs p S1" "moves {i} p S S1"
    "decides K cap start P (fs ! i) (i # p) b \<and> iMaxIndexScan (prep (S (i # p))) = 0 \<longrightarrow> \<not> open_result (S1 (i # p))" by blast
  have "\<forall>j \<in> fst ` set ks. fresh cap start P S1 (fs ! j) (j # p)"
  proof
    fix j assume j: "j \<in> fst ` set ks"
    with kb(4) have "j \<notin> {i}" by auto
    from moves_fresh [OF S1(3) this] Cons.prems(3) j show "fresh cap start P S1 (fs ! j) (j # p)" by auto
  qed
  from Cons.IH [OF kb(1) S1(2) this] obtain S' where S': "build_all prep p ks (S1, ctx) = Some (None, S', ctx)"
    "kids_good K cap start P fs p S'" "moves (fst ` set ks) p S1 S'"
    "(\<forall>s. iMaxIndexScan (prep s) = 0) \<longrightarrow>
      (\<forall>(i, c, b) \<in> set ks. decides K cap start P (fs ! i) (i # p) b \<longrightarrow> \<not> open_result (S' (i # p)))" by blast
  have "S' (i # p) = S1 (i # p)" using moves_other [OF S'(3) kb(4)] by simp
  moreover have "moves (fst ` set (k # ks)) p S S'" using moves_trans [OF S1(3) S'(3)] by (auto simp: k)
  ultimately show ?case using S' S1(1,4) by (intro exI [of _ S']) (auto simp: k)
qed


context combining
begin

lemma finish_sizes:
  assumes "kids_good K cap start P fs p S"
  shows "(\<Sum>i\<leftarrow>[0..<length fs]. st_size (S (i # p))) \<le> sum_list (map items fs) * cap"
proof -
  have "(\<Sum>i\<leftarrow>[0..<length fs]. st_size (S (i # p))) \<le> (\<Sum>i\<leftarrow>[0..<length fs]. items (fs ! i) * cap)"
    using assms good_node by (intro sum_list_mono) (fastforce simp: kids_good_def node_good_def)
  also have "\<dots> = sum_list (map items (map ((!) fs) [0..<length fs])) * cap"
    by (simp add: sum_list_mult_const o_def)
  finally show ?thesis by (simp add: map_nth)
qed

lemma finish_good:
  assumes mem: "\<forall>n. mem n" and kids: "kids_good K cap start P fs p S" and c: "and_composite c"
    and p: "computeResult (S p) = FILTER_RES_NORMAL" "candidates (S p) = None"
    and sz: "items (Filter c fs) * cap < 2 ^ 31" and K: "\<forall>r. K p r"
    and P: "\<forall>x. start \<le> x \<and> P p x \<longrightarrow> fold (\<lambda>i. joined (allows (S (i # p)) x)) [0..<length fs] (acc (S p) x)"
  shows "\<exists>S'. combine_all (oper mem) p [0..<length fs] (S, ctx) = Some (None, S', ctx) \<and> good cap start P S' (Filter c fs) p \<and>
    kept K S' \<and> (\<forall>q. \<not> suffix p q \<longrightarrow> S' q = S q)"
proof -
  have ok: "st_ok (S p)" "st_pos (S p)" "st_size (S p) = 0" using p by (simp_all add: st_ok_def st_pos_def st_size_def)
  have "\<forall>i \<in> set [0..<length fs]. st_ok (S (i # p)) \<and> st_pos (S (i # p))"
    using kids good_node by (fastforce simp: kids_good_def node_good_def)
  moreover have total: "(\<Sum>i\<leftarrow>[0..<length fs]. st_size (S (i # p))) \<le> items (Filter c fs) * cap"
    using finish_sizes [OF kids] c by simp
  ultimately obtain S' where S': "combine_all (oper mem) p [0..<length fs] (S, ctx) = Some (None, S', ctx)"
    "combined_list p [0..<length fs] S S'"
    using combine_all_list [of mem "[0..<length fs]" S p ctx] mem ok sz by auto
  have frame: "S' q = S q" if "q \<noteq> p" "q \<notin> (\<lambda>i. i # p) ` {..<length fs}" for q
    using S'(2) that by (simp add: combined_list_def atLeast_upt [symmetric] lessThan_atLeast0)
  have "node_good cap start P S' (items (Filter c fs)) p"
  proof -
    have "st_ok (S' p)" "st_pos (S' p)" "st_size (S' p) \<le> (\<Sum>i\<leftarrow>[0..<length fs]. st_size (S (i # p)))"
      "\<And>x. fold (\<lambda>i. joined (allows (S (i # p)) x)) [0..<length fs] (acc (S p) x) \<Longrightarrow> allows (S' p) x"
      using S'(2) ok(3) by (auto simp: combined_list_def intro: acc_allows)
    with P total show ?thesis unfolding node_good_def by (auto intro: order_trans)
  qed
  moreover have "good cap start P S' (fs ! i) (i # p) \<and> candidates (S' (i # p)) = None"
    if i: "i < length fs" and n: "computeResult (S' p) = FILTER_RES_NORMAL" "candidates (S' p) = None" for i
  proof -
    have used: "st_used (S (i # p)) (S' (i # p))" "candidates (S (i # p)) = None"
      using S'(2) i n by (simp_all add: combined_list_def)
    then have same: "S' (i # p) = S (i # p)" by (auto simp: st_used_def)
    have "S' q = S q" if "suffix (i # p) q" for q
    proof (cases "q = i # p")
      case False
      with that have "length q > length (i # p)" by (auto simp: suffix_def)
      then show ?thesis by (intro frame) auto
    qed (simp add: same)
    then have "good cap start P S' (fs ! i) (i # p) = good cap start P S (fs ! i) (i # p)" by (intro good_cong) blast
    with kids i used(2) same show ?thesis by (simp add: kids_good_def)
  qed
  ultimately have "good cap start P S' (Filter c fs) p" by (auto simp: good_iff)
  moreover have "\<forall>q. \<not> suffix p q \<longrightarrow> S' q = S q" by (auto simp: suffix_def intro!: frame)
  moreover have "kept K S'"
  proof (unfold kept_def, intro allI)
    fix q
    consider "q = p" | i where "q = i # p" "i < length fs" | "q \<noteq> p" "q \<notin> (\<lambda>i. i # p) ` {..<length fs}" by blast
    then show "K q (computeResult (S' q))"
    proof cases
      case 2
      then have "st_used (S q) (S' q)" using S'(2) by (simp add: combined_list_def)
      from st_usedD(2) [OF this] kids show ?thesis by (simp add: kids_good_def kept_def)
    qed (use K frame kids in \<open>auto simp: kids_good_def kept_def\<close>)
  qed
  ultimately show ?thesis using S'(1) by blast
qed

end

text \<open>The environment gives no errors and no limits on the size of the result.\<close>

definition unlimited :: "search_env \<Rightarrow> bool" where
  "unlimited env \<longleftrightarrow> (\<forall>n. sv_mem env n) \<and> (\<forall>a. \<exists>c. sv_cfg env a = Inr c) \<and> (\<forall>c n. sv_label env c n = None) \<and>
     (sv_paged env \<or> sv_sizeLimit env \<le> 0)"

lemma find_special_found:
  assumes "\<forall>a. \<exists>c. cfg a = Inr c"
  shows "\<exists>sp. find_special cfg ks s0 = Inr sp \<and> (sp = s0 \<or> (\<exists>i c b. sp = Some (i, c, b) \<and> (i, c, b) \<in> set ks \<and> \<not> and_composite c))"
proof (induction ks arbitrary: s0)
  case (Cons k ks)
  obtain i c b where k: "k = (i, c, b)" by (cases k)
  show ?case
  proof (cases c)
    case (LDAP_FILTER_EQUALITY a)
    obtain ic where "cfg (ava_type a) = Inr ic" using assms by blast
    with Cons.IH [of s0] LDAP_FILTER_EQUALITY show ?thesis by (fastforce simp: k and_composite_def)
  next
    case (LDAP_FILTER_GE a)
    with Cons.IH [of s0] Cons.IH [of "Some (i, c, b)"] show ?thesis
      by (cases "VmDirStringCompareA (ava_type a) ATTR_USN_CHANGED False") (auto simp: k and_composite_def)
  qed (use Cons.IH [of s0] in \<open>auto simp: k\<close>)
qed simp

text \<open>A conjunction that has no result is one whose components have none.\<close>

lemma and_open: "AndFilterResults mem src dst = Some (src', dst') \<Longrightarrow> open_result dst' \<Longrightarrow> open_result src \<and> open_result dst"
  by (cases "computeResult src"; cases "computeResult dst"; cases "candidates src"; cases "candidates dst")
    (auto simp: AndFilterResults_def and_candidates_def open_result_def split: if_splits bind_splits)

lemma combine_open:
  "combine (AndFilterResults mem) sel p is S = Some S' \<Longrightarrow> distinct is \<Longrightarrow> open_result (S' p) \<Longrightarrow>
     open_result (S p) \<and> (\<forall>i \<in> set is. sel (S (i # p)) \<longrightarrow> open_result (S (i # p)))"
proof (induction "is" arbitrary: S)
  case (Cons i "is")
  show ?case
  proof (cases "sel (S (i # p))")
    case True
    with Cons.prems(1) obtain s d where o: "AndFilterResults mem (S (i # p)) (S p) = Some (s, d)"
      "combine (AndFilterResults mem) sel p is (S(i # p := s, p := d)) = Some S'" by (auto split: bind_splits)
    have same: "(S(i # p := s, p := d)) (j # p) = S (j # p)" if "j \<in> set is" for j using that Cons.prems(2) by auto
    from Cons.IH [OF o(2)] Cons.prems(2,3) have "open_result d"
      "\<forall>j \<in> set is. sel (S (j # p)) \<longrightarrow> open_result (S (j # p))" using same by simp_all
    with and_open [OF o(1)] show ?thesis by auto
  qed (use Cons in auto)
qed simp

lemma combine_all_open:
  assumes "combine_all (AndFilterResults mem) p is (S, ctx) = Some (None, S', ctx)" and "distinct is" and "open_result (S' p)"
    and "\<forall>i \<in> set is. st_pos (S (i # p))"
  shows "\<forall>i \<in> set is. open_result (S (i # p))"
proof -
  from assms(1) obtain S1 where c: "combine (AndFilterResults mem) (\<lambda>s. \<not> negative s) p is S = Some S1"
    "combine (AndFilterResults mem) negative p is S1 = Some S'" by (auto simp: combine_all_def split: bind_splits)
  have "open_result (S1 p)" using combine_open [OF c(2) assms(2,3)] by blast
  moreover have "\<forall>i \<in> set is. \<not> negative (S (i # p))" using assms(4) by (auto simp: negative_def st_pos_def split: option.splits)
  ultimately show ?thesis using combine_open [OF c(1) assms(2)] by blast
qed

lemma moves_all_fresh:
  assumes "moves T p S S'" and "T \<inter> U = {}" and "\<forall>i \<in> V. fresh cap start P S (fs ! i) (i # p)" and "U \<subseteq> V"
  shows "\<forall>i \<in> U. fresh cap start P S' (fs ! i) (i # p)"
proof
  fix i assume "i \<in> U"
  then have "i \<notin> T" "i \<in> V" using assms(2,4) by auto
  with assms(3) moves_fresh [OF assms(1)] show "fresh cap start P S' (fs ! i) (i # p)" by simp
qed

lemma kids_good_fresh: "kids_fresh cap start P fs p S \<Longrightarrow> kept K S \<Longrightarrow> kids_good K cap start P fs p S"
  by (simp add: kids_fresh_def kids_good_def fresh_def)

lemma pass_start: "kids_fresh cap start P fs p S \<Longrightarrow> kept K S \<Longrightarrow> pass_ok K cap start P fs p anc False anc S"
  by (simp add: pass_ok_def kids_good_fresh)

lemma pass_small: "pass_ok K cap start P fs p anc small got S \<Longrightarrow> \<not> small \<Longrightarrow> pass_ok K cap start P fs p anc False got S"
  by (simp add: pass_ok_def)

definition special_key :: "component_of option \<Rightarrow> nat set" where
  "special_key special = (case special of None \<Rightarrow> {} | Some (i, _) \<Rightarrow> {i})"

lemma and_special_good:
  assumes sp: "\<forall>i c b. special = Some (i, c, b) \<longrightarrow> i < length fs \<and> builds K cap start P (fs ! i) (i # p) b"
    and ctx: "iMaxScanForSizeLimit ctx = 0" and kids: "kids_fresh cap start P fs p S" "kept K S"
  shows "\<exists>small got' S'. and_special env p special anc (S, ctx) = Some (None, small, got', S', ctx) \<and>
    pass_ok K cap start P fs p anc small got' S' \<and> moves (special_key special) p S S'"
proof (cases special)
  case None
  with pass_start [OF kids] show ?thesis
    by (intro exI [of _ False] exI [of _ anc] exI [of _ S]) (simp add: and_special_def moves_refl)
next
  case (Some k)
  obtain i c b where k: "k = (i, c, b)" by (cases k)
  have i: "i < length fs" "builds K cap start P (fs ! i) (i # p) b" using sp Some k by simp_all
  have f: "fresh cap start P S (fs ! i) (i # p)" using kids(1) i(1) by (simp add: kids_fresh_def)
  from pass_kid [OF i(2,1) ctx f pass_start [OF kids, of anc] same_result_upd(1) [of "S (i # p)" 0]] obtain S1 where
    S1: "b (i # p) (S(i # p := (S (i # p))\<lparr>iMaxIndexScan := 0\<rparr>), ctx) = Some (None, S1, ctx)" "moves {i} p S S1"
    "pass_ok K cap start P fs p anc False (anc \<or> candidates (S1 (i # p)) \<noteq> None) S1"
    "candidates (S1 (i # p)) \<noteq> None \<longrightarrow> pass_ok K cap start P fs p anc True anc S1" by (elim exE conjE) (rule that)
  let ?small = "\<exists>cl. candidates (S1 (i # p)) = Some cl \<and> cl_size cl \<le> dwSmallCandidateSet env"
  have "and_special env p special anc (S, ctx) =
      Some (None, ?small, if ?small then anc else anc \<or> candidates (S1 (i # p)) \<noteq> None, S1, ctx)"
    using S1(1) Some k by (cases "candidates (S1 (i # p))") (auto simp: and_special_def)
  moreover have "pass_ok K cap start P fs p anc ?small (if ?small then anc else anc \<or> candidates (S1 (i # p)) \<noteq> None) S1"
  proof (cases ?small)
    case True
    with S1(4) show ?thesis by auto
  next
    case False
    then have "?small = False" by simp
    with S1(3) show ?thesis by (simp only: if_False)
  qed
  moreover have "moves (special_key special) p S S1" using S1(2) Some k by (simp add: special_key_def)
  ultimately show ?thesis by blast
qed

text \<open>The three first passes of a conjunction: the special component, the items and the composites.\<close>

lemma first_passes_good:
  assumes kb: "kids_build K cap start P fs p ks" and ctx: "iMaxScanForSizeLimit ctx = 0"
    and kf: "kids_fresh cap start P fs p S" and keep: "kept K S"
    and sp: "special = None \<or> (\<exists>i c b. special = Some (i, c, b) \<and> (i, c, b) \<in> set ks \<and> \<not> and_composite c)"
    and prep: "\<And>g s. same_result s (prep1 g s)" "\<And>g s. same_result s (prep2 g s)"
  shows "\<exists>small got' S'.
    next_pass (next_pass (and_special env p special anc (S, ctx))
      (and_pass env (\<lambda>i c. (case special of None \<Rightarrow> True | Some (j, _) \<Rightarrow> i \<noteq> j) \<and> \<not> and_composite c) prep1 p ks))
      (and_pass env (\<lambda>i c. and_composite c) prep2 p ks) = Some (None, small, got', S', ctx) \<and>
    pass_ok K cap start P fs p anc small got' S' \<and> moves (fst ` set ks) p S S'"
proof -
  let ?use = "\<lambda>i c. (case special of None \<Rightarrow> True | Some (j, _) \<Rightarrow> i \<noteq> j) \<and> \<not> and_composite c"
  let ?comp = "\<lambda>i c. and_composite c"
  have idx: "i < length fs" "builds K cap start P (fs ! i) (i # p) b" if "(i, c, b) \<in> set ks" for i c b
    using kb that by (auto simp: kids_build_def)
  have fr0: "\<forall>i \<in> fst ` set ks. fresh cap start P S (fs ! i) (i # p)" using idx(1) kf by (auto simp: kids_fresh_def)
  have keys: "special_key special \<subseteq> fst ` set ks" using sp by (force simp: special_key_def)
  have dist: "special_key special \<inter> used_keys ks ?use = {}" "special_key special \<inter> used_keys ks ?comp = {}"
    "used_keys ks ?use \<inter> used_keys ks ?comp = {}"
  proof -
    have same: "c = d" if "(i, c, b) \<in> set ks" "(i, d, e) \<in> set ks" for i c d b e
      using kb that by (auto simp: kids_build_def dest: eq_key_imp_eq_value)
    show "special_key special \<inter> used_keys ks ?use = {}" by (auto simp: special_key_def used_keys_def split: option.splits)
    show "special_key special \<inter> used_keys ks ?comp = {}" using sp same unfolding special_key_def used_keys_def by fastforce
    show "used_keys ks ?use \<inter> used_keys ks ?comp = {}"
    proof (rule equals0I)
      fix i assume "i \<in> used_keys ks ?use \<inter> used_keys ks ?comp"
      then obtain c b d e where i: "(i, c, b) \<in> set ks" "\<not> and_composite c" "(i, d, e) \<in> set ks" "and_composite d"
        by (auto simp: used_keys_def)
      from same [OF i(1,3)] i(2,4) show False by simp
    qed
  qed
  have "\<forall>i c b. special = Some (i, c, b) \<longrightarrow> i < length fs \<and> builds K cap start P (fs ! i) (i # p) b" using sp idx by auto
  from and_special_good [where env = env and anc = anc, OF this ctx kf keep] obtain small1 got1 S1 where
    p1: "and_special env p special anc (S, ctx) = Some (None, small1, got1, S1, ctx)" "pass_ok K cap start P fs p anc small1 got1 S1"
    "moves (special_key special) p S S1" by (elim exE conjE) (rule that)
  have m1: "moves (fst ` set ks) p S S1" using moves_trans [OF p1(3) moves_refl, of "{}"] keys by simp
  show ?thesis
  proof (cases small1)
    case True
    with p1 m1 show ?thesis by (intro exI [of _ small1] exI [of _ got1] exI [of _ S1]) (simp add: next_pass_def)
  next
    case small1: False
    have "\<forall>i \<in> used_keys ks ?use. fresh cap start P S1 (fs ! i) (i # p)"
      by (rule moves_all_fresh [OF p1(3) dist(1) fr0 used_keys_fst])
    from and_pass_good [where env = env and prep = prep1, OF prep(1) ctx kb pass_small [OF p1(2) small1] this] obtain small2 got2 S2 where
      p2: "and_pass env ?use prep1 p ks got1 (S1, ctx) = Some (None, small2, got2, S2, ctx)"
      "pass_ok K cap start P fs p anc small2 got2 S2" "moves (used_keys ks ?use) p S1 S2" by (elim exE conjE) (rule that)
    have m2: "moves (special_key special \<union> used_keys ks ?use) p S S2" by (rule moves_trans [OF p1(3) p2(3)]) simp
    have m2': "moves (fst ` set ks) p S S2" by (rule moves_trans [OF m1 p2(3)]) (simp add: used_keys_fst)
    show ?thesis
    proof (cases small2)
      case True
      with small1 p1 p2 m2' show ?thesis by (intro exI [of _ small2] exI [of _ got2] exI [of _ S2]) (simp add: next_pass_def)
    next
      case small2: False
      have "\<forall>i \<in> used_keys ks ?comp. fresh cap start P S2 (fs ! i) (i # p)"
        by (rule moves_all_fresh [OF m2 _ fr0 used_keys_fst]) (simp add: Int_Un_distrib2 dist)
      from and_pass_good [where env = env and prep = prep2, OF prep(2) ctx kb pass_small [OF p2(2) small2] this] obtain small3 got3 S3 where
        p3: "and_pass env ?comp prep2 p ks got2 (S2, ctx) = Some (None, small3, got3, S3, ctx)"
        "pass_ok K cap start P fs p anc small3 got3 S3" "moves (used_keys ks ?comp) p S2 S3" by (elim exE conjE) (rule that)
      have "moves (fst ` set ks) p S S3" by (rule moves_trans [OF m2' p3(3)]) (simp add: used_keys_fst)
      with small1 small2 p1 p2 p3 show ?thesis
        by (intro exI [of _ small3] exI [of _ got3] exI [of _ S3]) (simp add: next_pass_def)
    qed
  qed
qed


lemma fresh_kids:
  assumes "fresh cap start P S (Filter c fs) p" and "and_composite c" and "computeResult (S p) = FILTER_RES_NORMAL"
  shows "kids_fresh cap start P fs p S"
  using assms by (simp add: kids_fresh_def fresh_def good_iff)

lemma build_and_good:
  assumes env: "unlimited env" and kb: "kids_build K cap start P fs p ks" "map fst ks = [0..<length fs]"
    and ctx: "iMaxScanForSizeLimit ctx = 0" and sz: "items (Filter LDAP_FILTER_AND fs) * cap < 2 ^ 31"
    and f: "fresh cap start P S (Filter LDAP_FILTER_AND fs) p" "computeResult (S p) = FILTER_RES_NORMAL"
    and keep: "kept K S" and K: "\<forall>r. K p r"
    and P: "\<forall>x. P p x \<longrightarrow> (\<forall>i < length fs. P (i # p) x)"
  shows "\<exists>S'. build_and env ks p (S, ctx) = Some (None, S', ctx) \<and> good cap start P S' (Filter LDAP_FILTER_AND fs) p \<and>
    kept K S' \<and> (\<forall>q. \<not> suffix p q \<longrightarrow> S' q = S q) \<and>
    (\<not> bAncestorGotPositiveCandidateSet (S p) \<and> (\<exists>(i, c, b) \<in> set ks. decides K cap start P (fs ! i) (i # p) b) \<longrightarrow>
     \<not> open_result (S' p))"
proof -
  let ?anc = "bAncestorGotPositiveCandidateSet (S p)"
  have mem: "\<forall>n. sv_mem env n" and ctx0: "ctx\<lparr>iMaxScanForSizeLimit := if \<not> sv_paged env \<and> sv_sizeLimit env > 0
      then dwMaxSizelimitScan env else 0\<rparr> = ctx"
    using env ctx by (auto simp: unlimited_def)
  have comp: "and_composite LDAP_FILTER_AND" by (simp add: and_composite_def)
  have kf: "kids_fresh cap start P fs p S" using fresh_kids [OF f(1) comp f(2)] .
  have "\<forall>a. \<exists>c. sv_cfg env a = Inr c" using env by (simp add: unlimited_def)
  from find_special_found [OF this, of ks None] obtain sp where sp: "find_special (sv_cfg env) ks None = Inr sp"
    "sp = None \<or> (\<exists>i c b. sp = Some (i, c, b) \<and> (i, c, b) \<in> set ks \<and> \<not> and_composite c)" by blast
  let ?use = "\<lambda>i c. (case sp of None \<Rightarrow> True | Some (j, _) \<Rightarrow> i \<noteq> j) \<and> \<not> and_composite c"
  let ?prep1 = "\<lambda>got s. s\<lparr>iMaxIndexScan := dwMaxIndexScan env\<rparr>" and ?prep2 = "\<lambda>got s. s\<lparr>bAncestorGotPositiveCandidateSet := got\<rparr>"
  obtain small got S1 where
    p1: "next_pass (next_pass (and_special env p sp ?anc (S, ctx))
      (and_pass env ?use ?prep1 p ks)) (and_pass env (\<lambda>i c. and_composite c) ?prep2 p ks) = Some (None, small, got, S1, ctx)"
    "pass_ok K cap start P fs p ?anc small got S1" "moves (fst ` set ks) p S S1"
    using first_passes_good [where env = env and anc = ?anc and ?prep1.0 = ?prep1 and ?prep2.0 = ?prep2,
        OF kb(1) ctx kf keep sp(2) same_result_upd]
    by (elim exE conjE) (rule that)
  let ?fin = "combine_all (AndFilterResults (sv_mem env)) p [0..<length fs]"
  have finish: "\<exists>S'. ?fin (S2, ctx) = Some (None, S', ctx) \<and> good cap start P S' (Filter LDAP_FILTER_AND fs) p \<and>
      kept K S' \<and> (\<forall>q. \<not> suffix p q \<longrightarrow> S' q = S q) \<and> ((\<exists>i < length fs. \<not> open_result (S2 (i # p))) \<longrightarrow> \<not> open_result (S' p))"
    if k: "kids_good K cap start P fs p S2" and m: "moves (fst ` set ks) p S S2" for S2
  proof -
    have n: "computeResult (S2 p) = FILTER_RES_NORMAL" "candidates (S2 p) = None"
      using f moves_self [OF m] by (simp_all add: fresh_def)
    have node: "node_good cap start P S2 (items (fs ! i)) (i # p)" if "i < length fs" for i
      using k that good_node by (simp add: kids_good_def)
    have "\<forall>x. start \<le> x \<and> P p x \<longrightarrow> fold (\<lambda>i. (\<and>) (allows (S2 (i # p)) x)) [0..<length fs] (allows (S2 p) x)"
    proof (intro allI impI)
      fix x assume "start \<le> x \<and> P p x"
      moreover have "allows (S2 p) x" using n by (simp add: allows_def)
      ultimately show "fold (\<lambda>i. (\<and>) (allows (S2 (i # p)) x)) [0..<length fs] (allows (S2 p) x)"
        using P node unfolding node_good_def by (simp add: fold_conj)
    qed
    from and_results.finish_good [where ctx = ctx, OF mem k comp n sz K this] obtain S' where
      S': "?fin (S2, ctx) = Some (None, S', ctx)" "good cap start P S' (Filter LDAP_FILTER_AND fs) p" "kept K S'"
      "\<forall>q. \<not> suffix p q \<longrightarrow> S' q = S2 q" by blast
    have "\<forall>i < length fs. open_result (S2 (i # p))" if "open_result (S' p)"
      using combine_all_open [OF S'(1) _ that] node by (simp add: node_good_def)
    with S' moves_below [OF m] show ?thesis by auto
  qed
  have step: "build_and env ks p (S, ctx) =
      (if small \<or> got then ?fin (S1, ctx)
       else do { (err, st2) \<leftarrow> build_all (\<lambda>s. s\<lparr>iMaxIndexScan := 0\<rparr>) p ks (S1, ctx);
                 if err \<noteq> None then Some (err, st2) else ?fin st2 })"
    unfolding build_and_def Let_def fst_conv snd_conv ctx0 sp(1) sum.case p1(1) kb(2) by simp
  have k1: "kids_good K cap start P fs p S1" using p1(2) by (simp add: pass_ok_def)
  show ?thesis
  proof (cases "small \<or> got")
    case True
    then have "?anc \<or> (\<exists>i < length fs. \<not> open_result (S1 (i # p)))"
      using p1(2) by (auto simp: pass_ok_def has_list_def open_result_def)
    with True step finish [OF k1 p1(3)] show ?thesis by auto
  next
    case False
    then have "kids_fresh cap start P fs p S1" using p1(2) by (simp add: pass_ok_def)
    then have "\<forall>i \<in> fst ` set ks. fresh cap start P S1 (fs ! i) (i # p)" using kb(1) by (auto simp: kids_build_def kids_fresh_def)
    from build_all_good [where prep = "\<lambda>s. s\<lparr>iMaxIndexScan := 0\<rparr>", OF same_result_upd(1) ctx kb(1) k1 this] obtain S2 where
      S2: "build_all (\<lambda>s. s\<lparr>iMaxIndexScan := 0\<rparr>) p ks (S1, ctx) = Some (None, S2, ctx)" "kids_good K cap start P fs p S2"
      "moves (fst ` set ks) p S1 S2"
      "\<forall>(i, c, b) \<in> set ks. decides K cap start P (fs ! i) (i # p) b \<longrightarrow> \<not> open_result (S2 (i # p))" by auto
    have m: "moves (fst ` set ks) p S S2" by (rule moves_trans [OF p1(3) S2(3)]) simp
    have "(\<exists>(i, c, b) \<in> set ks. decides K cap start P (fs ! i) (i # p) b) \<Longrightarrow> \<exists>i < length fs. \<not> open_result (S2 (i # p))"
      using S2(4) kb(1) by (fastforce simp: kids_build_def)
    with step finish [OF S2(2) m] False S2(1) show ?thesis by auto
  qed
qed

lemma build_or_good:
  assumes env: "unlimited env" and kb: "kids_build K cap start P fs p ks" "map fst ks = [0..<length fs]"
    and ctx: "iMaxScanForSizeLimit ctx = 0" and sz: "items (Filter LDAP_FILTER_OR fs) * cap < 2 ^ 31"
    and f: "fresh cap start P S (Filter LDAP_FILTER_OR fs) p" "computeResult (S p) = FILTER_RES_NORMAL"
    and keep: "kept K S" and K: "\<forall>r. K p r"
    and P: "\<forall>x. P p x \<longrightarrow> (\<exists>i < length fs. P (i # p) x)"
  shows "\<exists>S'. build_or env ks p (S, ctx) = Some (None, S', ctx) \<and> good cap start P S' (Filter LDAP_FILTER_OR fs) p \<and>
    kept K S' \<and> (\<forall>q. \<not> suffix p q \<longrightarrow> S' q = S q)"
proof -
  let ?prep = "\<lambda>s. s\<lparr>bAncestorGotPositiveCandidateSet := bAncestorGotPositiveCandidateSet (S p)\<rparr>"
  have mem: "\<forall>n. sv_mem env n" using env by (simp add: unlimited_def)
  have comp: "and_composite LDAP_FILTER_OR" by (simp add: and_composite_def)
  have kf: "kids_fresh cap start P fs p S" using fresh_kids [OF f(1) comp f(2)] .
  then have "\<forall>i \<in> fst ` set ks. fresh cap start P S (fs ! i) (i # p)" using kb(1) by (auto simp: kids_build_def kids_fresh_def)
  from build_all_good [where prep = ?prep, OF same_result_upd(2) ctx kb(1) kids_good_fresh [OF kf keep] this] obtain S2 where
    S2: "build_all ?prep p ks (S, ctx) = Some (None, S2, ctx)" "kids_good K cap start P fs p S2" "moves (fst ` set ks) p S S2"
    by (elim exE conjE) (rule that)
  have n: "computeResult (S2 p) = FILTER_RES_NORMAL" "candidates (S2 p) = None"
    using f moves_self [OF S2(3)] by (simp_all add: fresh_def)
  have "\<forall>x. start \<le> x \<and> P p x \<longrightarrow> fold (\<lambda>i. (\<or>) (allows (S2 (i # p)) x)) [0..<length fs] (allows_so_far (S2 p) x)"
  proof (intro allI impI)
    fix x assume x: "start \<le> x \<and> P p x"
    then obtain i where "i < length fs" "P (i # p) x" using P by blast
    with S2(2) x have "allows (S2 (i # p)) x" using good_node unfolding kids_good_def node_good_def by blast
    with \<open>i < length fs\<close> show "fold (\<lambda>i. (\<or>) (allows (S2 (i # p)) x)) [0..<length fs] (allows_so_far (S2 p) x)"
      by (auto simp: fold_disj)
  qed
  from or_results.finish_good [where ctx = ctx, OF mem S2(2) comp n sz K this] obtain S' where
    "combine_all (OrFilterResults (sv_mem env)) p [0..<length fs] (S2, ctx) = Some (None, S', ctx)"
    "good cap start P S' (Filter LDAP_FILTER_OR fs) p" "kept K S'" "\<forall>q. \<not> suffix p q \<longrightarrow> S' q = S2 q" by blast
  with S2(1) moves_below [OF S2(3)] kb(2) show ?thesis by (auto simp: build_or_def)
qed


section \<open>The candidate list of a filter\<close>

text \<open>
  The values of \<open>P\<close> fit the filter: those of a conjunction or disjunction to those of its components
  and those of an item to what the backend matches.
\<close>

primrec covered ::
  "(path \<Rightarrow> filter_res \<Rightarrow> bool) \<Rightarrow> (filter_choice \<Rightarrow> bool) \<Rightarrow> (filter_choice \<Rightarrow> entry_id \<Rightarrow> bool) \<Rightarrow> entry_id \<Rightarrow> (path \<Rightarrow> entry_id \<Rightarrow> bool) \<Rightarrow> ldap_filter \<Rightarrow> path \<Rightarrow> bool" where
  "covered K usable matches start P (Filter c fs) =
     (\<lambda>p. (case c of
             LDAP_FILTER_AND \<Rightarrow> (\<forall>r. K p r) \<and> (\<forall>x. P p x \<longrightarrow> (\<forall>i < length fs. P (i # p) x))
           | LDAP_FILTER_OR \<Rightarrow> (\<forall>r. K p r) \<and> (\<forall>x. P p x \<longrightarrow> (\<exists>i < length fs. P (i # p) x))
           | LDAP_FILTER_NOT \<Rightarrow> K p FILTER_RES_NORMAL \<longrightarrow> K p FILTER_RES_TRUE
           | LDAP_FILTER_PRESENT a \<Rightarrow> K p FILTER_RES_NORMAL \<longrightarrow> K p FILTER_RES_TRUE
           | LDAP_FILTER_OTHER \<Rightarrow> True
           | _ \<Rightarrow> K p FILTER_RES_NORMAL \<longrightarrow> usable c \<and> (\<forall>x. start \<le> x \<and> P p x \<longrightarrow> matches c x)) \<and>
          (and_composite c \<longrightarrow> list_all (\<lambda>(i, g). g (i # p)) (enumerate 0 (map (covered K usable matches start P) fs))))"

lemma covered_kids: "covered K usable matches start P (Filter c fs) p \<Longrightarrow> and_composite c \<Longrightarrow> i < length fs \<Longrightarrow>
    covered K usable matches start P (fs ! i) (i # p)"
  by (auto simp: list_all_length nth_enumerate_eq)

definition is_item :: "filter_choice \<Rightarrow> bool" where
  "is_item c =
     (case c of LDAP_FILTER_EQUALITY _ \<Rightarrow> True | LDAP_FILTER_GE _ \<Rightarrow> True | LDAP_FILTER_LE _ \<Rightarrow> True
      | LDAP_FILTER_SUBSTRINGS _ \<Rightarrow> True | FILTER_ONE_LEVEL_SEARCH _ \<Rightarrow> True | _ \<Rightarrow> False)"

definition listed :: "nat \<Rightarrow> entry_id \<Rightarrow> (entry_id \<Rightarrow> bool) \<Rightarrow> candidates \<Rightarrow> bool" where
  "listed n start m d \<longleftrightarrow> positive d \<and> cl_ok d \<and> cl_size d \<le> n \<and> (\<forall>x. start \<le> x \<and> m x \<longrightarrow> x \<in> cl_set d)"

text \<open>
  The contract of the backend: when it is ready, it gives no list or one with every entry from
  \<open>start\<close> on that the item matches. \<open>bound\<close> is the number of records of its indices.
\<close>

locale candidate_source =
  fixes get :: "'e \<Rightarrow> get_candidates"
    and ready :: "'e \<Rightarrow> bool"
    and usable :: "'e \<Rightarrow> filter_choice \<Rightarrow> bool"
    and matches :: "'e \<Rightarrow> filter_choice \<Rightarrow> entry_id \<Rightarrow> bool"
    and indexed :: "'e \<Rightarrow> filter_choice \<Rightarrow> bool"
    and bound :: "'e \<Rightarrow> nat"
  assumes get_law: "\<And>e c fs start ctx. ready e \<Longrightarrow> usable e c \<Longrightarrow> iMaxScanForSizeLimit ctx = 0 \<Longrightarrow> candidates fs = None \<Longrightarrow>
      \<exists>err c'. get e c fs start ctx = Some (err, fs\<lparr>candidates := c'\<rparr>, ctx) \<and>
        err \<in> {None, Some VMDIR_ERROR_BACKEND_ENTRY_NOTFOUND} \<and> pred_option (listed (bound e) start (matches e c)) c' \<and>
        (indexed e c \<and> iMaxIndexScan fs = 0 \<longrightarrow> c' \<noteq> None)"
begin

lemma leaf_good:
  assumes "ready e" and "unlimited env" and "sv_get env = get e" and u: "usable e c"
    and P: "\<forall>x. start \<le> x \<and> P p x \<longrightarrow> matches e c x" and "\<not> and_composite c"
    and S: "fresh (bound e) start P S (Filter c fs) p" "computeResult (S p) = FILTER_RES_NORMAL" and ctx: "iMaxScanForSizeLimit ctx = 0"
    and keep: "kept K S"
  shows "\<exists>S'. build_leaf env start c p (S, ctx) = Some (None, S', ctx) \<and> good (bound e) start P S' (Filter c fs) p \<and>
    kept K S' \<and> (\<forall>q. \<not> suffix p q \<longrightarrow> S' q = S q)"
proof -
  from get_law [OF assms(1) u ctx, of "S p" start] S obtain err c' where
    g: "get e c (S p) start ctx = Some (err, (S p)\<lparr>candidates := c'\<rparr>, ctx)" "err \<in> {None, Some VMDIR_ERROR_BACKEND_ENTRY_NOTFOUND}"
    "pred_option (listed (bound e) start (matches e c)) c'" by (auto simp: fresh_def)
  let ?S = "S(p := (S p)\<lparr>candidates := c'\<rparr>)"
  have "build_leaf env start c p (S, ctx) = Some (None, ?S, ctx)"
    using g(1,2) assms(2,3) by (auto simp: build_leaf_def unlimited_def split: option.splits)
  moreover have "good (bound e) start P ?S (Filter c fs) p"
    using g(3) S P assms(6)
    by (cases c') (auto simp: good_iff node_good_def st_ok_def st_pos_def st_size_def allows_def list_allows_def listed_def)
  moreover have "kept K ?S" using keep by (simp add: kept_same_result kept_def)
  moreover have "\<forall>q. \<not> suffix p q \<longrightarrow> ?S q = S q" by auto
  ultimately show ?thesis by blast
qed

lemma kids_built:
  assumes IH: "\<And>i. i < length fs \<Longrightarrow> covered K (usable e) (matches e) start P (fs ! i) (i # p) \<Longrightarrow> items (fs ! i) * bound e < 2 ^ 31 \<Longrightarrow>
      builds K (bound e) start P (fs ! i) (i # p) (BuildCandidateList env start (fs ! i))"
    and c: "covered K (usable e) (matches e) start P (Filter c fs) p" "and_composite c" and sz: "items (Filter c fs) * bound e < 2 ^ 31"
  shows "kids_build K (bound e) start P fs p (enumerate 0 (zip (map f_choice fs) (map (BuildCandidateList env start) fs)))"
proof -
  have "builds K (bound e) start P (fs ! i) (i # p) (BuildCandidateList env start (fs ! i))" if i: "i < length fs" for i
  proof (rule IH [OF i covered_kids [OF c i]])
    have "items (fs ! i) \<le> sum_list (map items fs)" using i by (intro member_le_sum_list) auto
    then have "items (fs ! i) * bound e \<le> items (Filter c fs) * bound e" using c(2) by simp
    then show "items (fs ! i) * bound e < 2 ^ 31" using sz by linarith
  qed
  then show ?thesis by (auto simp: kids_build_def in_set_enumerate_eq)
qed

text \<open>The list of a filter contains the entries that pass it.\<close>

lemma build_good:
  assumes e: "ready e" "unlimited env" "sv_get env = get e"
  shows "covered K (usable e) (matches e) start P f p \<Longrightarrow> items f * bound e < 2 ^ 31 \<Longrightarrow>
     builds K (bound e) start P f p (BuildCandidateList env start f)"
proof (induction f arbitrary: p)
  case (Filter c fs)
  let ?ks = "enumerate 0 (zip (map f_choice fs) (map (BuildCandidateList env start) fs))"
  have keys: "map fst ?ks = [0..<length fs]" by simp
  have kids: "kids_build K (bound e) start P fs p ?ks" if "and_composite c"
    using kids_built [OF Filter.IH Filter.prems(1) that Filter.prems(2)] by simp
  have "\<exists>S'. BuildCandidateList env start (Filter c fs) p (S, ctx) = Some (None, S', ctx) \<and>
      good (bound e) start P S' (Filter c fs) p \<and> kept K S' \<and> (\<forall>q. \<not> suffix p q \<longrightarrow> S' q = S q)"
    if S: "fresh (bound e) start P S (Filter c fs) p" and ctx: "iMaxScanForSizeLimit ctx = 0" and keep: "kept K S" for S ctx
  proof (cases "computeResult (S p) = FILTER_RES_NORMAL")
    case False
    with S keep show ?thesis by (auto simp: fresh_def)
  next
    case n: True
    then have Kn: "K p FILTER_RES_NORMAL" using keep by (metis kept_def)
    have leaf: ?thesis if "build_choice env start c ?ks p (S, ctx) = build_leaf env start c p (S, ctx)" "\<not> and_composite c" "usable e c"
      "\<forall>x. start \<le> x \<and> P p x \<longrightarrow> matches e c x"
      using leaf_good [OF e that(3,4,2) S n ctx keep] n that(1) by simp
    show ?thesis
    proof (cases c)
      case LDAP_FILTER_AND
      then have c: "and_composite c" "items (Filter LDAP_FILTER_AND fs) * bound e < 2 ^ 31"
        "fresh (bound e) start P S (Filter LDAP_FILTER_AND fs) p" "\<forall>x. P p x \<longrightarrow> (\<forall>i < length fs. P (i # p) x)" "\<forall>r. K p r"
        using Filter.prems S by (simp_all add: and_composite_def)
      from build_and_good [OF e(2) kids [OF c(1)] keys ctx c(2,3) n keep c(5,4)] LDAP_FILTER_AND n show ?thesis
        by (simp add: build_choice_def) (elim exE conjE, intro exI conjI)
    next
      case LDAP_FILTER_OR
      then have c: "and_composite c" "items (Filter LDAP_FILTER_OR fs) * bound e < 2 ^ 31"
        "fresh (bound e) start P S (Filter LDAP_FILTER_OR fs) p" "\<forall>x. P p x \<longrightarrow> (\<exists>i < length fs. P (i # p) x)" "\<forall>r. K p r"
        using Filter.prems S by (simp_all add: and_composite_def)
      from build_or_good [OF e(2) kids [OF c(1)] keys ctx c(2,3) n keep c(5,4)] LDAP_FILTER_OR n show ?thesis by (simp add: build_choice_def)
    qed (use leaf Filter.prems(1) n S Kn keep in \<open>auto simp: build_choice_def and_composite_def kept_upd fresh_def good_iff node_good_def st_ok_def
        st_pos_def st_size_def allows_def\<close>)
  qed
  then show ?case by (simp add: builds_def)
qed

text \<open>An indexed item has a result once its list is built without a limit.\<close>

lemma item_decides:
  assumes e: "ready e" "unlimited env" "sv_get env = get e" and c: "is_item c"
    and i: "K p FILTER_RES_NORMAL \<longrightarrow> usable e c \<and> indexed e c"
  shows "decides K (bound e) start P (Filter c fs) p (BuildCandidateList env start (Filter c fs))"
proof (unfold decides_def, intro allI impI, elim conjE)
  fix S ctx err S' ctx'
  assume S: "fresh (bound e) start P S (Filter c fs) p" "kept K S" and ctx: "iMaxScanForSizeLimit ctx = 0" "iMaxIndexScan (S p) = 0"
    and b: "BuildCandidateList env start (Filter c fs) p (S, ctx) = Some (err, S', ctx')"
  show "\<not> open_result (S' p)"
  proof (cases "computeResult (S p) = FILTER_RES_NORMAL")
    case False
    with b show ?thesis by (simp add: open_result_def)
  next
    case True
    then have "K p FILTER_RES_NORMAL" using S(2) by (metis kept_def)
    with get_law [OF e(1) _ ctx(1), of c "S p" start] i S(1) ctx(2) obtain er c' where
      "get e c (S p) start ctx = Some (er, (S p)\<lparr>candidates := Some c'\<rparr>, ctx)" by (auto simp: fresh_def)
    then have "build_leaf env start c p (S, ctx) = Some (err, S', ctx') \<Longrightarrow> candidates (S' p) = Some c'"
      using e(3) by (auto simp: build_leaf_def)
    with b True c show ?thesis by (cases c) (auto simp: build_choice_def is_item_def open_result_def)
  qed
qed

text \<open>So a conjunction with such a component ends with a list or a result.\<close>

lemma build_root:
  assumes e: "ready e" "unlimited env" "sv_get env = get e"
    and c: "covered K (usable e) (matches e) start P (Filter LDAP_FILTER_AND fs) p" "items (Filter LDAP_FILTER_AND fs) * bound e < 2 ^ 31"
    and S: "fresh (bound e) start P S (Filter LDAP_FILTER_AND fs) p" "computeResult (S p) = FILTER_RES_NORMAL" "kept K S"
      "\<not> bAncestorGotPositiveCandidateSet (S p)" and ctx: "iMaxScanForSizeLimit ctx = 0"
    and j: "j < length fs" "is_item (f_choice (fs ! j))"
      "K (j # p) FILTER_RES_NORMAL \<longrightarrow> usable e (f_choice (fs ! j)) \<and> indexed e (f_choice (fs ! j))"
  shows "\<exists>S'. BuildCandidateList env start (Filter LDAP_FILTER_AND fs) p (S, ctx) = Some (None, S', ctx) \<and>
    good (bound e) start P S' (Filter LDAP_FILTER_AND fs) p \<and> kept K S' \<and> \<not> open_result (S' p)"
proof -
  let ?ks = "enumerate 0 (zip (map f_choice fs) (map (BuildCandidateList env start) fs))"
  have comp: "and_composite LDAP_FILTER_AND" by (simp add: and_composite_def)
  have keys: "map fst ?ks = [0..<length fs]" by simp
  have kids: "kids_build K (bound e) start P fs p ?ks" by (rule kids_built [OF build_good [OF e] c(1) comp c(2)])
  have "(j, f_choice (fs ! j), BuildCandidateList env start (fs ! j)) \<in> set ?ks" using j(1) by (simp add: in_set_enumerate_eq)
  moreover have "decides K (bound e) start P (fs ! j) (j # p) (BuildCandidateList env start (fs ! j))"
    using item_decides [OF e j(2), of K "j # p" start P "f_complex (fs ! j)"] j(3) by (cases "fs ! j") simp
  ultimately have "\<exists>(i, d, b) \<in> set ?ks. decides K (bound e) start P (fs ! i) (i # p) b" by blast
  with build_and_good [OF e(2) kids keys ctx c(2) S(1-3)] c(1) S(2,4) show ?thesis by (simp add: build_choice_def) blast
qed

end


section \<open>The indices as the source of candidates\<close>

text \<open>
  The index and the key for an item; a substring filter without an initial and a final string has
  none. The outer \<open>None\<close> is an item for which the backend is not called, or that it rejects.
\<close>

definition item_key :: "scan_env \<Rightarrow> filter_choice \<Rightarrow> (string \<times> bytes) option option" where
  "item_key env c =
     (let fwd = (\<lambda>a v. map_option (\<lambda>n. Some (a, BE_INDEX_KEY_TYPE_FWD # n)) (norm_bytes v)) in
      case c of
        LDAP_FILTER_EQUALITY a \<Rightarrow> fwd (ava_type a) (ava_value a)
      | LDAP_FILTER_GE a \<Rightarrow> fwd (ava_type a) (ava_value a)
      | LDAP_FILTER_LE a \<Rightarrow> fwd (ava_type a) (ava_value a)
      | LDAP_FILTER_SUBSTRINGS ss \<Rightarrow>
          (if bv_val (ss_initial ss) \<noteq> [] then fwd (ss_type ss) (ss_initial ss)
           else if bv_val (ss_final ss) \<noteq> [] then
             map_option (\<lambda>n. Some (ss_type ss, BE_INDEX_KEY_TYPE_REV # rev n)) (norm_bytes (ss_final ss))
           else if ss_any ss \<noteq> [] then Some None else None)
      | FILTER_ONE_LEVEL_SEARCH dn \<Rightarrow>
          (case se_dn env dn of Inl e \<Rightarrow> None | Inr parentId \<Rightarrow> Some (Some (ATTR_PARENT_ID, MDBEntryIdToDBT parentId)))
      | _ \<Rightarrow> None)"

definition item_usable :: "scan_env \<Rightarrow> filter_choice \<Rightarrow> bool" where
  "item_usable env c \<longleftrightarrow>
     (case item_key env c of None \<Rightarrow> False | Some None \<Rightarrow> True
      | Some (Some (a, k)) \<Rightarrow> (is_le c \<longrightarrow> distinct (map fst (se_index env a))))"

text \<open>The entries with a record for the item.\<close>

definition item_matches :: "scan_env \<Rightarrow> filter_choice \<Rightarrow> entry_id \<Rightarrow> bool" where
  "item_matches env c x \<longleftrightarrow>
     (case item_key env c of Some (Some (a, k)) \<Rightarrow> (\<exists>r \<in> set (se_index env a). wanted c k r \<and> snd r = x) | _ \<Rightarrow> True)"

definition item_indexed :: "scan_env \<Rightarrow> filter_choice \<Rightarrow> bool" where
  "item_indexed env c \<longleftrightarrow> (case item_key env c of Some (Some (a, k)) \<Rightarrow> se_cfg env a \<noteq> Inr None | _ \<Rightarrow> False)"

text \<open>Every attribute has no index or one that can be read, with at most \<open>n\<close> records.\<close>

definition indices_ready :: "scan_env \<Rightarrow> nat \<Rightarrow> bool" where
  "indices_ready env n \<longleftrightarrow> (\<forall>m. se_mem env m) \<and>
     (\<forall>a. se_cfg env a = Inr None \<or> (\<exists>cfg. readable env a cfg \<and> length (se_index env a) \<le> n))"

lemma get_scan:
  assumes "\<forall>m. se_mem env m"
  shows "item_key env c = Some (Some (a, k)) \<Longrightarrow>
      VmDirMDBGetCandidates env c fs start ctx = scan_result (MdbScanIndex env a k c fs start ctx)"
    and "item_key env c = Some None \<Longrightarrow> VmDirMDBGetCandidates env c fs start ctx = Some (None, fs, ctx)"
  using assms
  by (cases c; auto simp: item_key_def VmDirMDBGetCandidates_def scan_value_def VmDirAllocateMemory_def Let_def split: if_splits sum.splits;
      simp add: scan_result_def MDBToBackendError_def)+

lemma scanned_listed:
  assumes "scanned maxIdx start \<lparr>eIds = Some [], cl_max = 10, positive = True, eIdsSorted = False\<rparr> rs err (Some d)"
    and "length rs \<le> n" and "n < 2 ^ 31" and "\<And>x. m x \<Longrightarrow> x \<in> snd ` set rs"
  shows "listed n start m d"
proof -
  have d: "cl_ids d = map snd (filter (\<lambda>r. start \<le> snd r) rs)" "positive d" "\<not> eIdsSorted d"
    using assms(1) by (simp_all add: scanned_def cl_ids_def)
  have "length (filter (\<lambda>r. start \<le> snd r) rs) \<le> n" using assms(2) length_filter_le order_trans by blast
  with d assms(3,4) show ?thesis by (force simp: listed_def cl_ok_def cl_size_def)
qed

interpretation mdb_source: candidate_source "\<lambda>e. VmDirMDBGetCandidates (fst e)" "\<lambda>e. indices_ready (fst e) (snd e)"
  "\<lambda>e. item_usable (fst e)" "\<lambda>e. item_matches (fst e)" "\<lambda>e. item_indexed (fst e)" snd
proof
  fix e :: "scan_env \<times> nat" and c and fs :: filter_state and start and ctx :: scan_ctx
  assume r: "indices_ready (fst e) (snd e)" and u: "item_usable (fst e) c" and ctx: "iMaxScanForSizeLimit ctx = 0" and n: "candidates fs = None"
  let ?env = "fst e" and ?n = "snd e"
  have mem: "\<forall>m. se_mem ?env m" using r by (simp add: indices_ready_def)
  consider "item_key ?env c = Some None" | a k where "item_key ?env c = Some (Some (a, k))" "se_cfg ?env a = Inr None"
    | a k cfg where "item_key ?env c = Some (Some (a, k))" "readable ?env a cfg" "length (se_index ?env a) \<le> ?n"
  proof -
    from u have "item_key ?env c = Some None \<or> (\<exists>a k. item_key ?env c = Some (Some (a, k)))"
      by (auto simp: item_usable_def split: option.splits)
    with that r show ?thesis unfolding indices_ready_def by metis
  qed
  then show "\<exists>err c'. VmDirMDBGetCandidates ?env c fs start ctx = Some (err, fs\<lparr>candidates := c'\<rparr>, ctx) \<and>
      err \<in> {None, Some VMDIR_ERROR_BACKEND_ENTRY_NOTFOUND} \<and> pred_option (listed ?n start (item_matches ?env c)) c' \<and>
      (item_indexed ?env c \<and> iMaxIndexScan fs = 0 \<longrightarrow> c' \<noteq> None)"
  proof cases
    case 1
    with get_scan(2) [OF mem] n show ?thesis by (intro exI [of _ None]) (simp add: n item_indexed_def)
  next
    case 2
    with get_scan(1) [OF mem] n show ?thesis
      by (intro exI [of _ None]) (simp add: MdbScanIndex_def scan_result_def MDBToBackendError_def Let_def item_indexed_def)
  next
    case (3 a k cfg)
    have le: "is_le c \<Longrightarrow> distinct (map fst (se_index ?env a))" using u 3(1) by (simp add: item_usable_def)
    from MdbScanIndex_scans [where ch = c and k = k and fs = fs and start = start, OF 3(2) ctx le] obtain err c' rs where
      s: "MdbScanIndex ?env a k c fs start ctx = Some (err, fs\<lparr>candidates := c'\<rparr>, ctx)" "err \<in> {None, Some MDB_NOTFOUND}"
      "scanned (iMaxIndexScan fs) start \<lparr>eIds = Some [], cl_max = 10, positive = True, eIdsSorted = False\<rparr> rs
        (if err = None then None else Some MDB_NOTFOUND) c'"
      "set (filter (wanted c k) (se_index ?env a)) \<subseteq> set rs" "length rs \<le> length (se_index ?env a)" by blast
    have "listed (length (se_index ?env a)) start (item_matches ?env c) d" if "c' = Some d" for d
    proof (rule scanned_listed)
      show "length (se_index ?env a) < 2 ^ 31" using 3(2) by (simp add: readable_def)
      show "x \<in> snd ` set rs" if "item_matches ?env c x" for x using that s(4) 3(1) by (force simp: item_matches_def)
    qed (use s(3,5) that in auto)
    then have "pred_option (listed ?n start (item_matches ?env c)) c'"
      using 3(3) by (cases c') (auto simp: listed_def)
    moreover have "c' \<noteq> None" if "iMaxIndexScan fs = 0" using that s(3) by (cases c') (auto simp: scanned_def)
    ultimately show ?thesis using s(1,2) get_scan(1) [OF mem 3(1)]
      by (intro exI [of _ "map_option (\<lambda>_. VMDIR_ERROR_BACKEND_ENTRY_NOTFOUND) err"] exI [of _ c'])
        (auto simp: scan_result_def MDBToBackendError_def)
  qed
qed

end
