(* ===== verification/Search_Result.thy ===== *)
theory Search_Result
  imports Search_Build
begin

text \<open>
  What a search sends: the entries that pass its filter, as if all entries of the directory had been
  tested. The candidate list contains them and the test of each candidate removes the others.
\<close>

section \<open>The filter of a search and its values\<close>

fun sub_at :: "ldap_filter \<Rightarrow> nat list \<Rightarrow> ldap_filter option" where
  "sub_at f [] = Some f"
| "sub_at f (i # q) = (if i < length (f_complex f) then sub_at (f_complex f ! i) q else None)"

definition node :: "ldap_filter \<Rightarrow> path \<Rightarrow> ldap_filter option" where
  "node f p = sub_at f (rev p)"

lemma sub_at_append: "sub_at f (q @ [i]) =
    (case sub_at f q of None \<Rightarrow> None | Some g \<Rightarrow> if i < length (f_complex g) then Some (f_complex g ! i) else None)"
  by (induction f q rule: sub_at.induct) auto

lemma node_Nil [simp]: "node f [] = Some f"
  by (simp add: node_def)

lemma node_kid: "node f p = Some (Filter c fs) \<Longrightarrow> i < length fs \<Longrightarrow> node f (i # p) = Some (fs ! i)"
  by (simp add: node_def sub_at_append)

text \<open>Entry \<open>x\<close> passes the filter at \<open>p\<close>, by the value that RFC 4511 defines for it.\<close>

definition passes ::
  "schema \<Rightarrow> (entry_id \<Rightarrow> vmdir_error + dir_entry) \<Rightarrow> (path \<Rightarrow> filter_res) \<Rightarrow> ldap_filter \<Rightarrow> path \<Rightarrow> entry_id \<Rightarrow> bool" where
  "passes sch ent cr f p x \<longleftrightarrow>
     (case (node f p, ent x) of
        (Some g, Inr e) \<Rightarrow> rfc_filter (leaf_value sch e cr) g p = FILTER_RES_TRUE
      | _ \<Rightarrow> False)"

text \<open>
  The values that \<open>computeResult\<close> takes while the lists are built: those of items stay, and a test
  for presence treats the ones it may take alike.
\<close>

definition kept_result :: "(path \<Rightarrow> filter_res) \<Rightarrow> ldap_filter \<Rightarrow> path \<Rightarrow> filter_res \<Rightarrow> bool" where
  "kept_result cr f p r \<longleftrightarrow>
     (case node f p of
        None \<Rightarrow> True
      | Some g \<Rightarrow> composite (f_choice g) \<or> r = cr p \<or>
          (case f_choice g of LDAP_FILTER_PRESENT a \<Rightarrow> {r, cr p} \<subseteq> {FILTER_RES_NORMAL, FILTER_RES_TRUE} | _ \<Rightarrow> False))"

lemma rfc_kid_and: "rfc_filter leaf (Filter LDAP_FILTER_AND fs) p = FILTER_RES_TRUE \<Longrightarrow> i < length fs \<Longrightarrow>
    rfc_filter leaf (fs ! i) (i # p) = FILTER_RES_TRUE"
  by (force simp: rfc_and_def Let_def set_conv_nth nth_enumerate_eq split: if_splits)

lemma rfc_kid_or:
  assumes "rfc_filter leaf (Filter LDAP_FILTER_OR fs) p = FILTER_RES_TRUE"
  shows "\<exists>i < length fs. rfc_filter leaf (fs ! i) (i # p) = FILTER_RES_TRUE"
proof -
  have "FILTER_RES_TRUE \<in> set (map (\<lambda>(i, f). f (i # p)) (enumerate 0 (map (rfc_filter leaf) fs)))"
    using assms by (auto simp: rfc_or_def Let_def split: if_splits)
  then show ?thesis by (auto simp: set_conv_nth nth_enumerate_eq)
qed

text \<open>What the indices have to contain for the items of a filter.\<close>

definition complete ::
  "(filter_choice \<Rightarrow> bool) \<Rightarrow> (filter_choice \<Rightarrow> entry_id \<Rightarrow> bool) \<Rightarrow> entry_id \<Rightarrow> schema \<Rightarrow> (entry_id \<Rightarrow> vmdir_error + dir_entry) \<Rightarrow>
     (path \<Rightarrow> filter_res) \<Rightarrow> ldap_filter \<Rightarrow> bool" where
  "complete usable matches start sch ent cr f \<longleftrightarrow>
     (\<forall>p c fs. node f p = Some (Filter c fs) \<and> is_item c \<and> cr p = FILTER_RES_NORMAL \<longrightarrow>
        usable c \<and> (\<forall>x e. start \<le> x \<and> ent x = Inr e \<and> check_choice sch e c [] FILTER_RES_NORMAL p = Some FILTER_RES_TRUE \<longrightarrow> matches c x))"

text \<open>The fields of a filter as they are when the search starts.\<close>

definition started :: "store \<Rightarrow> ldap_filter \<Rightarrow> bool" where
  "started S f \<longleftrightarrow> (\<forall>p g. node f p = Some g \<longrightarrow>
     candidates (S p) = None \<and> (composite (f_choice g) \<longrightarrow> computeResult (S p) = FILTER_RES_NORMAL))"

definition tested :: "schema \<Rightarrow> (entry_id \<Rightarrow> vmdir_error + dir_entry) \<Rightarrow> (path \<Rightarrow> filter_res) \<Rightarrow> ldap_filter \<Rightarrow> bool" where
  "tested sch ent cr f \<longleftrightarrow> (\<forall>x e. ent x = Inr e \<longrightarrow> well_tested sch e cr f [])"

lemma well_tested_kid: "well_tested sch e cr (Filter c fs) p \<Longrightarrow> composite c \<Longrightarrow> i < length fs \<Longrightarrow> well_tested sch e cr (fs ! i) (i # p)"
  by (auto simp: list_all_length nth_enumerate_eq)

lemma and_composite: "and_composite c \<Longrightarrow> composite c"
  by (auto simp: and_composite_def composite_def)

lemma rfc_item: "\<not> composite c \<Longrightarrow> rfc_filter leaf (Filter c fs) p = leaf c p"
  by (cases c) (auto simp: composite_def)

lemma covered_passes:
  assumes "complete usable matches start sch ent cr f"
  shows "node f p = Some g \<Longrightarrow> \<forall>x e. ent x = Inr e \<longrightarrow> well_tested sch e cr g p \<Longrightarrow>
     covered (kept_result cr f) usable matches start (passes sch ent cr f) g p"
proof (induction g arbitrary: p)
  case (Filter c fs)
  have kids: "list_all (\<lambda>(i, g). g (i # p)) (enumerate 0 (map (covered (kept_result cr f) usable matches start (passes sch ent cr f)) fs))"
    if "and_composite c"
  proof -
    have "covered (kept_result cr f) usable matches start (passes sch ent cr f) (fs ! i) (i # p)" if i: "i < length fs" for i
    proof (rule Filter.IH)
      show "\<forall>x e. ent x = Inr e \<longrightarrow> well_tested sch e cr (fs ! i) (i # p)"
        using Filter.prems(2) well_tested_kid [OF _ and_composite [OF \<open>and_composite c\<close>] i] by blast
    qed (use i node_kid [OF Filter.prems(1) i] in auto)
    then show ?thesis by (simp add: list_all_length nth_enumerate_eq)
  qed
  have K: "composite c \<Longrightarrow> kept_result cr f p r"
    "c = LDAP_FILTER_PRESENT a \<Longrightarrow> kept_result cr f p FILTER_RES_NORMAL \<Longrightarrow> kept_result cr f p FILTER_RES_TRUE" for r a
    using Filter.prems(1) by (auto simp: kept_result_def)
  have item: "kept_result cr f p FILTER_RES_NORMAL \<longrightarrow> usable c \<and> (\<forall>x. start \<le> x \<and> passes sch ent cr f p x \<longrightarrow> matches c x)"
    if c: "is_item c" "\<not> composite c"
  proof (intro impI conjI allI)
    assume "kept_result cr f p FILTER_RES_NORMAL"
    then have n: "cr p = FILTER_RES_NORMAL"
      using Filter.prems(1) c by (cases c) (auto simp: kept_result_def is_item_def)
    with assms Filter.prems(1) c(1) show "usable c" unfolding complete_def by blast
    fix x assume x: "start \<le> x \<and> passes sch ent cr f p x"
    then obtain e where e: "ent x = Inr e" "leaf_value sch e cr c p = FILTER_RES_TRUE"
      using Filter.prems(1) rfc_item [OF c(2)] by (auto simp: passes_def split: sum.splits)
    moreover have "check_choice sch e c [] FILTER_RES_NORMAL p \<noteq> None" using Filter.prems(2) e(1) c(2) n by auto
    ultimately have "check_choice sch e c [] FILTER_RES_NORMAL p = Some FILTER_RES_TRUE" using n by (auto simp: leaf_value_def)
    with assms Filter.prems(1) c(1) n x e(1) show "matches c x" unfolding complete_def by blast
  qed
  show ?case
  proof (cases c)
    case LDAP_FILTER_AND
    have "passes sch ent cr f (i # p) x" if "passes sch ent cr f p x" "i < length fs" for i x
      using that Filter.prems(1) node_kid [OF Filter.prems(1) that(2)] rfc_kid_and [of _ fs p i] LDAP_FILTER_AND
      by (auto simp: passes_def split: sum.splits simp del: rfc_filter.simps)
    with kids LDAP_FILTER_AND K(1) show ?thesis by (auto simp: composite_def and_composite_def)
  next
    case LDAP_FILTER_OR
    have "\<exists>i < length fs. passes sch ent cr f (i # p) x" if x: "passes sch ent cr f p x" for x
    proof -
      obtain e where e: "ent x = Inr e" "rfc_filter (leaf_value sch e cr) (Filter c fs) p = FILTER_RES_TRUE"
        using x Filter.prems(1) by (auto simp: passes_def split: sum.splits simp del: rfc_filter.simps)
      then obtain i where "i < length fs" "rfc_filter (leaf_value sch e cr) (fs ! i) (i # p) = FILTER_RES_TRUE"
        using rfc_kid_or LDAP_FILTER_OR by blast
      with e(1) node_kid [OF Filter.prems(1)] show ?thesis by (intro exI [of _ i]) (simp add: passes_def)
    qed
    with kids LDAP_FILTER_OR K(1) show ?thesis by (auto simp: composite_def and_composite_def)
  qed (use item K in \<open>auto simp: composite_def and_composite_def is_item_def\<close>)
qed

lemma not_passing:
  assumes "node f p = Some (Filter c fs)" and "\<not> composite c" and "cr p \<in> {FILTER_RES_FALSE, FILTER_RES_UNDEFINED}"
  shows "\<not> passes sch ent cr f p x"
  using assms
  by (cases c) (auto simp: passes_def rfc_item composite_def leaf_value_def check_choice_def TestAvaFilter_def TestSubstringsFilter_def
      TestPresentFilter_def TestOneLevelFilter_def split: sum.splits)

lemma fresh_started:
  assumes S: "started S f" and cr: "cr = (\<lambda>p. computeResult (S p))"
  shows "node f p = Some g \<Longrightarrow> fresh cap start (passes sch ent cr f) S g p"
proof (induction g arbitrary: p)
  case (Filter c fs)
  have n: "candidates (S p) = None" "composite c \<Longrightarrow> computeResult (S p) = FILTER_RES_NORMAL"
    using S Filter.prems by (auto simp: started_def)
  have "allows (S p) x" if "passes sch ent cr f p x" for x
    using n not_passing [OF Filter.prems, of cr sch ent x] that cr by (cases "computeResult (S p)") (auto simp: allows_def)
  moreover have "fresh cap start (passes sch ent cr f) S (fs ! i) (i # p)" if "i < length fs" for i
    using Filter.IH [of "fs ! i" "i # p"] node_kid [OF Filter.prems that] that by simp
  ultimately show ?case using n(1) by (simp add: fresh_def good_iff node_good_def st_ok_def st_pos_def st_size_def)
qed

lemma kept_started: "kept (kept_result (\<lambda>p. computeResult (S p)) f) S"
  by (simp add: kept_def kept_result_def split: option.splits)

text \<open>The tests of the entries do not see the results of the lists.\<close>

lemma check_components_cong:
  "length fs = length gs \<Longrightarrow> \<forall>j < length fs. (fs ! j) ((i + j) # p) = (gs ! j) ((i + j) # p) \<Longrightarrow>
     check_components a fs i p u r = check_components a gs i p u r"
proof (induction fs arbitrary: gs i u r)
  case (Cons f fs)
  then obtain g gs' where gs: "gs = g # gs'" "length fs = length gs'" by (cases gs) auto
  have "f (i # p) = g (i # p)" using Cons.prems(2) gs by force
  moreover have "\<forall>j < length fs. (fs ! j) ((i + 1 + j) # p) = (gs' ! j) ((i + 1 + j) # p)" using Cons.prems(2) gs by force
  from Cons.IH [OF gs(2) this] have "check_components a fs (i + 1) p u r = check_components a gs' (i + 1) p u r" for u r .
  ultimately show ?case using gs(1) by (cases "g (i # p)") auto
qed simp

lemma check_kept:
  assumes k: "kept (kept_result cr f) S"
  shows "node f p = Some g \<Longrightarrow>
     CheckIfEntryPassesFilter sch e (\<lambda>q. computeResult (S q)) g p = CheckIfEntryPassesFilter sch e cr g p"
proof (induction g arbitrary: p)
  case (Filter c fs)
  let ?f = "CheckIfEntryPassesFilter sch e (\<lambda>q. computeResult (S q))" and ?g = "CheckIfEntryPassesFilter sch e cr"
  have kid: "?f (fs ! i) (i # p) = ?g (fs ! i) (i # p)" if "i < length fs" for i
    using Filter.IH node_kid [OF Filter.prems that] that by simp
  have comps: "check_components a (map ?f fs) 0 p u r = check_components a (map ?g fs) 0 p u r" for a u r
    by (rule check_components_cong) (auto simp: kid)
  have not: "(case map ?f fs of [] \<Rightarrow> None | h # _ \<Rightarrow> map_option k (h (0 # p))) =
      (case map ?g fs of [] \<Rightarrow> None | h # _ \<Rightarrow> map_option k (h (0 # p)))" for k :: "filter_res \<Rightarrow> filter_res"
    using kid [of 0] by (cases fs) auto
  have "kept_result cr f p (computeResult (S p))" using k by (simp add: kept_def)
  with Filter.prems have "composite c \<or> computeResult (S p) = cr p \<or>
      (\<exists>a. c = LDAP_FILTER_PRESENT a \<and> {computeResult (S p), cr p} \<subseteq> {FILTER_RES_NORMAL, FILTER_RES_TRUE})"
    by (cases c) (auto simp: kept_result_def)
  then show ?case
    by (cases c) (auto simp: check_choice_def comps not composite_def TestPresentFilter_def)
qed


section \<open>The entries sent\<close>

text \<open>Every entry that passes is sent.\<close>

definition delivers :: "send_env \<Rightarrow> bool" where
  "delivers env \<longleftrightarrow> (\<forall>i. \<not> sn_shutdown env i) \<and> (\<forall>x. sn_computed env x = None \<and> sn_send env x = (None, True)) \<and> (\<forall>n. sn_alloc env n = None)"

definition accepted :: "send_env \<Rightarrow> (dir_entry \<Rightarrow> filter_res option) \<Rightarrow> entry_id \<Rightarrow> bool" where
  "accepted env check x = (case sn_entry env x of Inl e \<Rightarrow> False | Inr e \<Rightarrow> check e = Some FILTER_RES_TRUE)"

definition returns :: "send_env \<Rightarrow> (dir_entry \<Rightarrow> filter_res option) \<Rightarrow> entry_id \<Rightarrow> bool" where
  "returns env check x = (case sn_entry env x of Inl e \<Rightarrow> True | Inr e \<Rightarrow> check e \<noteq> None)"

text \<open>
  The error of a candidate that cannot be read is dropped when the next one is read, but is the
  result of the loop after the last one.
\<close>

lemma process_loop_all:
  assumes "delivers env"
  shows "\<forall>x \<in> set xs. returns env check x \<Longrightarrow>
     process_loop env check 0 None i xs ret sent =
       Some (if xs = [] then ret else case sn_entry env (last xs) of Inl e \<Rightarrow> Some e | Inr e \<Rightarrow> None,
             sent @ filter (accepted env check) xs, Loop_Done)"
proof (induction xs arbitrary: i ret sent)
  case (Cons x xs)
  have IH: "process_loop env check 0 None j xs r ys =
      Some (if xs = [] then r else case sn_entry env (last xs) of Inl e \<Rightarrow> Some e | Inr e \<Rightarrow> None,
            ys @ filter (accepted env check) xs, Loop_Done)" for j r ys
    using Cons by simp
  show ?case
  proof (cases "sn_entry env x")
    case (Inl e)
    with assms IH show ?thesis by (simp add: delivers_def accepted_def [of env check x])
  next
    case (Inr e)
    with Cons.prems obtain r where r: "check e = Some r" by (auto simp: returns_def)
    show ?thesis
    proof (cases "r = FILTER_RES_TRUE")
      case True
      with assms IH Inr r show ?thesis by (simp add: delivers_def send_entry_def accepted_def [of env check x])
    next
      case False
      with assms IH Inr r show ?thesis by (simp add: delivers_def accepted_def [of env check x])
    qed
  qed
qed simp

lemma process_all:
  assumes d: "delivers env" and r: "\<forall>x. returns env check x"
  shows "\<exists>ret. ProcessCandidateList env check 0 None set_cookie cl part s =
      Some (ret, case cl of None \<Rightarrow> [] | Some c \<Rightarrow> filter (accepted env check) (cl_ids c), '''', s) \<and>
      (ret = None \<or> (\<exists>x e. sn_entry env x = Inl e \<and> ret = Some e))"
proof (cases "case cl of None \<Rightarrow> True | Some c \<Rightarrow> cl_size c = 0")
  case True
  then show ?thesis by (cases cl) (auto simp: ProcessCandidateList_def page_of_def cl_size_0)
next
  case False
  then obtain c where c: "cl = Some c" "cl_size c \<noteq> 0" by (cases cl) auto
  from process_loop_all [OF d, of "cl_ids c" check 0 None "[]"] r obtain ret where
    "process_loop env check 0 None 0 (cl_ids c) None [] = Some (ret, filter (accepted env check) (cl_ids c), Loop_Done)"
    "ret = None \<or> (\<exists>x e. sn_entry env x = Inl e \<and> ret = Some e)" by (auto split: sum.splits if_splits)
  with c d show ?thesis by (auto simp: ProcessCandidateList_def page_of_def delivers_def Let_def)
qed

text \<open>An entry is accepted if it passes the filter.\<close>

lemma accepted_passes:
  assumes k: "kept (kept_result cr f) S" and t: "tested sch (sn_entry env) cr f"
  shows "returns env (\<lambda>e. CheckIfEntryPassesFilter sch e (\<lambda>p. computeResult (S p)) f []) x"
    and "accepted env (\<lambda>e. CheckIfEntryPassesFilter sch e (\<lambda>p. computeResult (S p)) f []) x = passes sch (sn_entry env) cr f [] x"
proof -
  have "CheckIfEntryPassesFilter sch e (\<lambda>p. computeResult (S p)) f [] = Some (rfc_filter (leaf_value sch e cr) f [])"
    if "sn_entry env x = Inr e" for e
    using check_kept [OF k, of "[]" f sch e] check_is_rfc [of sch e cr f "[]"] t that by (simp add: tested_def)
  then show "returns env (\<lambda>e. CheckIfEntryPassesFilter sch e (\<lambda>p. computeResult (S p)) f []) x"
    "accepted env (\<lambda>e. CheckIfEntryPassesFilter sch e (\<lambda>p. computeResult (S p)) f []) x = passes sch (sn_entry env) cr f [] x"
    by (auto simp: returns_def accepted_def passes_def split: sum.splits)
qed


text \<open>A directory with the entries of the index above, and the filter \<open>(&(cn=ab)(cn=*))\<close>.\<close>

definition named :: "bytes \<Rightarrow> dir_entry" where
  "named b = \<lparr>e_dn = plain [1], e_attrs = [(''cn'', [plain b])]\<rparr>"

definition name_entry :: "entry_id \<Rightarrow> vmdir_error + dir_entry" where
  "name_entry x =
     (if x = 3 \<or> x = 5 then Inr (named [97, 98]) else if x = 4 then Inr (named [98]) else Inl VMDIR_ERROR_BACKEND_ENTRY_NOTFOUND)"

definition name_send :: send_env where
  "name_send = \<lparr>sn_entry = name_entry, sn_computed = (\<lambda>x. None), sn_send = (\<lambda>x. (None, True)), sn_shutdown = (\<lambda>i. False),
     sn_alloc = (\<lambda>n. None), sn_internal = False, sn_inMem = False, bPagedSearchReadAhead = False\<rparr>"

definition name_search :: search_env where
  "name_search = \<lparr>sv_mem = (\<lambda>n. True), sv_cfg = (\<lambda>a. Inr (Some text_index)), sv_get = VmDirMDBGetCandidates name_scan,
     sv_label = (\<lambda>c n. None), dwMaxIndexScan = 512, dwSmallCandidateSet = 32, dwMaxSizelimitScan = 1024, sv_sizeLimit = 0, sv_paged = False\<rparr>"

definition cn_ab :: filter_choice where
  "cn_ab = LDAP_FILTER_EQUALITY (cn_ava [97, 98])"

definition name_filter :: ldap_filter where
  "name_filter = Filter LDAP_FILTER_AND [Filter cn_ab [], Filter (LDAP_FILTER_PRESENT ''cn'') []]"

lemma cn_ab_simps [simp]:
  "\<not> is_le cn_ab" "exact_match cn_ab" "is_item cn_ab" "\<not> composite cn_ab" "\<not> and_composite cn_ab"
  "cn_ab \<noteq> LDAP_FILTER_AND" "cn_ab \<noteq> LDAP_FILTER_OR" "cn_ab \<noteq> LDAP_FILTER_NOT"
  by (simp_all add: cn_ab_def is_le_def exact_match_def is_item_def composite_def and_composite_def)

lemma name_nodes:
  assumes "node name_filter p = Some g"
  shows "p = [] \<and> g = name_filter \<or> p = [0] \<and> g = Filter cn_ab [] \<or> p = [1] \<and> g = Filter (LDAP_FILTER_PRESENT ''cn'') []"
proof (cases "rev p")
  case Nil
  with assms show ?thesis by (simp add: node_def)
next
  case (Cons i q)
  then have p: "p = rev q @ [i]" by (metis rev_rev_ident rev.simps(2))
  with assms show ?thesis by (cases q) (auto simp: node_def name_filter_def less_Suc_eq split: if_splits)
qed

lemma cn_same: "same_type ''cn'' ''cn''"
  by code_simp

lemma name_check:
  assumes "b \<in> {[97, 98], [98]}"
  shows "check_choice byte_schema (named b) cn_ab [] FILTER_RES_NORMAL p = Some (if b = [97, 98] then FILTER_RES_TRUE else FILTER_RES_FALSE)"
  using assms cn_same
  by (auto simp: cn_ab_def named_def cn_ava_def byte_desc_def plain_def byte_schema_def check_choice_def TestAvaFilter_def
      compare_values_def memcmp_def normalized_def BERVAL_NORM_VAL_def BERVAL_NORM_LEN_def)

lemma name_key: "item_key name_scan cn_ab = Some (Some (''cn'', [48, 97, 98]))"
  by (simp add: cn_ab_def item_key_def norm_bytes_def name_scan_def cn_ava_def plain_def BERVAL_NORM_LEN_def BERVAL_NORM_VAL_def
      BE_INDEX_KEY_TYPE_FWD_def)

lemma name_index:
  "se_index name_scan a = [([48, 97, 98], 3), ([48, 97, 98], 5), ([48, 98], 4), ([49, 98], 4), ([49, 98, 97], 3), ([49, 98, 97], 5)]"
  by (simp add: name_scan_def)

lemma name_ready: "indices_ready name_scan 6"
proof -
  have "readable name_scan a text_index" for a by (simp add: readable_def name_scan_def index_ok_def text_index_def)
  moreover have "length (se_index name_scan a) \<le> 6" for a by (simp add: name_index)
  ultimately show ?thesis unfolding indices_ready_def readable_def by blast
qed

lemma name_complete:
  "complete (item_usable name_scan) (item_matches name_scan) 0 byte_schema name_entry (\<lambda>p. FILTER_RES_NORMAL) name_filter"
proof (unfold complete_def, intro allI impI)
  fix p c fs
  assume "node name_filter p = Some (Filter c fs) \<and> is_item c \<and> FILTER_RES_NORMAL = FILTER_RES_NORMAL"
  then have c: "c = cn_ab" using name_nodes [of p "Filter c fs"] by (auto simp: name_filter_def is_item_def)
  have "item_usable name_scan c" by (simp add: c item_usable_def name_key)
  moreover have "item_matches name_scan c x" if "name_entry x = Inr e" "check_choice byte_schema e c [] FILTER_RES_NORMAL p = Some FILTER_RES_TRUE" for x e
    using that by (auto simp: c name_entry_def name_check item_matches_def name_key wanted_def name_index
        split: if_splits)
  ultimately show "item_usable name_scan c \<and> (\<forall>x e. 0 \<le> x \<and> name_entry x = Inr e \<and>
      check_choice byte_schema e c [] FILTER_RES_NORMAL p = Some FILTER_RES_TRUE \<longrightarrow> item_matches name_scan c x)" by blast
qed

lemma name_rfc:
  assumes "b \<in> {[97, 98], [98]}"
  shows "well_tested byte_schema (named b) (\<lambda>p. FILTER_RES_NORMAL) name_filter []"
    and "rfc_filter (leaf_value byte_schema (named b) (\<lambda>p. FILTER_RES_NORMAL)) name_filter [] = FILTER_RES_TRUE \<longleftrightarrow> b = [97, 98]"
proof -
  have present: "check_choice byte_schema (named b) (LDAP_FILTER_PRESENT ''cn'') [] FILTER_RES_NORMAL p = Some FILTER_RES_TRUE" for p
    using cn_same by (simp add: check_choice_def TestPresentFilter_def named_def)
  show "well_tested byte_schema (named b) (\<lambda>p. FILTER_RES_NORMAL) name_filter []"
    using name_check [OF assms] present by (simp add: name_filter_def composite_def)
  show "rfc_filter (leaf_value byte_schema (named b) (\<lambda>p. FILTER_RES_NORMAL)) name_filter [] = FILTER_RES_TRUE \<longleftrightarrow> b = [97, 98]"
  proof -
    let ?L = "leaf_value byte_schema (named b) (\<lambda>p. FILTER_RES_NORMAL)"
    have "rfc_filter ?L (Filter cn_ab []) [0] = ?L cn_ab [0]" "rfc_filter ?L (Filter (LDAP_FILTER_PRESENT ''cn'') []) [1] = ?L (LDAP_FILTER_PRESENT ''cn'') [1]"
      by (rule rfc_item, simp add: composite_def)+
    moreover have "?L cn_ab [0] = (if b = [97, 98] then FILTER_RES_TRUE else FILTER_RES_FALSE)" "?L (LDAP_FILTER_PRESENT ''cn'') [1] = FILTER_RES_TRUE"
      using name_check [OF assms] present by (simp_all add: leaf_value_def)
    ultimately show ?thesis unfolding name_filter_def by (subst rfc_filter.simps) (simp add: rfc_and_def del: rfc_filter.simps)
  qed
qed


end
