(* ===== verification/Filter_String.thy ===== *)
theory Filter_String
  imports Search_Result
begin

text \<open>
  The text of a filter, with which the server keeps the filter of a paged search
  (\<open>FilterToStrFilter\<close> and \<open>RequiredSizeForStrFilter\<close> of \<open>lwraft/server/ldap-head/filter.c\<close>). The
  text is written to a block of the computed size; the bytes of a value end at its first zero byte.
\<close>


section \<open>The buffer\<close>

text \<open>A block and the number of bytes written; \<open>None\<close> is a write outside the block.\<close>

type_synonym str_buffer = "bytes \<times> nat"

definition c_string :: "bytes \<Rightarrow> bytes" where
  "c_string b = takeWhile (\<lambda>x. x \<noteq> 0) b"

definition chars :: "string \<Rightarrow> bytes" where
  "chars s = map of_char s"

definition VmDirStringPrintFA :: "nat \<Rightarrow> nat \<Rightarrow> bytes \<Rightarrow> bytes \<Rightarrow> bytes option" where
  "VmDirStringPrintFA pos n text buf =
     (let out = (if n = 0 then [] else take (n - 1) text @ [0]) in
      if pos + length out \<le> length buf then Some (take pos buf @ out @ drop (pos + length out) buf) else None)"

text \<open>A print of at most \<open>adv + 1\<close> bytes at the end, after which \<open>adv\<close> bytes count as written.\<close>

definition print :: "nat \<Rightarrow> bytes \<Rightarrow> str_buffer \<Rightarrow> str_buffer option" where
  "print adv text st = map_option (\<lambda>b. (b, snd st + adv)) (VmDirStringPrintFA (snd st) (adv + 1) text (fst st))"

definition put_char :: "byte \<Rightarrow> str_buffer \<Rightarrow> str_buffer option" where
  "put_char c st = (if snd st < length (fst st) then Some ((fst st)[snd st := c], snd st + 1) else None)"

section \<open>Printing a filter\<close>

definition star :: byte where "star = 0x2A"

definition print_ava :: "bytes \<Rightarrow> ava \<Rightarrow> str_buffer \<Rightarrow> str_buffer option" where
  "print_ava oper a =
     print (1 + length (ava_type a) + length oper + length (bv_val (ava_value a)) + 1)
       (chars ''('' @ c_string (chars (ava_type a)) @ oper @ c_string (bv_val (ava_value a)) @ chars '')'')"

fun print_any :: "berval list \<Rightarrow> str_buffer \<Rightarrow> str_buffer option" where
  "print_any [] st = Some st"
| "print_any (v # vs) st = do { st1 \<leftarrow> print (length (bv_val v) + 1) (c_string (bv_val v) @ [star]) st; print_any vs st1 }"

definition print_part :: "berval \<Rightarrow> str_buffer \<Rightarrow> str_buffer option" where
  "print_part v st = (if length (bv_val v) \<noteq> 0 then print (length (bv_val v)) (c_string (bv_val v)) st else Some st)"

definition print_sub :: "sub_strings \<Rightarrow> str_buffer \<Rightarrow> str_buffer option" where
  "print_sub ss st =
     do {
       st1 \<leftarrow> print (1 + length (ss_type ss) + 1) (chars ''('' @ c_string (chars (ss_type ss)) @ chars ''='') st;
       st2 \<leftarrow> print_part (ss_initial ss) st1;
       st3 \<leftarrow> put_char star st2;
       st4 \<leftarrow> print_any (ss_any ss) st3;
       st5 \<leftarrow> (if fst st4 ! (snd st4 - 1) \<noteq> star then put_char star st4 else Some st4);
       st6 \<leftarrow> print_part (ss_final ss) st5;
       print 1 (chars '')'') st6
     }"

fun print_all :: "(str_buffer \<Rightarrow> str_buffer option) list \<Rightarrow> str_buffer \<Rightarrow> str_buffer option" where
  "print_all [] st = Some st"
| "print_all (f # fs) st = do { st1 \<leftarrow> f st; print_all fs st1 }"

definition print_choice :: "filter_choice \<Rightarrow> (str_buffer \<Rightarrow> str_buffer option) list \<Rightarrow> str_buffer \<Rightarrow> str_buffer option" where
  "print_choice c fs st =
     (case c of
        LDAP_FILTER_AND \<Rightarrow> do { st1 \<leftarrow> print 2 (chars ''(&'') st; st2 \<leftarrow> print_all fs st1; print 1 (chars '')'') st2 }
      | LDAP_FILTER_OR \<Rightarrow> do { st1 \<leftarrow> print 2 (chars ''(|'') st; st2 \<leftarrow> print_all fs st1; print 1 (chars '')'') st2 }
      | LDAP_FILTER_NOT \<Rightarrow>
          do {
            st1 \<leftarrow> print 2 (chars ''(!'') st;
            st2 \<leftarrow> (case fs of [] \<Rightarrow> None | f # _ \<Rightarrow> f st1);
            print 1 (chars '')'') st2
          }
      | LDAP_FILTER_EQUALITY a \<Rightarrow> print_ava (chars ''='') a st
      | LDAP_FILTER_GE a \<Rightarrow> print_ava (chars ''>='') a st
      | LDAP_FILTER_LE a \<Rightarrow> print_ava (chars ''<='') a st
      | LDAP_FILTER_SUBSTRINGS ss \<Rightarrow> print_sub ss st
      | LDAP_FILTER_PRESENT a \<Rightarrow> print (1 + length a + 3) (chars ''('' @ c_string (chars a) @ chars ''=*)'') st
      | FILTER_ONE_LEVEL_SEARCH dn \<Rightarrow> Some st
      | LDAP_FILTER_OTHER \<Rightarrow> Some st)"

primrec print_filter :: "ldap_filter \<Rightarrow> str_buffer \<Rightarrow> str_buffer option" where
  "print_filter (Filter c fs) = print_choice c (map print_filter fs)"

fun add_sizes :: "nat option list \<Rightarrow> nat \<Rightarrow> nat option" where
  "add_sizes [] n = Some n"
| "add_sizes (r # rs) n = do { k \<leftarrow> r; add_sizes rs (n + k) }"

definition required_choice :: "filter_choice \<Rightarrow> nat option list \<Rightarrow> nat option" where
  "required_choice c rs =
     (case c of
        LDAP_FILTER_AND \<Rightarrow> add_sizes rs 3
      | LDAP_FILTER_OR \<Rightarrow> add_sizes rs 3
      | LDAP_FILTER_NOT \<Rightarrow> (case rs of [] \<Rightarrow> None | r # _ \<Rightarrow> map_option ((+) 3) r)
      | LDAP_FILTER_EQUALITY a \<Rightarrow> Some (length (ava_type a) + length (bv_val (ava_value a)) + 3)
      | LDAP_FILTER_GE a \<Rightarrow> Some (length (ava_type a) + length (bv_val (ava_value a)) + 4)
      | LDAP_FILTER_LE a \<Rightarrow> Some (length (ava_type a) + length (bv_val (ava_value a)) + 4)
      | LDAP_FILTER_SUBSTRINGS ss \<Rightarrow>
          Some (length (ss_type ss) + 3 + (length (bv_val (ss_initial ss)) + 1) + sum_list (map (\<lambda>v. length (bv_val v) + 2) (ss_any ss)) +
                (length (bv_val (ss_final ss)) + 1))
      | LDAP_FILTER_PRESENT a \<Rightarrow> Some (length a + 4)
      | FILTER_ONE_LEVEL_SEARCH dn \<Rightarrow> Some 0
      | LDAP_FILTER_OTHER \<Rightarrow> Some 0)"

primrec RequiredSizeForStrFilter :: "ldap_filter \<Rightarrow> nat option" where
  "RequiredSizeForStrFilter (Filter c fs) = required_choice c (map RequiredSizeForStrFilter fs)"

text \<open>With no block yet, as every caller has it, the block is allocated first; its bytes are zero.\<close>

definition FilterToStrFilter :: "(nat \<Rightarrow> bool) \<Rightarrow> ldap_filter \<Rightarrow> (rc \<times> str_buffer option) option" where
  "FilterToStrFilter mem f =
     do {
       requiredSize \<leftarrow> RequiredSizeForStrFilter f;
       case VmDirAllocateMemory mem (requiredSize + 1) of
         Some e \<Rightarrow> Some (Some e, None)
       | None \<Rightarrow> map_option (\<lambda>st. (None, Some st)) (print_filter f (replicate (requiredSize + 1) 0, 0))
     }"

section \<open>The text of a filter\<close>

definition show_ava :: "string \<Rightarrow> ava \<Rightarrow> bytes" where
  "show_ava oper a = chars ''('' @ chars (ava_type a) @ chars oper @ bv_val (ava_value a) @ chars '')''"

definition show_choice :: "filter_choice \<Rightarrow> bytes list \<Rightarrow> bytes" where
  "show_choice c ts =
     (case c of
        LDAP_FILTER_AND \<Rightarrow> chars ''(&'' @ concat ts @ chars '')''
      | LDAP_FILTER_OR \<Rightarrow> chars ''(|'' @ concat ts @ chars '')''
      | LDAP_FILTER_NOT \<Rightarrow> chars ''(!'' @ hd ts @ chars '')''
      | LDAP_FILTER_EQUALITY a \<Rightarrow> show_ava ''='' a
      | LDAP_FILTER_GE a \<Rightarrow> show_ava ''>='' a
      | LDAP_FILTER_LE a \<Rightarrow> show_ava ''<='' a
      | LDAP_FILTER_SUBSTRINGS ss \<Rightarrow>
          chars ''('' @ chars (ss_type ss) @ chars ''='' @ bv_val (ss_initial ss) @ [star] @
          concat (map (\<lambda>v. bv_val v @ [star]) (ss_any ss)) @ bv_val (ss_final ss) @ chars '')''
      | LDAP_FILTER_PRESENT a \<Rightarrow> chars ''('' @ chars a @ chars ''=*)''
      | FILTER_ONE_LEVEL_SEARCH dn \<Rightarrow> []
      | LDAP_FILTER_OTHER \<Rightarrow> [])"

primrec show_filter :: "ldap_filter \<Rightarrow> bytes" where
  "show_filter (Filter c fs) = show_choice c (map show_filter fs)"

text \<open>No value and no name has a zero byte.\<close>

definition no_zero :: "filter_choice \<Rightarrow> bool" where
  "no_zero c =
     (case c of
        LDAP_FILTER_EQUALITY a \<Rightarrow> 0 \<notin> set (chars (ava_type a) @ bv_val (ava_value a))
      | LDAP_FILTER_GE a \<Rightarrow> 0 \<notin> set (chars (ava_type a) @ bv_val (ava_value a))
      | LDAP_FILTER_LE a \<Rightarrow> 0 \<notin> set (chars (ava_type a) @ bv_val (ava_value a))
      | LDAP_FILTER_SUBSTRINGS ss \<Rightarrow>
          0 \<notin> set (chars (ss_type ss) @ bv_val (ss_initial ss) @ concat (map bv_val (ss_any ss)) @ bv_val (ss_final ss))
      | LDAP_FILTER_PRESENT a \<Rightarrow> 0 \<notin> set (chars a)
      | _ \<Rightarrow> True)"

primrec printable :: "ldap_filter \<Rightarrow> bool" where
  "printable (Filter c fs) \<longleftrightarrow> no_zero c \<and> list_all printable fs"

text \<open>Every negation has its component.\<close>

primrec negations :: "ldap_filter \<Rightarrow> bool" where
  "negations (Filter c fs) \<longleftrightarrow> (c = LDAP_FILTER_NOT \<longrightarrow> fs \<noteq> []) \<and> list_all negations fs"

text \<open>The block of \<open>n\<close> bytes in which \<open>w\<close> is written.\<close>

definition blk :: "nat \<Rightarrow> bytes \<Rightarrow> str_buffer" where
  "blk n w = (w @ replicate (n - length w) 0, length w)"

definition padded :: "nat \<Rightarrow> bytes \<Rightarrow> bytes" where
  "padded k t = t @ replicate (k - length t) 0"

lemma padded_exact [simp]: "length t = k \<Longrightarrow> padded k t = t"
  by (simp add: padded_def)

lemma length_padded [simp]: "length t \<le> k \<Longrightarrow> length (padded k t) = k"
  by (simp add: padded_def)

lemma c_string_id [simp]: "0 \<notin> set b \<Longrightarrow> c_string b = b"
  unfolding c_string_def takeWhile_eq_all_conv by auto

lemma length_c_string: "length (c_string b) \<le> length b"
  by (simp add: c_string_def length_takeWhile_le)

lemma length_chars [simp]: "length (chars s) = length s"
  by (simp add: chars_def)

lemma print_blk:
  assumes "length t \<le> k" "length w + k < n"
  shows "print k t (blk n w) = Some (blk n (w @ padded k t))"
proof -
  have 1: "replicate (k - length t) 0 @ replicate (n - (length w + k)) 0 = replicate (n - (length w + length t)) (0 :: byte)"
    using assms by (simp flip: replicate_add)
  have "n - (length w + length t) = Suc (n - Suc (length w + length t))" using assms by simp
  then have 2: "0 # replicate (n - Suc (length w + length t)) 0 = replicate (n - (length w + length t)) (0 :: byte)"
    by (metis replicate_Suc)
  show ?thesis using assms 1 2
    by (simp add: print_def blk_def VmDirStringPrintFA_def padded_def Let_def)
qed

lemma put_char_blk: "length w < n \<Longrightarrow> put_char c (blk n w) = Some (blk n (w @ [c]))"
  by (cases "n - length w") (auto simp: put_char_def blk_def list_update_append)

section \<open>Printing stays inside the block\<close>

text \<open>
  \<open>writes g k ok t\<close>: from any block with room for \<open>k\<close> more bytes and the zero byte, \<open>g\<close> returns
  with at most \<open>k\<close> bytes added, which are \<open>t\<close> when \<open>ok\<close> holds.
\<close>

definition writes :: "(str_buffer \<Rightarrow> str_buffer option) \<Rightarrow> nat \<Rightarrow> bool \<Rightarrow> bytes \<Rightarrow> bool" where
  "writes g k ok t \<longleftrightarrow>
     (\<forall>n w. length w + k < n \<longrightarrow> (\<exists>u. g (blk n w) = Some (blk n (w @ u)) \<and> length u \<le> k \<and> (ok \<longrightarrow> u = t)))"

lemma writesD:
  assumes "writes g k ok t" "length w + k < n"
  obtains u where "g (blk n w) = Some (blk n (w @ u))" "length u \<le> k" "ok \<longrightarrow> u = t"
  using assms unfolding writes_def by blast

lemma writes_print: "length s \<le> k \<Longrightarrow> (ok \<longrightarrow> s = t \<and> length t = k) \<Longrightarrow> writes (print k s) k ok t"
  by (auto simp: writes_def print_blk)

lemma writes_seq:
  assumes f: "writes f k ok t" and g: "writes g l ok u" and m: "k + l \<le> m" and tu: "tu = t @ u"
  shows "writes (\<lambda>st. do { st1 \<leftarrow> f st; g st1 }) m ok tu"
  unfolding writes_def
proof (intro allI impI)
  fix n and w :: bytes assume n: "length w + m < n"
  obtain x where x: "f (blk n w) = Some (blk n (w @ x))" "length x \<le> k" "ok \<longrightarrow> x = t"
    using writesD [OF f, of w n] n m by auto
  obtain y where y: "g (blk n (w @ x)) = Some (blk n ((w @ x) @ y))" "length y \<le> l" "ok \<longrightarrow> y = u"
    using writesD [OF g, of "w @ x" n] n m x(2) by auto
  show "\<exists>z. (do { st1 \<leftarrow> f (blk n w); g st1 }) = Some (blk n (w @ z)) \<and> length z \<le> m \<and> (ok \<longrightarrow> z = tu)"
    by (rule exI [of _ "x @ y"]) (use x y m tu in simp)
qed

lemma writes_nothing: "writes Some k ok []"
  by (auto simp: writes_def intro!: exI [of _ "[]"])

lemma writes_put_char: "writes (put_char c) 1 ok [c]"
  by (auto simp: writes_def put_char_blk)

lemma writes_mono: "writes g k ok t \<Longrightarrow> k \<le> m \<Longrightarrow> (ok' \<longrightarrow> ok) \<Longrightarrow> writes g m ok' t"
  unfolding writes_def by (meson le_less_trans add_left_mono order_trans)

lemma writes_all:
  assumes "length gs = length ks" "length ts = length ks" "\<forall>i < length ks. writes (gs ! i) (ks ! i) ok (ts ! i)"
  shows "writes (print_all gs) (sum_list ks) ok (concat ts)"
  using assms
proof (induction ks arbitrary: gs ts)
  case Nil
  then show ?case by (simp add: writes_def)
next
  case (Cons k ks)
  obtain g gs' t ts' where gs: "gs = g # gs'" "ts = t # ts'" using Cons.prems(1,2) by (cases gs; cases ts) auto
  have "writes g k ok t" using Cons.prems(3) gs by force
  moreover have "writes (print_all gs') (sum_list ks) ok (concat ts')"
    using Cons.prems gs by (intro Cons.IH) auto
  ultimately have "writes (\<lambda>st. do { st1 \<leftarrow> g st; print_all gs' st1 }) (sum_list (k # ks)) ok (concat ts)"
    by (rule writes_seq) (use gs in auto)
  then show ?case using gs by (simp add: writes_def)
qed

lemma writes_print_part: "writes (print_part v) (length (bv_val v)) (0 \<notin> set (bv_val v)) (bv_val v)"
  using writes_print [of "c_string (bv_val v)" "length (bv_val v)" "0 \<notin> set (bv_val v)" "bv_val v"] length_c_string [of "bv_val v"]
  by (cases "bv_val v = []") (auto simp: print_part_def writes_def)

lemma writes_print_ava:
  "writes (print_ava (chars oper) a) (length (ava_type a) + length (bv_val (ava_value a)) + (2 + length oper))
     (0 \<notin> set (chars (ava_type a) @ bv_val (ava_value a))) (show_ava oper a)"
  unfolding print_ava_def show_ava_def
  using length_c_string [of "chars (ava_type a)"] length_c_string [of "bv_val (ava_value a)"]
  by (intro writes_mono [OF writes_print]) auto

lemma writes_print_any:
  "writes (print_any vs) (sum_list (map (\<lambda>v. length (bv_val v) + 1) vs)) (0 \<notin> set (concat (map bv_val vs))) (concat (map (\<lambda>v. bv_val v @ [star]) vs))"
proof (induction vs)
  case Nil
  then show ?case by (simp add: writes_def)
next
  case (Cons v vs)
  let ?ok = "0 \<notin> set (concat (map bv_val (v # vs)))"
  have "writes (print (length (bv_val v) + 1) (c_string (bv_val v) @ [star])) (length (bv_val v) + 1) ?ok (bv_val v @ [star])"
    using length_c_string [of "bv_val v"] by (intro writes_print) auto
  moreover have "writes (print_any vs) (sum_list (map (\<lambda>v. length (bv_val v) + 1) vs)) ?ok (concat (map (\<lambda>v. bv_val v @ [star]) vs))"
    by (rule writes_mono [OF Cons.IH]) auto
  ultimately have "writes (\<lambda>st. do { st1 \<leftarrow> print (length (bv_val v) + 1) (c_string (bv_val v) @ [star]) st; print_any vs st1 })
      (sum_list (map (\<lambda>v. length (bv_val v) + 1) (v # vs))) ?ok (concat (map (\<lambda>v. bv_val v @ [star]) (v # vs)))"
    by (rule writes_seq) auto
  then show ?case by (simp add: writes_def)
qed

text \<open>The components in the middle, with the star behind them.\<close>

definition print_middle :: "sub_strings \<Rightarrow> str_buffer \<Rightarrow> str_buffer option" where
  "print_middle ss st =
     do {
       st3 \<leftarrow> put_char star st;
       st4 \<leftarrow> print_any (ss_any ss) st3;
       if fst st4 ! (snd st4 - 1) \<noteq> star then put_char star st4 else Some st4
     }"

lemma print_sub_middle:
  "print_sub ss =
     (\<lambda>st. do {
       st1 \<leftarrow> print (1 + length (ss_type ss) + 1) (chars ''('' @ c_string (chars (ss_type ss)) @ chars ''='') st;
       do { st2 \<leftarrow> print_part (ss_initial ss) st1;
         do { st5 \<leftarrow> print_middle ss st2; do { st6 \<leftarrow> print_part (ss_final ss) st5; print 1 (chars '')'') st6 } } } })"
  by (rule ext) (simp add: print_sub_def print_middle_def)

lemma nth_blk: "w \<noteq> [] \<Longrightarrow> fst (blk n w) ! (snd (blk n w) - 1) = last w"
  by (simp add: blk_def nth_append last_conv_nth)

lemma last_stars: "last (star # concat (map (\<lambda>v. bv_val v @ [star]) vs)) = star"
  by (cases vs rule: rev_cases) auto

lemma writes_print_middle:
  "writes (print_middle ss) (2 + sum_list (map (\<lambda>v. length (bv_val v) + 1) (ss_any ss))) (0 \<notin> set (concat (map bv_val (ss_any ss))))
     ([star] @ concat (map (\<lambda>v. bv_val v @ [star]) (ss_any ss)))"
  (is "writes _ (2 + ?k) ?ok ([star] @ ?t)")
  unfolding writes_def
proof (intro allI impI)
  fix n and w :: bytes assume n: "length w + (2 + ?k) < n"
  obtain u where u: "print_any (ss_any ss) (blk n (w @ [star])) = Some (blk n ((w @ [star]) @ u))" "length u \<le> ?k" "?ok \<longrightarrow> u = ?t"
    using writesD [OF writes_print_any, of "w @ [star]" "ss_any ss" n] n by auto
  have last: "fst (blk n ((w @ [star]) @ u)) ! (snd (blk n ((w @ [star]) @ u)) - 1) = last (star # u)"
    by (subst nth_blk) auto
  show "\<exists>z. print_middle ss (blk n w) = Some (blk n (w @ z)) \<and> length z \<le> 2 + ?k \<and> (?ok \<longrightarrow> z = [star] @ ?t)"
  proof (cases "last (star # u) = star")
    case True
    with u n last show ?thesis by (intro exI [of _ "[star] @ u"]) (simp add: print_middle_def put_char_blk)
  next
    case False
    with u(3) last_stars [of "ss_any ss"] have "\<not> ?ok" by metis
    with False u n last show ?thesis by (intro exI [of _ "[star] @ u @ [star]"]) (simp add: print_middle_def put_char_blk)
  qed
qed

lemma writes_print_sub:
  "writes (print_sub ss)
     (length (ss_type ss) + 3 + (length (bv_val (ss_initial ss)) + 1) + sum_list (map (\<lambda>v. length (bv_val v) + 2) (ss_any ss)) +
        (length (bv_val (ss_final ss)) + 1))
     (no_zero (LDAP_FILTER_SUBSTRINGS ss)) (show_choice (LDAP_FILTER_SUBSTRINGS ss) [])"
proof -
  let ?ok = "no_zero (LDAP_FILTER_SUBSTRINGS ss)" and ?a = "bv_val (ss_initial ss)" and ?z = "bv_val (ss_final ss)"
  have 1: "writes (print (1 + length (ss_type ss) + 1) (chars ''('' @ c_string (chars (ss_type ss)) @ chars ''=''))
      (1 + length (ss_type ss) + 1) ?ok (chars ''('' @ chars (ss_type ss) @ chars ''='')"
    using length_c_string [of "chars (ss_type ss)"] by (intro writes_print) (auto simp: no_zero_def)
  have 2: "writes (print_part (ss_initial ss)) (length ?a) ?ok ?a" "writes (print_part (ss_final ss)) (length ?z) ?ok ?z"
    by (rule writes_mono [OF writes_print_part]; simp add: no_zero_def)+
  have 3: "writes (print_middle ss) (2 + sum_list (map (\<lambda>v. length (bv_val v) + 1) (ss_any ss))) ?ok
      ([star] @ concat (map (\<lambda>v. bv_val v @ [star]) (ss_any ss)))"
    by (rule writes_mono [OF writes_print_middle]) (auto simp: no_zero_def)
  have 4: "writes (print 1 (chars '')'')) 1 ?ok (chars '')'')" by (rule writes_print) auto
  have "sum_list (map (\<lambda>v. length (bv_val v) + 1) (ss_any ss)) \<le> sum_list (map (\<lambda>v. length (bv_val v) + 2) (ss_any ss))"
    by (rule sum_list_mono) simp
  then show ?thesis
    unfolding print_sub_middle
    by (intro writes_mono [OF writes_seq [OF 1 writes_seq [OF 2(1) writes_seq [OF 3 writes_seq [OF 2(2) 4 order_refl refl] order_refl refl] order_refl refl]
            order_refl]]) (auto simp: show_choice_def)
qed

lemma writes_item: "\<not> composite c \<Longrightarrow> required_choice c rs = Some k \<Longrightarrow> writes (print_choice c gs) k (no_zero c) (show_choice c ts)"
proof (cases c)
  case (LDAP_FILTER_EQUALITY a)
  then show "required_choice c rs = Some k \<Longrightarrow> ?thesis"
    using writes_print_ava [of "''=''" a] by (auto simp: required_choice_def print_choice_def show_choice_def no_zero_def writes_def)
next
  case (LDAP_FILTER_GE a)
  then show "required_choice c rs = Some k \<Longrightarrow> ?thesis"
    using writes_print_ava [of "''>=''" a] by (auto simp: required_choice_def print_choice_def show_choice_def no_zero_def writes_def)
next
  case (LDAP_FILTER_LE a)
  then show "required_choice c rs = Some k \<Longrightarrow> ?thesis"
    using writes_print_ava [of "''<=''" a] by (auto simp: required_choice_def print_choice_def show_choice_def no_zero_def writes_def)
next
  case (LDAP_FILTER_SUBSTRINGS ss)
  then show "required_choice c rs = Some k \<Longrightarrow> ?thesis"
    using writes_print_sub [of ss] by (auto simp: required_choice_def print_choice_def show_choice_def writes_def)
next
  case (LDAP_FILTER_PRESENT a)
  have "writes (print (1 + length a + 3) (chars ''('' @ c_string (chars a) @ chars ''=*)'')) (length a + 4) (no_zero c) (show_choice c ts)"
    using length_c_string [of "chars a"] LDAP_FILTER_PRESENT by (intro writes_mono [OF writes_print]) (auto simp: no_zero_def show_choice_def)
  with LDAP_FILTER_PRESENT show "required_choice c rs = Some k \<Longrightarrow> ?thesis"
    by (auto simp: required_choice_def print_choice_def writes_def)
qed (auto simp: composite_def required_choice_def print_choice_def show_choice_def writes_def)

lemma add_sizes_Some: "list_all (\<lambda>r. r \<noteq> None) rs \<Longrightarrow> add_sizes rs n = Some (n + sum_list (map the rs))"
  by (induction rs arbitrary: n) auto

lemma writes_bracket:
  assumes g: "writes g k ok t" and p: "length p = 2"
  shows "writes (\<lambda>st. do { st1 \<leftarrow> print 2 (chars p) st; st2 \<leftarrow> g st1; print 1 (chars '')'') st2 }) (3 + k) ok (chars p @ t @ chars '')'')"
proof -
  have 1: "writes (print 2 (chars p)) 2 ok (chars p)" and 2: "writes (print 1 (chars '')'')) 1 ok (chars '')'')"
    by (rule writes_print; use p in simp)+
  show ?thesis by (rule writes_seq [OF 1 writes_seq [OF g 2 order_refl refl]]) auto
qed

lemma writes_filter:
  "negations f \<Longrightarrow> \<exists>k. RequiredSizeForStrFilter f = Some k \<and> writes (print_filter f) k (printable f) (show_filter f)"
proof (induction f)
  case (Filter c fs)
  let ?rs = "map RequiredSizeForStrFilter fs"
  have kid: "\<exists>k. RequiredSizeForStrFilter g = Some k \<and> writes (print_filter g) k (printable g) (show_filter g)" if "g \<in> set fs" for g
    using Filter that by (auto simp: list_all_iff)
  then have rs: "list_all (\<lambda>r. r \<noteq> None) ?rs" by (fastforce simp: list_all_iff)
  have all: "writes (print_all (map print_filter fs)) (sum_list (map the ?rs)) (list_all printable fs) (concat (map show_filter fs))"
  proof (rule writes_all)
    show "\<forall>i < length (map the ?rs). writes (map print_filter fs ! i) (map the ?rs ! i) (list_all printable fs) (map show_filter fs ! i)"
    proof (intro allI impI)
      fix i assume i: "i < length (map the ?rs)"
      obtain k where "RequiredSizeForStrFilter (fs ! i) = Some k" "writes (print_filter (fs ! i)) k (printable (fs ! i)) (show_filter (fs ! i))"
        using kid [of "fs ! i"] i by auto
      with i show "writes (map print_filter fs ! i) (map the ?rs ! i) (list_all printable fs) (map show_filter fs ! i)"
        by (auto simp: list_all_iff intro: writes_mono)
    qed
  qed auto
  show ?case
  proof (cases "composite c")
    case False
    then obtain k where k: "required_choice c ?rs = Some k" by (cases c) (auto simp: composite_def required_choice_def)
    have "writes (print_choice c (map print_filter fs)) k (printable (Filter c fs)) (show_choice c (map show_filter fs))"
      by (rule writes_mono [OF writes_item [OF False k]]) auto
    with k show ?thesis by (intro exI [of _ k]) simp
  next
    case True
    then consider "c = LDAP_FILTER_AND" | "c = LDAP_FILTER_OR" | "c = LDAP_FILTER_NOT" by (auto simp: composite_def)
    then show ?thesis
    proof cases
      case 1
      have "print_choice c gs = (\<lambda>st. do { st1 \<leftarrow> print 2 (chars ''(&'') st; st2 \<leftarrow> print_all gs st1; print 1 (chars '')'') st2 })" for gs
        by (rule ext) (simp add: 1 print_choice_def)
      with writes_bracket [OF all, of "''(&''"] add_sizes_Some [OF rs, of 3] show ?thesis
        by (intro exI [of _ "3 + sum_list (map the ?rs)"]) (simp add: 1 required_choice_def show_choice_def no_zero_def)
    next
      case 2
      have "print_choice c gs = (\<lambda>st. do { st1 \<leftarrow> print 2 (chars ''(|'') st; st2 \<leftarrow> print_all gs st1; print 1 (chars '')'') st2 })" for gs
        by (rule ext) (simp add: 2 print_choice_def)
      with writes_bracket [OF all, of "''(|''"] add_sizes_Some [OF rs, of 3] show ?thesis
        by (intro exI [of _ "3 + sum_list (map the ?rs)"]) (simp add: 2 required_choice_def show_choice_def no_zero_def)
    next
      case 3
      then obtain g gs where fs: "fs = g # gs" using Filter.prems by (cases fs) auto
      obtain k where k: "RequiredSizeForStrFilter g = Some k" "writes (print_filter g) k (printable g) (show_filter g)"
        using kid [of g] fs by auto
      have w: "writes (print_filter g) k (list_all printable fs) (show_filter g)" by (rule writes_mono [OF k(2)]) (auto simp: fs)
      have "print_choice c (map print_filter fs) =
          (\<lambda>st. do { st1 \<leftarrow> print 2 (chars ''(!'') st; st2 \<leftarrow> print_filter g st1; print 1 (chars '')'') st2 })"
        by (rule ext) (simp add: 3 fs print_choice_def)
      with writes_bracket [OF w, of "''(!''"] k(1) show ?thesis
        by (intro exI [of _ "3 + k"]) (simp add: 3 fs required_choice_def show_choice_def no_zero_def)
    qed
  qed
qed

lemma printable_no_zero: "printable f \<Longrightarrow> negations f \<Longrightarrow> 0 \<notin> set (show_filter f)"
proof (induction f)
  case (Filter c fs)
  have "0 \<notin> set (show_filter g)" if "g \<in> set fs" for g using Filter that by (auto simp: list_all_iff)
  moreover have "0 \<notin> set (show_filter (hd fs))" if "fs \<noteq> []" using calculation [of "hd fs"] that by simp
  ultimately show ?case
    using Filter.prems by (cases c) (auto simp: show_choice_def show_ava_def no_zero_def chars_def star_def hd_map)
qed

text \<open>
  C36. Printing a filter never writes outside the block it allocates, whatever bytes the names and
  values have, and counts at most the computed size as written. Where they have no zero byte, the
  block then holds the text of the filter as a C string. Items for one level of the directory leave no
  trace in the text.
\<close>

theorem filter_string_fits:
  assumes "negations f" and "\<forall>n. mem n"
  shows "\<exists>size buf n. RequiredSizeForStrFilter f = Some size \<and> FilterToStrFilter mem f = Some (None, Some (buf, n)) \<and>
    length buf = size + 1 \<and> n \<le> size \<and> (printable f \<longrightarrow> c_string buf = show_filter f)"
proof -
  obtain k where k: "RequiredSizeForStrFilter f = Some k" "writes (print_filter f) k (printable f) (show_filter f)"
    using writes_filter [OF assms(1)] by blast
  obtain u where u: "print_filter f (blk (k + 1) []) = Some (blk (k + 1) u)" "length u \<le> k" "printable f \<longrightarrow> u = show_filter f"
    using writesD [OF k(2), of "[]" "k + 1"] by auto
  have "c_string (u @ replicate (k + 1 - length u) 0) = u" if "0 \<notin> set u"
    using that u(2) by (simp add: c_string_def takeWhile_append)
  moreover have "printable f \<Longrightarrow> 0 \<notin> set (show_filter f)" using printable_no_zero assms(1) by blast
  ultimately show ?thesis
    using k(1) u assms(2)
    by (intro exI [of _ k] exI [of _ "fst (blk (k + 1) u)"] exI [of _ "length u"])
      (auto simp: FilterToStrFilter_def VmDirAllocateMemory_def blk_def)
qed

definition text_filter :: ldap_filter where
  "text_filter = Filter LDAP_FILTER_AND [Filter LDAP_FILTER_NOT [Filter (LDAP_FILTER_PRESENT ''cn'') []], Filter (FILTER_ONE_LEVEL_SEARCH (plain [1])) []]"

theorem filter_string_fits_witness:
  "\<exists>size buf n. RequiredSizeForStrFilter text_filter = Some size \<and> FilterToStrFilter (\<lambda>n. True) text_filter = Some (None, Some (buf, n)) \<and>
     length buf = size + 1 \<and> n \<le> size \<and> c_string buf = chars ''(&(!(cn=*)))''"
proof -
  have "negations text_filter" by (simp add: text_filter_def)
  moreover have "printable text_filter" by (simp add: text_filter_def no_zero_def chars_def)
  moreover have "show_filter text_filter = chars ''(&(!(cn=*)))''" by (simp add: text_filter_def show_choice_def chars_def)
  ultimately show ?thesis using filter_string_fits [of text_filter "\<lambda>n. True"] by auto
qed

end
