(* ===== verification/Paged_Cache.thy ===== *)
theory Paged_Cache
  imports Search_Result Deque
begin

text \<open>
  The cache of paged searches (\<open>lwraft/server/middle-layer/pscache.c\<close>): the record of a search, the
  worker thread that tests candidates ahead of the client and queues the ids of whole pages, and the
  readers that take pages from the queue. The queue is the deque of \<open>deque.c\<close>. The threads are a step
  relation: a step is what a thread does between two points at which others can see or change what it
  uses. Reading an entry and testing it is a function of its id.
\<close>


section \<open>The record of a search\<close>

type_synonym page = "entry_id list"

record ps_record =
  dwRefCount :: nat
  dwPageSize :: nat
  dwCandidatesProcessed :: nat
  pTotalCandidates :: "entry_id list"
  ps_heap :: "page deque_heap"
  pQueue :: "deque option"
  pThreadInfo :: bool
  bProcessingCompleted :: bool
  bSearchCompleted :: bool

definition RefPagedSearchRecord :: "ps_record \<Rightarrow> ps_record" where
  "RefPagedSearchRecord r = r\<lparr>dwRefCount := wrap32 (dwRefCount r + 1)\<rparr>"

text \<open>Whether the last reference is gone, in which case the record is to be freed.\<close>

definition DerefPagedSearchRecord :: "ps_record \<Rightarrow> bool \<times> ps_record" where
  "DerefPagedSearchRecord r =
     (let n = wrap32 (dwRefCount r + (2 ^ 32 - 1)) in (n = 0, r\<lparr>dwRefCount := n\<rparr>))"

section \<open>The worker's pages\<close>

definition VmDirPagedSearchProcessEntry :: "schema \<Rightarrow> (entry_id \<Rightarrow> vmdir_error + dir_entry) \<Rightarrow> ldap_filter \<Rightarrow> entry_id \<Rightarrow> bool option" where
  "VmDirPagedSearchProcessEntry sch ent f x =
     (case ent x of
        Inl e \<Rightarrow> Some False
      | Inr e \<Rightarrow> map_option (\<lambda>r. r = FILTER_RES_TRUE) (CheckIfEntryPassesFilter sch e (\<lambda>p. FILTER_RES_NORMAL) f []))"

text \<open>The ids of a page are written to a block of \<open>n\<close> ids.\<close>

function process_entries :: "(entry_id \<Rightarrow> bool option) \<Rightarrow> nat \<Rightarrow> entry_id list \<Rightarrow> nat \<Rightarrow> page \<Rightarrow> (nat \<times> page) option" where
  "process_entries test n ids i pg =
     (if length ids \<le> i then Some (i, pg)
      else do {
        bInclude \<leftarrow> test (ids ! i);
        pg1 \<leftarrow> (if \<not> bInclude then Some pg else if length pg < n then Some (pg @ [ids ! i]) else None);
        if length pg1 = n then Some (i + 1, pg1) else process_entries test n ids (i + 1) pg1
      })"
  by pat_completeness auto

termination process_entries
  by (relation "measure (\<lambda>(test, n, ids, i, pg). length ids - i)") auto

declare process_entries.simps [simp del]

definition VmDirPagedSearchProcessEntries :: "(entry_id \<Rightarrow> bool option) \<Rightarrow> ps_record \<Rightarrow> (ps_record \<times> page) option" where
  "VmDirPagedSearchProcessEntries test r =
     map_option (\<lambda>(i, pg). (r\<lparr>dwCandidatesProcessed := i\<rparr>, pg))
       (process_entries test (dwPageSize r) (pTotalCandidates r) (dwCandidatesProcessed r) [])"

definition VmDirPagedSearchEntryListAlloc :: "(nat \<Rightarrow> bool) \<Rightarrow> ps_record \<Rightarrow> rc" where
  "VmDirPagedSearchEntryListAlloc mem r =
     (case VmDirAllocateMemory mem 16 of
        Some e \<Rightarrow> Some e
      | None \<Rightarrow> VmDirAllocateMemory mem (8 * dwPageSize r))"

definition VmDirPagedSearchCacheAddData :: "addr option \<Rightarrow> page \<Rightarrow> ps_record \<Rightarrow> (rc \<times> ps_record) option" where
  "VmDirPagedSearchCacheAddData ma pg r =
     do {
       (err, h, q) \<leftarrow> dequePush ma (Some pg) (ps_heap r) (pQueue r);
       Some (err, r\<lparr>ps_heap := h, pQueue := q\<rparr>)
     }"

section \<open>The threads\<close>

text \<open>
  Where the thread that creates the record, its worker and its readers are. A reader that found the
  queue empty keeps the record's mutex until it looked at the flag; the worker sets the flag under
  another mutex.
\<close>

datatype creator_pc = Creator_Started | Creator_Thread_Set | Creator_Inserted | Creator_Returned

datatype worker_pc =
    Worker_Start
  | Worker_Loop
  | Worker_Has page
  | Worker_Waiting
  | Worker_Exit
  | Worker_Free
  | Worker_Gone
  | Worker_Crashed

datatype read_result = Read_Page page | Read_Completed | Read_Unavailable

datatype reader_pc =
    Reader_Idle
  | Reader_Found
  | Reader_Empty
  | Reader_Waiting
  | Reader_Return read_result
  | Reader_Free

text \<open>\<open>ps_read\<close> are the pages handed to readers, in order, and \<open>ps_told\<close> is whether one was told the end.\<close>

record ps_state =
  ps_rec :: "ps_record option"
  ps_cached :: bool
  ps_lock :: "nat option"
  ps_creator :: creator_pc
  ps_worker :: worker_pc
  ps_reader :: "nat \<Rightarrow> reader_pc"
  ps_shutdown :: bool
  ps_read :: "page list"
  ps_told :: bool

text \<open>A look at the queue: the result of \<open>dequePopLeft\<close> in the record.\<close>

definition pop_page :: "ps_record \<Rightarrow> (page option \<times> ps_record) option" where
  "pop_page r =
     do {
       (err, pg, h, q) \<leftarrow> dequePopLeft True (ps_heap r) (pQueue r);
       Some (if err = None then pg else None, r\<lparr>ps_heap := h, pQueue := q\<rparr>)
     }"

text \<open>
  Waiting ends with a signal, a timeout or neither, so a waiting reader may go on at any time; it
  first looks whether the server is shut down.
\<close>

definition may_pop :: "ps_state \<Rightarrow> nat \<Rightarrow> bool" where
  "may_pop s i \<longleftrightarrow> ps_lock s = None \<and> (ps_reader s i = Reader_Found \<or> ps_reader s i = Reader_Waiting \<and> \<not> ps_shutdown s)"

inductive ps_step :: "(entry_id \<Rightarrow> bool option) \<Rightarrow> ps_state \<Rightarrow> ps_state \<Rightarrow> bool" for test where
  thread_set:
    "ps_rec s = Some r \<Longrightarrow> ps_creator s = Creator_Started \<Longrightarrow>
       ps_step test s (s\<lparr>ps_rec := Some (r\<lparr>pThreadInfo := True\<rparr>), ps_creator := Creator_Thread_Set\<rparr>)"
| table_insert:
    "ps_creator s = Creator_Thread_Set \<Longrightarrow> ps_step test s (s\<lparr>ps_cached := True, ps_creator := Creator_Inserted\<rparr>)"
| count_set:
    "ps_rec s = Some r \<Longrightarrow> ps_creator s = Creator_Inserted \<Longrightarrow>
       ps_step test s (s\<lparr>ps_rec := Some (r\<lparr>dwRefCount := 1\<rparr>), ps_creator := Creator_Returned\<rparr>)"
| worker_start:
    "ps_worker s = Worker_Start \<Longrightarrow> ps_step test s (s\<lparr>ps_worker := Worker_Loop\<rparr>)"
| worker_not_started:
    "ps_worker s = Worker_Start \<Longrightarrow> ps_step test s (s\<lparr>ps_worker := Worker_Exit\<rparr>)"
| worker_page:
    "ps_rec s = Some r \<Longrightarrow> ps_worker s = Worker_Loop \<Longrightarrow> dwCandidatesProcessed r < length (pTotalCandidates r) \<Longrightarrow>
     VmDirPagedSearchEntryListAlloc mem r = None \<Longrightarrow> VmDirPagedSearchProcessEntries test r = Some (r1, pg) \<Longrightarrow>
       ps_step test s (s\<lparr>ps_rec := Some r1, ps_worker := if pg = [] then Worker_Loop else Worker_Has pg\<rparr>)"
| worker_no_memory:
    "ps_rec s = Some r \<Longrightarrow> ps_worker s = Worker_Loop \<Longrightarrow> dwCandidatesProcessed r < length (pTotalCandidates r) \<Longrightarrow>
     VmDirPagedSearchEntryListAlloc mem r \<noteq> None \<Longrightarrow>
       ps_step test s (s\<lparr>ps_worker := Worker_Exit\<rparr>)"
| worker_push:
    "ps_rec s = Some r \<Longrightarrow> ps_worker s = Worker_Has pg \<Longrightarrow> ps_lock s = None \<Longrightarrow> a \<notin> dom (ps_heap r) \<Longrightarrow>
     VmDirPagedSearchCacheAddData (Some a) pg r = Some (None, r1) \<Longrightarrow>
       ps_step test s (s\<lparr>ps_rec := Some r1, ps_worker := Worker_Loop\<rparr>)"
| worker_push_failed:
    "ps_rec s = Some r \<Longrightarrow> ps_worker s = Worker_Has pg \<Longrightarrow> ps_lock s = None \<Longrightarrow>
     VmDirPagedSearchCacheAddData None pg r = Some (Some e, r1) \<Longrightarrow>
       ps_step test s (s\<lparr>ps_rec := Some r1, ps_worker := Worker_Exit\<rparr>)"
| worker_complete:
    "ps_rec s = Some r \<Longrightarrow> ps_worker s = Worker_Loop \<Longrightarrow> \<not> dwCandidatesProcessed r < length (pTotalCandidates r) \<Longrightarrow> pThreadInfo r \<Longrightarrow>
       ps_step test s (s\<lparr>ps_rec := Some (r\<lparr>bProcessingCompleted := True\<rparr>), ps_worker := Worker_Waiting\<rparr>)"
| worker_null:
    "ps_rec s = Some r \<Longrightarrow> ps_worker s = Worker_Loop \<Longrightarrow> \<not> dwCandidatesProcessed r < length (pTotalCandidates r) \<Longrightarrow> \<not> pThreadInfo r \<Longrightarrow>
       ps_step test s (s\<lparr>ps_worker := Worker_Crashed\<rparr>)"
| worker_done:
    "ps_rec s = Some r \<Longrightarrow> ps_worker s = Worker_Waiting \<Longrightarrow> bSearchCompleted r \<Longrightarrow> ps_step test s (s\<lparr>ps_worker := Worker_Exit\<rparr>)"
| worker_timeout:
    "ps_worker s = Worker_Waiting \<Longrightarrow> ps_step test s (s\<lparr>ps_worker := Worker_Exit\<rparr>)"
| worker_deref:
    "ps_rec s = Some r \<Longrightarrow> ps_worker s = Worker_Exit \<Longrightarrow> DerefPagedSearchRecord r = (gone, r1) \<Longrightarrow>
       ps_step test s (s\<lparr>ps_rec := Some r1, ps_worker := if gone then Worker_Free else Worker_Gone\<rparr>)"
| worker_free:
    "ps_rec s = Some r \<Longrightarrow> ps_worker s = Worker_Free \<Longrightarrow> ps_step test s (s\<lparr>ps_rec := None, ps_cached := False, ps_worker := Worker_Gone\<rparr>)"
| reader_find:
    "ps_rec s = Some r \<Longrightarrow> ps_cached s \<Longrightarrow> ps_creator s = Creator_Returned \<Longrightarrow> ps_reader s i = Reader_Idle \<Longrightarrow>
       ps_step test s (s\<lparr>ps_rec := Some (RefPagedSearchRecord r), ps_reader := (ps_reader s)(i := Reader_Found)\<rparr>)"
| reader_page:
    "ps_rec s = Some r \<Longrightarrow> may_pop s i \<Longrightarrow> pop_page r = Some (Some pg, r1) \<Longrightarrow> \<not> bSearchCompleted r \<Longrightarrow>
       ps_step test s (s\<lparr>ps_rec := Some r1, ps_reader := (ps_reader s)(i := Reader_Return (Read_Page pg)), ps_read := ps_read s @ [pg]\<rparr>)"
| reader_page_dropped:
    "ps_rec s = Some r \<Longrightarrow> may_pop s i \<Longrightarrow> pop_page r = Some (Some pg, r1) \<Longrightarrow> bSearchCompleted r \<Longrightarrow>
       ps_step test s (s\<lparr>ps_rec := Some r1, ps_reader := (ps_reader s)(i := Reader_Return Read_Completed), ps_told := True\<rparr>)"
| reader_empty:
    "ps_rec s = Some r \<Longrightarrow> may_pop s i \<Longrightarrow> pop_page r = Some (None, r1) \<Longrightarrow>
       ps_step test s (s\<lparr>ps_rec := Some r1, ps_lock := Some i, ps_reader := (ps_reader s)(i := Reader_Empty)\<rparr>)"
| reader_end:
    "ps_rec s = Some r \<Longrightarrow> ps_reader s i = Reader_Empty \<Longrightarrow> bProcessingCompleted r \<Longrightarrow>
       ps_step test s (s\<lparr>ps_rec := Some (r\<lparr>bSearchCompleted := True\<rparr>), ps_lock := None,
         ps_reader := (ps_reader s)(i := Reader_Return Read_Completed), ps_told := True\<rparr>)"
| reader_wait:
    "ps_rec s = Some r \<Longrightarrow> ps_reader s i = Reader_Empty \<Longrightarrow> \<not> bProcessingCompleted r \<Longrightarrow>
       ps_step test s (s\<lparr>ps_lock := None, ps_reader := (ps_reader s)(i := Reader_Waiting)\<rparr>)"
| reader_shutdown:
    "ps_rec s = Some r \<Longrightarrow> ps_reader s i = Reader_Waiting \<Longrightarrow> ps_lock s = None \<Longrightarrow> ps_shutdown s \<Longrightarrow>
       ps_step test s (s\<lparr>ps_reader := (ps_reader s)(i := Reader_Return Read_Unavailable)\<rparr>)"
| reader_deref:
    "ps_rec s = Some r \<Longrightarrow> ps_reader s i = Reader_Return x \<Longrightarrow> DerefPagedSearchRecord r = (gone, r1) \<Longrightarrow>
       ps_step test s (s\<lparr>ps_rec := Some r1, ps_reader := (ps_reader s)(i := if gone then Reader_Free else Reader_Idle)\<rparr>)"
| reader_free:
    "ps_rec s = Some r \<Longrightarrow> ps_reader s i = Reader_Free \<Longrightarrow>
       ps_step test s (s\<lparr>ps_rec := None, ps_cached := False, ps_reader := (ps_reader s)(i := Reader_Idle)\<rparr>)"
| server_shutdown:
    "ps_step test s (s\<lparr>ps_shutdown := True\<rparr>)"

section \<open>The pages of a search\<close>

text \<open>A list cut into pages of \<open>n\<close>.\<close>

fun pages_of :: "nat \<Rightarrow> entry_id list \<Rightarrow> page list" where
  "pages_of n [] = []"
| "pages_of n (x # xs) = (x # take (n - 1) xs) # pages_of n (drop (n - 1) xs)"

lemma pages_of_take: "xs \<noteq> [] \<Longrightarrow> 0 < n \<Longrightarrow> pages_of n xs = take n xs # pages_of n (drop n xs)"
  by (cases xs; cases n) auto

lemma concat_pages_of [simp]: "concat (pages_of n xs) = xs"
  by (induction n xs rule: pages_of.induct) auto

lemma length_pages_of: "0 < n \<Longrightarrow> pg \<in> set (pages_of n xs) \<Longrightarrow> pg \<noteq> [] \<and> length pg \<le> n"
  by (induction n xs rule: pages_of.induct) auto

definition included :: "(entry_id \<Rightarrow> bool option) \<Rightarrow> entry_id \<Rightarrow> bool" where
  "included test x \<longleftrightarrow> test x = Some True"

lemma process_entries_page:
  assumes "\<forall>x \<in> set ids. test x \<noteq> None"
  shows "length pg < n \<Longrightarrow> \<exists>i' pg'. process_entries test n ids i pg = Some (i', pg @ pg') \<and>
    pg @ pg' = take n (pg @ filter (included test) (drop i ids)) \<and>
    filter (included test) (drop i' ids) = drop n (pg @ filter (included test) (drop i ids))"
proof (induction "length ids - i" arbitrary: i pg)
  case 0
  then show ?case by (subst process_entries.simps) simp
next
  case (Suc k)
  then have i: "i < length ids" "drop i ids = ids ! i # drop (i + 1) ids" by (auto simp: Cons_nth_drop_Suc)
  then obtain b where b: "test (ids ! i) = Some b" using assms by (meson nth_mem option.exhaust)
  have k: "k = length ids - (i + 1)" using Suc.hyps(2) by simp
  show ?case
  proof (cases "b \<and> length pg + 1 = n")
    case True
    then have n: "n = Suc (length pg)" by simp
    with True Suc.prems i b show ?thesis
      by (intro exI [of _ "i + 1"] exI [of _ "[ids ! i]"]) (subst process_entries.simps, simp add: included_def n)
  next
    case False
    let ?pg = "if b then pg @ [ids ! i] else pg"
    have "length ?pg < n" using False Suc.prems by auto
    from Suc.hyps(1) [OF k this] obtain i' pg' where
      IH: "process_entries test n ids (i + 1) ?pg = Some (i', ?pg @ pg')"
        "?pg @ pg' = take n (?pg @ filter (included test) (drop (i + 1) ids))"
        "filter (included test) (drop i' ids) = drop n (?pg @ filter (included test) (drop (i + 1) ids))" by blast
    have "process_entries test n ids i pg = process_entries test n ids (i + 1) ?pg"
      using False Suc.prems i(1) b by (subst process_entries.simps) auto
    with IH i(2) b Suc.prems show ?thesis
      by (cases b) (auto simp: included_def intro!: exI [of _ i'] exI [of _ "ids ! i # pg'"])
  qed
qed

lemma pop_empty: "deque_rep h\<^sub>0 (h, d) [] \<Longrightarrow> dequePopLeft True h d = Some (Some ERROR_NO_MORE_ITEMS, None, h, d)"
  by (erule deque_repE) (auto simp: dequePopLeft_def)

text \<open>The page in the worker's hands, and the pages that are still to come.\<close>

definition in_hand :: "worker_pc \<Rightarrow> page list" where
  "in_hand w = (case w of Worker_Has pg \<Rightarrow> [pg] | _ \<Rightarrow> [])"

definition to_come :: "(entry_id \<Rightarrow> bool option) \<Rightarrow> ps_record \<Rightarrow> page list" where
  "to_come test r = pages_of (dwPageSize r) (filter (included test) (drop (dwCandidatesProcessed r) (pTotalCandidates r)))"

lemma worker_page_next:
  assumes "\<forall>x \<in> set (pTotalCandidates r). test x \<noteq> None" "0 < dwPageSize r"
    and "VmDirPagedSearchProcessEntries test r = Some (r1, pg)"
  shows "to_come test r = (if pg = [] then [] else [pg]) @ to_come test r1 \<and> r1 = r\<lparr>dwCandidatesProcessed := dwCandidatesProcessed r1\<rparr>"
proof -
  let ?xs = "filter (included test) (drop (dwCandidatesProcessed r) (pTotalCandidates r))" and ?n = "dwPageSize r"
  obtain i' pg' where p: "process_entries test ?n (pTotalCandidates r) (dwCandidatesProcessed r) [] = Some (i', pg')"
    "pg' = take ?n ?xs" "filter (included test) (drop i' (pTotalCandidates r)) = drop ?n ?xs"
    using process_entries_page [OF assms(1), of "[]" ?n "dwCandidatesProcessed r"] assms(2) by auto
  then have r1: "r1 = r\<lparr>dwCandidatesProcessed := i'\<rparr>" "pg = pg'" using assms(3) by (auto simp: VmDirPagedSearchProcessEntries_def)
  show ?thesis using p(2,3) r1 assms(2) pages_of_take [of ?xs ?n] by (cases "?xs = []") (auto simp: to_come_def)
qed

text \<open>
  The record agrees with the pages: those read, those in the queue, the one in the worker's hands and
  those to come are all the pages of the search, unless the worker gave up.
\<close>

definition rec_ok :: "(entry_id \<Rightarrow> bool option) \<Rightarrow> page list \<Rightarrow> ps_state \<Rightarrow> ps_record \<Rightarrow> bool" where
  "rec_ok test ps s r \<longleftrightarrow>
     0 < dwPageSize r \<and> (\<forall>x \<in> set (pTotalCandidates r). test x \<noteq> None) \<and>
     (\<exists>h\<^sub>0 q rest. deque_rep h\<^sub>0 (ps_heap r, pQueue r) q \<and>
        ps = ps_read s @ q @ in_hand (ps_worker s) @ rest \<and>
        (ps_worker s \<in> {Worker_Start, Worker_Loop} \<union> range Worker_Has \<longrightarrow> rest = to_come test r \<and> \<not> bProcessingCompleted r) \<and>
        (bProcessingCompleted r \<longrightarrow> rest = []) \<and>
        (bSearchCompleted r \<longrightarrow> q = [] \<and> bProcessingCompleted r) \<and>
        (ps_lock s \<noteq> None \<longrightarrow> q = []))"

definition ps_inv :: "(entry_id \<Rightarrow> bool option) \<Rightarrow> page list \<Rightarrow> ps_state \<Rightarrow> bool" where
  "ps_inv test ps s \<longleftrightarrow>
     (\<forall>r. ps_rec s = Some r \<longrightarrow> rec_ok test ps s r) \<and>
     (\<forall>i. ps_reader s i = Reader_Empty \<longleftrightarrow> ps_lock s = Some i) \<and>
     prefix (ps_read s) ps \<and> (ps_told s \<longrightarrow> ps_read s = ps)"

text \<open>A record that was just created, for the candidates from the one at \<open>start\<close> on.\<close>

definition new_record :: "nat \<Rightarrow> entry_id list \<Rightarrow> nat \<Rightarrow> ps_record" where
  "new_record n ids start = \<lparr>dwRefCount = 0, dwPageSize = n, dwCandidatesProcessed = start, pTotalCandidates = ids, ps_heap = Map.empty,
     pQueue = snd (dequeCreate True True), pThreadInfo = False, bProcessingCompleted = False, bSearchCompleted = False\<rparr>"

definition ps_init :: "nat \<Rightarrow> entry_id list \<Rightarrow> nat \<Rightarrow> ps_state" where
  "ps_init n ids start = \<lparr>ps_rec = Some (new_record n ids start), ps_cached = False, ps_lock = None, ps_creator = Creator_Started,
     ps_worker = Worker_Start, ps_reader = (\<lambda>i. Reader_Idle), ps_shutdown = False, ps_read = [], ps_told = False\<rparr>"

inductive ps_reach :: "(entry_id \<Rightarrow> bool option) \<Rightarrow> ps_state \<Rightarrow> ps_state \<Rightarrow> bool" for test s0 where
  start: "ps_reach test s0 s0"
| step: "ps_reach test s0 s \<Longrightarrow> ps_step test s s' \<Longrightarrow> ps_reach test s0 s'"

lemma init_inv:
  assumes "0 < n" "\<forall>x \<in> set ids. test x \<noteq> None"
  shows "ps_inv test (pages_of n (filter (included test) (drop start ids))) (ps_init n ids start)"
proof -
  obtain d where d: "dequeCreate True True = (None, Some d)" by (simp add: dequeCreate_def memory_defs)
  from deque_new [OF d, of Map.empty] d show ?thesis
    using assms by (auto simp: ps_inv_def ps_init_def rec_ok_def new_record_def to_come_def in_hand_def)
qed

lemma rec_okE:
  assumes "rec_ok test ps s r"
  obtains h\<^sub>0 q rest where "0 < dwPageSize r" "\<forall>x \<in> set (pTotalCandidates r). test x \<noteq> None" "deque_rep h\<^sub>0 (ps_heap r, pQueue r) q"
    "ps = ps_read s @ q @ in_hand (ps_worker s) @ rest"
    "ps_worker s \<in> {Worker_Start, Worker_Loop} \<union> range Worker_Has \<longrightarrow> rest = to_come test r \<and> \<not> bProcessingCompleted r"
    "bProcessingCompleted r \<longrightarrow> rest = []" "bSearchCompleted r \<longrightarrow> q = [] \<and> bProcessingCompleted r" "ps_lock s \<noteq> None \<longrightarrow> q = []"
  using assms unfolding rec_ok_def by (elim conjE exE) (rule that)

lemma rec_okI:
  assumes "0 < dwPageSize r" "\<forall>x \<in> set (pTotalCandidates r). test x \<noteq> None" "deque_rep h\<^sub>0 (ps_heap r, pQueue r) q"
    "ps = ps_read s @ q @ in_hand (ps_worker s) @ rest"
    "ps_worker s \<in> {Worker_Start, Worker_Loop} \<union> range Worker_Has \<longrightarrow> rest = to_come test r \<and> \<not> bProcessingCompleted r"
    "bProcessingCompleted r \<longrightarrow> rest = []" "bSearchCompleted r \<longrightarrow> q = [] \<and> bProcessingCompleted r" "ps_lock s \<noteq> None \<longrightarrow> q = []"
  shows "rec_ok test ps s r"
  unfolding rec_ok_def by (intro conjI exI) (rule assms)+

text \<open>Steps that leave the queue and the counters alone.\<close>

definition same_data :: "ps_record \<Rightarrow> ps_record \<Rightarrow> bool" where
  "same_data r r' \<longleftrightarrow>
     dwPageSize r' = dwPageSize r \<and> dwCandidatesProcessed r' = dwCandidatesProcessed r \<and> pTotalCandidates r' = pTotalCandidates r \<and>
     ps_heap r' = ps_heap r \<and> pQueue r' = pQueue r \<and> bProcessingCompleted r' = bProcessingCompleted r \<and> bSearchCompleted r' = bSearchCompleted r"

lemma same_data_refl [simp]: "same_data r r"
  by (simp add: same_data_def)

lemma rec_ok_same:
  assumes "rec_ok test ps s r" "same_data r r'" "ps_read s' = ps_read s" "ps_lock s' = ps_lock s \<or> ps_lock s' = None"
    and "ps_worker s' = ps_worker s \<or> ps_worker s = Worker_Start \<and> ps_worker s' = Worker_Loop \<or>
      ps_worker s' \<notin> {Worker_Start, Worker_Loop} \<union> range Worker_Has \<and> ps_worker s \<notin> range Worker_Has"
  shows "rec_ok test ps s' r'"
proof -
  from assms(1) obtain h\<^sub>0 q rest where ok: "0 < dwPageSize r" "\<forall>x \<in> set (pTotalCandidates r). test x \<noteq> None" "deque_rep h\<^sub>0 (ps_heap r, pQueue r) q"
    "ps = ps_read s @ q @ in_hand (ps_worker s) @ rest"
    "ps_worker s \<in> {Worker_Start, Worker_Loop} \<union> range Worker_Has \<longrightarrow> rest = to_come test r \<and> \<not> bProcessingCompleted r"
    "bProcessingCompleted r \<longrightarrow> rest = []" "bSearchCompleted r \<longrightarrow> q = [] \<and> bProcessingCompleted r" "ps_lock s \<noteq> None \<longrightarrow> q = []"
    by (rule rec_okE)
  note d = assms(2) [unfolded same_data_def]
  have t: "to_come test r' = to_come test r" using d by (simp add: to_come_def)
  have h: "in_hand (ps_worker s') = in_hand (ps_worker s)" using assms(5) by (auto simp: in_hand_def split: worker_pc.splits)
  have m: "ps_worker s' \<in> {Worker_Start, Worker_Loop} \<union> range Worker_Has \<longrightarrow> rest = to_come test r \<and> \<not> bProcessingCompleted r"
    using ok(5) assms(5) by (elim disjE) simp_all
  have l: "ps_lock s' \<noteq> None \<longrightarrow> q = []" using ok(8) assms(4) by metis
  show ?thesis by (rule rec_okI [where q = q and rest = rest and h\<^sub>0 = h\<^sub>0]) (use ok(1-4,6,7) d t h m l assms(3) in \<open>simp_all only: \<close>)
qed

lemma inv_same:
  assumes "ps_inv test ps s" "ps_read s' = ps_read s" "ps_told s' = ps_told s" "ps_lock s' = ps_lock s"
    and "\<forall>i. (ps_reader s' i = Reader_Empty) = (ps_reader s i = Reader_Empty)"
    and rec: "\<And>r'. ps_rec s' = Some r' \<Longrightarrow> \<exists>r. ps_rec s = Some r \<and> same_data r r'"
    and w: "ps_worker s' = ps_worker s \<or> ps_worker s = Worker_Start \<and> ps_worker s' = Worker_Loop \<or>
      ps_worker s' \<notin> {Worker_Start, Worker_Loop} \<union> range Worker_Has \<and> ps_worker s \<notin> range Worker_Has"
  shows "ps_inv test ps s'"
proof -
  have "rec_ok test ps s' r'" if s': "ps_rec s' = Some r'" for r'
  proof -
    obtain r where r: "ps_rec s = Some r" "same_data r r'" using rec [OF s'] by blast
    then have "rec_ok test ps s r" using assms(1) by (simp add: ps_inv_def)
    then show ?thesis using assms(2,4) w by (intro rec_ok_same [OF _ r(2)]) auto
  qed
  then show ?thesis using assms(1-5) by (simp add: ps_inv_def)
qed

lemma pop_page_rep:
  assumes "deque_rep h\<^sub>0 (ps_heap r, pQueue r) q"
  shows "pop_page r = Some (pg, r1) \<Longrightarrow> r1 = r\<lparr>ps_heap := ps_heap r1, pQueue := pQueue r1\<rparr> \<and>
    (case pg of None \<Rightarrow> q = [] \<and> r1 = r | Some p \<Rightarrow> \<exists>q'. q = p # q' \<and> deque_rep h\<^sub>0 (ps_heap r1, pQueue r1) q')"
proof (cases q)
  case Nil
  then show "pop_page r = Some (pg, r1) \<Longrightarrow> ?thesis" using pop_empty [of h\<^sub>0] assms by (auto simp: pop_page_def)
next
  case (Cons p q')
  then show "pop_page r = Some (pg, r1) \<Longrightarrow> ?thesis" using deque_popleft [of h\<^sub>0 "ps_heap r" "pQueue r" p q'] assms by (auto simp: pop_page_def)
qed

lemma inv_rec:
  assumes "ps_inv test ps s" "ps_rec s' = Some r'" "rec_ok test ps s' r'"
    and "\<And>i. ps_reader s' i = Reader_Empty \<longleftrightarrow> ps_lock s' = Some i"
    and "prefix (ps_read s') ps" "ps_told s' \<Longrightarrow> ps_read s' = ps"
  shows "ps_inv test ps s'"
  using assms by (simp add: ps_inv_def)

lemma worker_page_inv:
  assumes inv: "ps_inv test ps s" and r: "ps_rec s = Some r" "ps_worker s = Worker_Loop" "VmDirPagedSearchProcessEntries test r = Some (r1, pg)"
  shows "ps_inv test ps (s\<lparr>ps_rec := Some r1, ps_worker := if pg = [] then Worker_Loop else Worker_Has pg\<rparr>)"
proof -
  have "rec_ok test ps s r" using inv r by (simp add: ps_inv_def)
  then obtain h\<^sub>0 q rest where ok: "0 < dwPageSize r" "\<forall>x \<in> set (pTotalCandidates r). test x \<noteq> None" "deque_rep h\<^sub>0 (ps_heap r, pQueue r) q"
    "ps = ps_read s @ q @ in_hand (ps_worker s) @ rest"
    "ps_worker s \<in> {Worker_Start, Worker_Loop} \<union> range Worker_Has \<longrightarrow> rest = to_come test r \<and> \<not> bProcessingCompleted r"
    "bProcessingCompleted r \<longrightarrow> rest = []" "bSearchCompleted r \<longrightarrow> q = [] \<and> bProcessingCompleted r" "ps_lock s \<noteq> None \<longrightarrow> q = []"
    by (rule rec_okE)
  have n: "to_come test r = (if pg = [] then [] else [pg]) @ to_come test r1" "r1 = r\<lparr>dwCandidatesProcessed := dwCandidatesProcessed r1\<rparr>"
    using worker_page_next [OF ok(2,1) r(3)] by auto
  define i where "i = dwCandidatesProcessed r1"
  have r1: "r1 = r\<lparr>dwCandidatesProcessed := i\<rparr>" using n(2) by (simp add: i_def)
  let ?s = "s\<lparr>ps_rec := Some r1, ps_worker := if pg = [] then Worker_Loop else Worker_Has pg\<rparr>"
  have "rec_ok test ps ?s r1"
    by (rule rec_okI [where q = q and rest = "to_come test r1" and h\<^sub>0 = h\<^sub>0]) (use ok n(1) r(2) in \<open>auto simp: r1 in_hand_def\<close>)
  then show ?thesis using inv by (auto simp: ps_inv_def)
qed

lemma worker_push_inv:
  assumes inv: "ps_inv test ps s" and r: "ps_rec s = Some r" "ps_worker s = Worker_Has pg" "ps_lock s = None" "a \<notin> dom (ps_heap r)"
    "VmDirPagedSearchCacheAddData (Some a) pg r = Some (None, r1)"
  shows "ps_inv test ps (s\<lparr>ps_rec := Some r1, ps_worker := Worker_Loop\<rparr>)"
proof -
  have "rec_ok test ps s r" using inv r by (simp add: ps_inv_def)
  then obtain h\<^sub>0 q rest where ok: "0 < dwPageSize r" "\<forall>x \<in> set (pTotalCandidates r). test x \<noteq> None" "deque_rep h\<^sub>0 (ps_heap r, pQueue r) q"
    "ps = ps_read s @ q @ in_hand (ps_worker s) @ rest"
    "ps_worker s \<in> {Worker_Start, Worker_Loop} \<union> range Worker_Has \<longrightarrow> rest = to_come test r \<and> \<not> bProcessingCompleted r"
    "bProcessingCompleted r \<longrightarrow> rest = []" "bSearchCompleted r \<longrightarrow> q = [] \<and> bProcessingCompleted r" "ps_lock s \<noteq> None \<longrightarrow> q = []"
    by (rule rec_okE)
  obtain h d where d: "dequePush (Some a) (Some pg) (ps_heap r) (pQueue r) = Some (None, h, d)" "deque_rep h\<^sub>0 (h, d) (q @ [pg])"
    using deque_push [OF ok(3) r(4), of pg] by blast
  have r1: "r1 = r\<lparr>ps_heap := h, pQueue := d\<rparr>" using r(5) d(1) by (simp add: VmDirPagedSearchCacheAddData_def)
  have "rec_ok test ps (s\<lparr>ps_rec := Some r1, ps_worker := Worker_Loop\<rparr>) r1"
    by (rule rec_okI [where q = "q @ [pg]" and rest = rest and h\<^sub>0 = h\<^sub>0]) (use ok d r in \<open>auto simp: r1 in_hand_def to_come_def\<close>)
  then show ?thesis using inv by (auto simp: ps_inv_def)
qed

lemma worker_push_failed_inv:
  assumes inv: "ps_inv test ps s" and r: "ps_rec s = Some r" "ps_worker s = Worker_Has pg"
    "VmDirPagedSearchCacheAddData None pg r = Some (Some e, r1)"
  shows "ps_inv test ps (s\<lparr>ps_rec := Some r1, ps_worker := Worker_Exit\<rparr>)"
proof -
  have "rec_ok test ps s r" using inv r by (simp add: ps_inv_def)
  then obtain h\<^sub>0 q rest where ok: "0 < dwPageSize r" "\<forall>x \<in> set (pTotalCandidates r). test x \<noteq> None" "deque_rep h\<^sub>0 (ps_heap r, pQueue r) q"
    "ps = ps_read s @ q @ in_hand (ps_worker s) @ rest"
    "ps_worker s \<in> {Worker_Start, Worker_Loop} \<union> range Worker_Has \<longrightarrow> rest = to_come test r \<and> \<not> bProcessingCompleted r"
    "bProcessingCompleted r \<longrightarrow> rest = []" "bSearchCompleted r \<longrightarrow> q = [] \<and> bProcessingCompleted r" "ps_lock s \<noteq> None \<longrightarrow> q = []"
    by (rule rec_okE)
  obtain d where "pQueue r = Some d" using ok(3) by (rule deque_repE)
  then have r1: "r1 = r" using r(3) by (cases r) (auto simp: VmDirPagedSearchCacheAddData_def dequePush_def)
  have "rec_ok test ps (s\<lparr>ps_rec := Some r1, ps_worker := Worker_Exit\<rparr>) r1"
    by (rule rec_okI [where q = q and rest = "pg # rest" and h\<^sub>0 = h\<^sub>0]) (use ok r in \<open>auto simp: r1 in_hand_def\<close>)
  then show ?thesis using inv by (auto simp: ps_inv_def)
qed

lemma worker_complete_inv:
  assumes inv: "ps_inv test ps s" and r: "ps_rec s = Some r" "ps_worker s = Worker_Loop"
    "\<not> dwCandidatesProcessed r < length (pTotalCandidates r)"
  shows "ps_inv test ps (s\<lparr>ps_rec := Some (r\<lparr>bProcessingCompleted := True\<rparr>), ps_worker := Worker_Waiting\<rparr>)"
proof -
  have "rec_ok test ps s r" using inv r by (simp add: ps_inv_def)
  then obtain h\<^sub>0 q rest where ok: "0 < dwPageSize r" "\<forall>x \<in> set (pTotalCandidates r). test x \<noteq> None" "deque_rep h\<^sub>0 (ps_heap r, pQueue r) q"
    "ps = ps_read s @ q @ in_hand (ps_worker s) @ rest"
    "ps_worker s \<in> {Worker_Start, Worker_Loop} \<union> range Worker_Has \<longrightarrow> rest = to_come test r \<and> \<not> bProcessingCompleted r"
    "bProcessingCompleted r \<longrightarrow> rest = []" "bSearchCompleted r \<longrightarrow> q = [] \<and> bProcessingCompleted r" "ps_lock s \<noteq> None \<longrightarrow> q = []"
    by (rule rec_okE)
  have "rest = []" using ok(5) r(2,3) by (simp add: to_come_def)
  then have "rec_ok test ps (s\<lparr>ps_rec := Some (r\<lparr>bProcessingCompleted := True\<rparr>), ps_worker := Worker_Waiting\<rparr>) (r\<lparr>bProcessingCompleted := True\<rparr>)"
    by (intro rec_okI [where q = q and rest = "[]" and h\<^sub>0 = h\<^sub>0]) (use ok r in \<open>auto simp: in_hand_def\<close>)
  then show ?thesis using inv by (auto simp: ps_inv_def)
qed

lemma may_pop_lock: "may_pop s i \<Longrightarrow> ps_lock s = None"
  by (simp add: may_pop_def)

lemma reader_page_inv:
  assumes inv: "ps_inv test ps s" and r: "ps_rec s = Some r" "may_pop s i" "pop_page r = Some (Some pg, r1)"
  shows "\<not> bSearchCompleted r \<and>
    ps_inv test ps (s\<lparr>ps_rec := Some r1, ps_reader := (ps_reader s)(i := Reader_Return (Read_Page pg)), ps_read := ps_read s @ [pg]\<rparr>)"
proof -
  have "rec_ok test ps s r" using inv r by (simp add: ps_inv_def)
  then obtain h\<^sub>0 q rest where ok: "0 < dwPageSize r" "\<forall>x \<in> set (pTotalCandidates r). test x \<noteq> None" "deque_rep h\<^sub>0 (ps_heap r, pQueue r) q"
    "ps = ps_read s @ q @ in_hand (ps_worker s) @ rest"
    "ps_worker s \<in> {Worker_Start, Worker_Loop} \<union> range Worker_Has \<longrightarrow> rest = to_come test r \<and> \<not> bProcessingCompleted r"
    "bProcessingCompleted r \<longrightarrow> rest = []" "bSearchCompleted r \<longrightarrow> q = [] \<and> bProcessingCompleted r" "ps_lock s \<noteq> None \<longrightarrow> q = []"
    by (rule rec_okE)
  obtain q' where q': "q = pg # q'" "deque_rep h\<^sub>0 (ps_heap r1, pQueue r1) q'" "r1 = r\<lparr>ps_heap := ps_heap r1, pQueue := pQueue r1\<rparr>"
    using pop_page_rep [OF ok(3) r(3)] by auto
  define h d where hd: "h = ps_heap r1" "d = pQueue r1"
  have r1: "r1 = r\<lparr>ps_heap := h, pQueue := d\<rparr>" using q'(3) by (simp add: hd)
  let ?s = "s\<lparr>ps_rec := Some r1, ps_reader := (ps_reader s)(i := Reader_Return (Read_Page pg)), ps_read := ps_read s @ [pg]\<rparr>"
  have "rec_ok test ps ?s r1"
    by (rule rec_okI [where q = q' and rest = rest and h\<^sub>0 = h\<^sub>0]) (use ok q'(1,2) may_pop_lock [OF r(2)] in \<open>auto simp: r1 to_come_def\<close>)
  moreover have "\<not> ps_told s" "prefix (ps_read s @ [pg]) ps" using inv ok(4) q'(1) by (auto simp: ps_inv_def)
  moreover have "\<not> bSearchCompleted r" using ok(7) q'(1) by auto
  ultimately show ?thesis using inv may_pop_lock [OF r(2)] by (auto simp: ps_inv_def)
qed

lemma reader_empty_inv:
  assumes inv: "ps_inv test ps s" and r: "ps_rec s = Some r" "may_pop s i" "pop_page r = Some (None, r1)"
  shows "ps_inv test ps (s\<lparr>ps_rec := Some r1, ps_lock := Some i, ps_reader := (ps_reader s)(i := Reader_Empty)\<rparr>)"
proof -
  have "rec_ok test ps s r" using inv r by (simp add: ps_inv_def)
  then obtain h\<^sub>0 q rest where ok: "0 < dwPageSize r" "\<forall>x \<in> set (pTotalCandidates r). test x \<noteq> None" "deque_rep h\<^sub>0 (ps_heap r, pQueue r) q"
    "ps = ps_read s @ q @ in_hand (ps_worker s) @ rest"
    "ps_worker s \<in> {Worker_Start, Worker_Loop} \<union> range Worker_Has \<longrightarrow> rest = to_come test r \<and> \<not> bProcessingCompleted r"
    "bProcessingCompleted r \<longrightarrow> rest = []" "bSearchCompleted r \<longrightarrow> q = [] \<and> bProcessingCompleted r" "ps_lock s \<noteq> None \<longrightarrow> q = []"
    by (rule rec_okE)
  have q: "q = []" "r1 = r" using pop_page_rep [OF ok(3) r(3)] by auto
  have "rec_ok test ps (s\<lparr>ps_rec := Some r1, ps_lock := Some i, ps_reader := (ps_reader s)(i := Reader_Empty)\<rparr>) r1"
    by (rule rec_okI [where q = q and rest = rest and h\<^sub>0 = h\<^sub>0]) (use ok q in auto)
  then show ?thesis using inv may_pop_lock [OF r(2)] by (auto simp: ps_inv_def)
qed

lemma reader_end_inv:
  assumes inv: "ps_inv test ps s" and r: "ps_rec s = Some r" "ps_reader s i = Reader_Empty" "bProcessingCompleted r"
  shows "ps_inv test ps (s\<lparr>ps_rec := Some (r\<lparr>bSearchCompleted := True\<rparr>), ps_lock := None,
         ps_reader := (ps_reader s)(i := Reader_Return Read_Completed), ps_told := True\<rparr>)"
proof -
  have "rec_ok test ps s r" using inv r by (simp add: ps_inv_def)
  then obtain h\<^sub>0 q rest where ok: "0 < dwPageSize r" "\<forall>x \<in> set (pTotalCandidates r). test x \<noteq> None" "deque_rep h\<^sub>0 (ps_heap r, pQueue r) q"
    "ps = ps_read s @ q @ in_hand (ps_worker s) @ rest"
    "ps_worker s \<in> {Worker_Start, Worker_Loop} \<union> range Worker_Has \<longrightarrow> rest = to_come test r \<and> \<not> bProcessingCompleted r"
    "bProcessingCompleted r \<longrightarrow> rest = []" "bSearchCompleted r \<longrightarrow> q = [] \<and> bProcessingCompleted r" "ps_lock s \<noteq> None \<longrightarrow> q = []"
    by (rule rec_okE)
  have l: "ps_lock s = Some i" using inv r(2) by (simp add: ps_inv_def)
  then have q: "q = []" "rest = []" using ok(6,8) r(3) by auto
  have w: "ps_worker s \<notin> {Worker_Start, Worker_Loop} \<union> range Worker_Has" using ok(5) r(3) by auto
  then have h: "in_hand (ps_worker s) = []" by (auto simp: in_hand_def split: worker_pc.splits)
  let ?s = "s\<lparr>ps_rec := Some (r\<lparr>bSearchCompleted := True\<rparr>), ps_lock := None, ps_reader := (ps_reader s)(i := Reader_Return Read_Completed), ps_told := True\<rparr>"
  have "rec_ok test ps ?s (r\<lparr>bSearchCompleted := True\<rparr>)"
    by (rule rec_okI [where q = "[]" and rest = "[]" and h\<^sub>0 = h\<^sub>0]) (use ok(1-4) q h w r(3) in auto)
  then show ?thesis using inv l ok(4) q h by (auto simp: ps_inv_def)
qed

lemma reader_wait_inv:
  assumes inv: "ps_inv test ps s" and r: "ps_rec s = Some r" "ps_reader s i = Reader_Empty"
  shows "ps_inv test ps (s\<lparr>ps_lock := None, ps_reader := (ps_reader s)(i := Reader_Waiting)\<rparr>)"
proof -
  have l: "ps_lock s = Some i" using inv r(2) by (simp add: ps_inv_def)
  have "rec_ok test ps s r" using inv r by (simp add: ps_inv_def)
  then have "rec_ok test ps (s\<lparr>ps_lock := None, ps_reader := (ps_reader s)(i := Reader_Waiting)\<rparr>) r" by (rule rec_ok_same) auto
  then show ?thesis using inv r l by (auto simp: ps_inv_def)
qed

lemma step_inv:
  assumes "ps_step test s s'" "ps_inv test ps s"
  shows "ps_inv test ps s'"
  using assms(1)
proof cases
  case (worker_page r mem r1 pg)
  with worker_page_inv [OF assms(2)] show ?thesis by simp
next
  case (worker_push r pg a r1)
  with worker_push_inv [OF assms(2)] show ?thesis by simp
next
  case (worker_push_failed r pg e r1)
  with worker_push_failed_inv [OF assms(2)] show ?thesis by simp
next
  case (worker_complete r)
  with worker_complete_inv [OF assms(2)] show ?thesis by simp
next
  case (reader_page r i pg r1)
  with reader_page_inv [OF assms(2)] show ?thesis by simp
next
  case (reader_page_dropped r i pg r1)
  with reader_page_inv [OF assms(2)] show ?thesis by simp
next
  case (reader_empty r i r1)
  with reader_empty_inv [OF assms(2)] show ?thesis by simp
next
  case (reader_end r i)
  with reader_end_inv [OF assms(2)] show ?thesis by simp
next
  case (reader_wait r i)
  with reader_wait_inv [OF assms(2)] show ?thesis by simp
qed (rule inv_same [OF assms(2)]; auto simp: same_data_def RefPagedSearchRecord_def DerefPagedSearchRecord_def Let_def split: if_splits)+

lemma reach_inv:
  assumes "ps_reach test (ps_init n ids start) s" and "0 < n" and "\<forall>x \<in> set ids. test x \<noteq> None"
  shows "ps_inv test (pages_of n (filter (included test) (drop start ids))) s"
  using assms(1) by induction (use init_inv [OF assms(2,3)] step_inv in blast)+

text \<open>
  C5. Whatever the interleaving of the worker, the creator and any number of readers of a cached
  search, with failures of memory, timeouts and a shutdown at any time: the pages handed to the
  readers are, in order, the first pages of the candidates behind the first page that pass the filter,
  cut at the page size, and a reader is told that the search is complete only after all of them
  were handed out.
\<close>

theorem paged_cache_delivers:
  assumes "ps_reach test (ps_init n ids start) s" and "0 < n" and "\<forall>x \<in> set ids. test x \<noteq> None"
  shows "prefix (ps_read s) (pages_of n (filter (included test) (drop start ids))) \<and>
    (ps_told s \<longrightarrow> ps_read s = pages_of n (filter (included test) (drop start ids)))"
  using reach_inv [OF assms] by (simp add: ps_inv_def)

text \<open>A search with one candidate left, whose page is read before the reader is told the end.\<close>

definition all_pass :: "entry_id \<Rightarrow> bool option" where
  "all_pass x = Some True"

definition one_rec :: "nat \<Rightarrow> nat \<Rightarrow> bool \<Rightarrow> page option \<Rightarrow> bool \<Rightarrow> bool \<Rightarrow> ps_record" where
  "one_rec refs done_ids thr queued pc sc =
     \<lparr>dwRefCount = refs, dwPageSize = 2, dwCandidatesProcessed = done_ids, pTotalCandidates = [7],
      ps_heap = (case queued of None \<Rightarrow> Map.empty | Some pg \<Rightarrow> [0 \<mapsto> \<lparr>pElement = pg, pPrev = None, pNext = None\<rparr>]),
      pQueue = Some (case queued of None \<Rightarrow> \<lparr>pHead = None, pTail = None, iSize = 0\<rparr> | Some pg \<Rightarrow> \<lparr>pHead = Some 0, pTail = Some 0, iSize = 1\<rparr>),
      pThreadInfo = thr, bProcessingCompleted = pc, bSearchCompleted = sc\<rparr>"

definition one_state :: "ps_record option \<Rightarrow> bool \<Rightarrow> nat option \<Rightarrow> creator_pc \<Rightarrow> worker_pc \<Rightarrow> reader_pc \<Rightarrow> page list \<Rightarrow> bool \<Rightarrow> ps_state" where
  "one_state r cached lock cr w rd got told =
     \<lparr>ps_rec = r, ps_cached = cached, ps_lock = lock, ps_creator = cr, ps_worker = w, ps_reader = (\<lambda>i. Reader_Idle)(0 := rd),
      ps_shutdown = False, ps_read = got, ps_told = told\<rparr>"

lemma one_rec_simps [simp]:
  "dwCandidatesProcessed (one_rec k j t q b c) = j" "pTotalCandidates (one_rec k j t q b c) = [7]" "pThreadInfo (one_rec k j t q b c) = t"
  "bProcessingCompleted (one_rec k j t q b c) = b" "bSearchCompleted (one_rec k j t q b c) = c" "ps_heap (one_rec k j t None b c) = Map.empty"
  "(one_rec k j t q b c)\<lparr>dwRefCount := k'\<rparr> = one_rec k' j t q b c" "(one_rec k j t q b c)\<lparr>pThreadInfo := t'\<rparr> = one_rec k j t' q b c"
  "(one_rec k j t q b c)\<lparr>bProcessingCompleted := b'\<rparr> = one_rec k j t q b' c" "(one_rec k j t q b c)\<lparr>bSearchCompleted := c'\<rparr> = one_rec k j t q b c'"
  by (simp_all add: one_rec_def)

lemma one_refs [simp]:
  "RefPagedSearchRecord (one_rec 0 j t q b c) = one_rec 1 j t q b c" "RefPagedSearchRecord (one_rec (Suc 0) j t q b c) = one_rec 2 j t q b c"
  "DerefPagedSearchRecord (one_rec (Suc 0) j t q b c) = (True, one_rec 0 j t q b c)"
  "DerefPagedSearchRecord (one_rec 2 j t q b c) = (False, one_rec 1 j t q b c)"
  by (simp_all add: RefPagedSearchRecord_def DerefPagedSearchRecord_def wrap32_def one_rec_def Let_def)

lemma one_alloc [simp]: "VmDirPagedSearchEntryListAlloc (\<lambda>n. True) (one_rec k j t q b c) = None"
  by (simp add: VmDirPagedSearchEntryListAlloc_def one_rec_def memory_defs)

lemma one_start: "ps_init 2 [7] i = one_state (Some (one_rec 0 i False None False False)) False None Creator_Started Worker_Start Reader_Idle [] False"
  by (simp add: ps_init_def one_state_def one_rec_def new_record_def dequeCreate_def memory_defs fun_eq_iff)

lemma one_created: "ps_reach t (ps_init 2 [7] i)
    (one_state (Some (one_rec 1 i True None False False)) True None Creator_Returned Worker_Loop Reader_Idle [] False)"
proof -
  let ?s = "\<lambda>r c cr w. one_state (Some r) c None cr w Reader_Idle [] False" and ?r = "\<lambda>n thr. one_rec n i thr None False False"
  have 1: "ps_step t (ps_init 2 [7] i) (?s (?r 0 True) False Creator_Thread_Set Worker_Start)"
    using ps_step.thread_set [of "?s (?r 0 False) False Creator_Started Worker_Start" "?r 0 False" t]
    by (simp add: one_start one_state_def)
  have 2: "ps_step t (?s (?r 0 True) False Creator_Thread_Set Worker_Start) (?s (?r 0 True) True Creator_Inserted Worker_Start)"
    using ps_step.table_insert [of "?s (?r 0 True) False Creator_Thread_Set Worker_Start" t] by (simp add: one_state_def)
  have 3: "ps_step t (?s (?r 0 True) True Creator_Inserted Worker_Start) (?s (?r 1 True) True Creator_Returned Worker_Start)"
    using ps_step.count_set [of "?s (?r 0 True) True Creator_Inserted Worker_Start" "?r 0 True" t] by (simp add: one_state_def)
  have 4: "ps_step t (?s (?r 1 True) True Creator_Returned Worker_Start) (?s (?r 1 True) True Creator_Returned Worker_Loop)"
    using ps_step.worker_start [of "?s (?r 1 True) True Creator_Returned Worker_Start" t] by (simp add: one_state_def)
  show ?thesis by (rule ps_reach.step [OF ps_reach.step [OF ps_reach.step [OF ps_reach.step [OF ps_reach.start 1] 2] 3] 4])
qed

lemma one_process: "VmDirPagedSearchProcessEntries all_pass (one_rec k 0 True None False False) = Some (one_rec k 1 True None False False, [7])"
  by (simp add: VmDirPagedSearchProcessEntries_def one_rec_def process_entries.simps all_pass_def)

lemma one_push: "VmDirPagedSearchCacheAddData (Some 0) [7] (one_rec k 1 True None False False) = Some (None, one_rec k 1 True (Some [7]) False False)"
  by (simp add: VmDirPagedSearchCacheAddData_def one_rec_def dequePush_def wrap64_def Let_def)

lemma one_pop: "pop_page (one_rec k j True (Some [7]) b c) = Some (Some [7], one_rec k j True None b c)"
  "pop_page (one_rec k j True None b c) = Some (None, one_rec k j True None b c)"
  by (simp_all add: pop_page_def one_rec_def dequePopLeft_def size_dec_def wrap64_def fun_eq_iff)

lemma one_read: "ps_reach all_pass (ps_init 2 [7] 0)
    (one_state (Some (one_rec 1 1 True None True False)) True None Creator_Returned Worker_Waiting Reader_Idle [[7]] False)"
proof -
  let ?s = "\<lambda>r w rd. one_state (Some r) True None Creator_Returned w rd" and ?r = "\<lambda>k i q b. one_rec k i True q b False"
  have 1: "ps_step all_pass (?s (?r 1 0 None False) Worker_Loop Reader_Idle [] False) (?s (?r 1 1 None False) (Worker_Has [7]) Reader_Idle [] False)"
    using ps_step.worker_page [of "?s (?r 1 0 None False) Worker_Loop Reader_Idle [] False" "?r 1 0 None False" "\<lambda>n. True" all_pass] one_process
    by (simp add: one_state_def)
  have 2: "ps_step all_pass (?s (?r 1 1 None False) (Worker_Has [7]) Reader_Idle [] False) (?s (?r 1 1 (Some [7]) False) Worker_Loop Reader_Idle [] False)"
    using ps_step.worker_push [of "?s (?r 1 1 None False) (Worker_Has [7]) Reader_Idle [] False" "?r 1 1 None False" "[7]" 0] one_push
    by (simp add: one_state_def)
  have 3: "ps_step all_pass (?s (?r 1 1 (Some [7]) False) Worker_Loop Reader_Idle [] False) (?s (?r 1 1 (Some [7]) True) Worker_Waiting Reader_Idle [] False)"
    using ps_step.worker_complete [of "?s (?r 1 1 (Some [7]) False) Worker_Loop Reader_Idle [] False" "?r 1 1 (Some [7]) False"]
    by (simp add: one_state_def)
  have 4: "ps_step all_pass (?s (?r 1 1 (Some [7]) True) Worker_Waiting Reader_Idle [] False) (?s (?r 2 1 (Some [7]) True) Worker_Waiting Reader_Found [] False)"
    using ps_step.reader_find [of "?s (?r 1 1 (Some [7]) True) Worker_Waiting Reader_Idle [] False" "?r 1 1 (Some [7]) True" 0]
    by (simp add: one_state_def)
  have 5: "ps_step all_pass (?s (?r 2 1 (Some [7]) True) Worker_Waiting Reader_Found [] False)
      (?s (?r 2 1 None True) Worker_Waiting (Reader_Return (Read_Page [7])) [[7]] False)"
    using ps_step.reader_page [of "?s (?r 2 1 (Some [7]) True) Worker_Waiting Reader_Found [] False" "?r 2 1 (Some [7]) True" 0] one_pop
    by (simp add: one_state_def may_pop_def)
  have 6: "ps_step all_pass (?s (?r 2 1 None True) Worker_Waiting (Reader_Return (Read_Page [7])) [[7]] False) (?s (?r 1 1 None True) Worker_Waiting Reader_Idle [[7]] False)"
    using ps_step.reader_deref [of "?s (?r 2 1 None True) Worker_Waiting (Reader_Return (Read_Page [7])) [[7]] False" "?r 2 1 None True" 0 "Read_Page [7]" False]
    by (simp add: one_state_def)
  show ?thesis
    by (rule ps_reach.step [OF ps_reach.step [OF ps_reach.step [OF ps_reach.step [OF ps_reach.step [OF ps_reach.step [OF one_created 1] 2] 3] 4] 5] 6])
qed

theorem paged_cache_delivers_witness:
  "\<exists>s. ps_reach all_pass (ps_init 2 [7] 0) s \<and> ps_told s \<and> ps_read s = pages_of 2 (filter (included all_pass) (drop 0 [7]))"
proof -
  let ?s = "\<lambda>r l rd t. one_state (Some r) True l Creator_Returned Worker_Waiting rd [[7]] t" and ?r = "\<lambda>k b. one_rec k 1 True None True b"
  have 1: "ps_step all_pass (?s (?r 1 False) None Reader_Idle False) (?s (?r 2 False) None Reader_Found False)"
    using ps_step.reader_find [of "?s (?r 1 False) None Reader_Idle False" "?r 1 False" 0] by (simp add: one_state_def)
  have 2: "ps_step all_pass (?s (?r 2 False) None Reader_Found False) (?s (?r 2 False) (Some 0) Reader_Empty False)"
    using ps_step.reader_empty [of "?s (?r 2 False) None Reader_Found False" "?r 2 False" 0] one_pop by (simp add: one_state_def may_pop_def)
  have 3: "ps_step all_pass (?s (?r 2 False) (Some 0) Reader_Empty False) (?s (?r 2 True) None (Reader_Return Read_Completed) True)"
    using ps_step.reader_end [of "?s (?r 2 False) (Some 0) Reader_Empty False" "?r 2 False" 0] by (simp add: one_state_def)
  have r: "ps_reach all_pass (ps_init 2 [7] 0) (?s (?r 2 True) None (Reader_Return Read_Completed) True)"
    by (rule ps_reach.step [OF ps_reach.step [OF ps_reach.step [OF one_read 1] 2] 3])
  have d: "\<forall>x \<in> set [7]. all_pass x \<noteq> None" by (simp add: all_pass_def)
  have "ps_told (?s (?r 2 True) None (Reader_Return Read_Completed) True)" by (simp add: one_state_def)
  with paged_cache_delivers [OF r _ d] r show ?thesis by auto
qed

text \<open>
  C38. A reader can be left with a freed record: when the worker's wait for the client times out, it
  drops the last reference before it removes the record from the cache, and a reader that finds the
  record in between uses it after the worker has freed it.
\<close>

theorem found_record_freed:
  "\<exists>s. ps_reach test (ps_init 2 [7] 1) s \<and> ps_reader s 0 = Reader_Found \<and> ps_rec s = None"
proof -
  let ?s = "\<lambda>r c w rd. one_state r c None Creator_Returned w rd [] False" and ?r = "\<lambda>k b. Some (one_rec k 1 True None b False)"
  have 1: "ps_step test (?s (?r 1 False) True Worker_Loop Reader_Idle) (?s (?r 1 True) True Worker_Waiting Reader_Idle)"
    using ps_step.worker_complete [of "?s (?r 1 False) True Worker_Loop Reader_Idle" "one_rec 1 1 True None False False"] by (simp add: one_state_def)
  have 2: "ps_step test (?s (?r 1 True) True Worker_Waiting Reader_Idle) (?s (?r 1 True) True Worker_Exit Reader_Idle)"
    using ps_step.worker_timeout [of "?s (?r 1 True) True Worker_Waiting Reader_Idle"] by (simp add: one_state_def)
  have 3: "ps_step test (?s (?r 1 True) True Worker_Exit Reader_Idle) (?s (?r 0 True) True Worker_Free Reader_Idle)"
    using ps_step.worker_deref [of "?s (?r 1 True) True Worker_Exit Reader_Idle" "one_rec 1 1 True None True False"] by (simp add: one_state_def)
  have 4: "ps_step test (?s (?r 0 True) True Worker_Free Reader_Idle) (?s (?r 1 True) True Worker_Free Reader_Found)"
    using ps_step.reader_find [of "?s (?r 0 True) True Worker_Free Reader_Idle" "one_rec 0 1 True None True False" 0] by (simp add: one_state_def)
  have 5: "ps_step test (?s (?r 1 True) True Worker_Free Reader_Found) (?s None False Worker_Gone Reader_Found)"
    using ps_step.worker_free [of "?s (?r 1 True) True Worker_Free Reader_Found" "one_rec 1 1 True None True False"] by (simp add: one_state_def)
  have "ps_reach test (ps_init 2 [7] 1) (?s None False Worker_Gone Reader_Found)"
    by (rule ps_reach.step [OF ps_reach.step [OF ps_reach.step [OF ps_reach.step [OF ps_reach.step [OF one_created 1] 2] 3] 4] 5])
  moreover have "ps_reader (?s None False Worker_Gone Reader_Found) 0 = Reader_Found" "ps_rec (?s None False Worker_Gone Reader_Found) = None"
    by (simp_all add: one_state_def)
  ultimately show ?thesis by blast
qed

text \<open>Nothing orders the worker after the assignment of its thread structure, which it uses at its end.\<close>

lemma worker_without_thread: "\<exists>s. ps_reach test (ps_init 2 [7] 1) s \<and> ps_worker s = Worker_Crashed"
proof -
  let ?s = "\<lambda>w. one_state (Some (one_rec 0 1 False None False False)) False None Creator_Started w Reader_Idle [] False"
  have 1: "ps_step test (ps_init 2 [7] 1) (?s Worker_Loop)"
    using ps_step.worker_start [of "ps_init 2 [7] 1"] by (simp add: one_start one_state_def)
  have 2: "ps_step test (?s Worker_Loop) (?s Worker_Crashed)"
    using ps_step.worker_null [of "?s Worker_Loop" "one_rec 0 1 False None False False"] by (simp add: one_state_def)
  show ?thesis by (rule exI, rule conjI, rule ps_reach.step [OF ps_reach.step [OF ps_reach.start 1] 2]) (simp add: one_state_def)
qed

section \<open>A worker that fails\<close>

text \<open>The worker has given up before its end and the queue is read; reader \<open>i\<close> waits.\<close>

definition abandoned :: "nat \<Rightarrow> ps_state \<Rightarrow> bool" where
  "abandoned i s \<longleftrightarrow>
     ps_worker s \<in> {Worker_Exit, Worker_Free, Worker_Gone} \<and> ps_reader s i \<in> {Reader_Waiting, Reader_Empty} \<and>
     (\<forall>r. ps_rec s = Some r \<longrightarrow> \<not> bProcessingCompleted r \<and> pop_page r = Some (None, r))"

lemma pop_page_cong: "ps_heap r' = ps_heap r \<Longrightarrow> pQueue r' = pQueue r \<Longrightarrow> pop_page r = Some (None, r) \<Longrightarrow> pop_page r' = Some (None, r')"
  by (cases r; cases r') (auto simp: pop_page_def split: bind_splits prod.splits if_splits)

lemma abandoned_step:
  assumes "ps_step test s s'" "abandoned i s" "ps_creator s = Creator_Returned" "\<not> ps_shutdown s'"
  shows "abandoned i s'"
  using assms
proof cases
  case (reader_find r j)
  then show ?thesis using assms(2) pop_page_cong [of "RefPagedSearchRecord r" r] by (auto simp: abandoned_def RefPagedSearchRecord_def)
next
  case (worker_deref r gone r1)
  then show ?thesis using assms(2) pop_page_cong [of r1 r] by (auto simp: abandoned_def DerefPagedSearchRecord_def Let_def)
next
  case (reader_deref r j x gone r1)
  then show ?thesis using assms(2) pop_page_cong [of r1 r] by (auto simp: abandoned_def DerefPagedSearchRecord_def Let_def)
qed (auto simp: abandoned_def)

lemma step_shutdown: "ps_step test s s' \<Longrightarrow> ps_shutdown s \<Longrightarrow> ps_shutdown s'"
  by (erule ps_step.cases) auto

lemma step_creator: "ps_step test s s' \<Longrightarrow> ps_creator s = Creator_Returned \<Longrightarrow> ps_creator s' = Creator_Returned"
  by (erule ps_step.cases) auto

text \<open>
  C37. When the worker fails, for want of memory say, while a reader waits for its next page, the reader
  waits forever: nothing tells it of the failure, and only a shutdown of the server ends its loop.
\<close>

theorem failed_worker_hangs_reader:
  assumes "abandoned i s" and "ps_creator s = Creator_Returned" and "ps_reach test s s'" and "\<not> ps_shutdown s'"
  shows "ps_reader s' i = Reader_Waiting \<or> ps_reader s' i = Reader_Empty"
proof -
  from assms(3) have "ps_creator s' = Creator_Returned \<and> (ps_shutdown s' \<or> abandoned i s')"
  proof induction
    case start
    with assms(1,2) show ?case by simp
  next
    case (step s1 s2)
    then show ?case using abandoned_step [of test s1 s2 i] step_shutdown step_creator by blast
  qed
  with assms(4) show ?thesis by (auto simp: abandoned_def)
qed

theorem failed_worker_hangs_reader_witness:
  "\<exists>s. ps_reach all_pass (ps_init 2 [7] 0) s \<and> abandoned 0 s \<and>
     (\<forall>s'. ps_reach all_pass s s' \<longrightarrow> \<not> ps_shutdown s' \<longrightarrow> ps_reader s' 0 = Reader_Waiting \<or> ps_reader s' 0 = Reader_Empty)"
proof -
  let ?s = "\<lambda>k l w rd. one_state (Some (one_rec k 0 True None False False)) True l Creator_Returned w rd [] False"
  have 1: "ps_step all_pass (?s 1 None Worker_Loop Reader_Idle) (?s 2 None Worker_Loop Reader_Found)"
    using ps_step.reader_find [of "?s 1 None Worker_Loop Reader_Idle" "one_rec 1 0 True None False False" 0] by (simp add: one_state_def)
  have 2: "ps_step all_pass (?s 2 None Worker_Loop Reader_Found) (?s 2 (Some 0) Worker_Loop Reader_Empty)"
    using ps_step.reader_empty [of "?s 2 None Worker_Loop Reader_Found" "one_rec 2 0 True None False False" 0] one_pop
    by (simp add: one_state_def may_pop_def)
  have 3: "ps_step all_pass (?s 2 (Some 0) Worker_Loop Reader_Empty) (?s 2 None Worker_Loop Reader_Waiting)"
    using ps_step.reader_wait [of "?s 2 (Some 0) Worker_Loop Reader_Empty" "one_rec 2 0 True None False False" 0] by (simp add: one_state_def)
  have "VmDirPagedSearchEntryListAlloc (\<lambda>n. False) (one_rec 2 0 True None False False) \<noteq> None"
    by (simp add: VmDirPagedSearchEntryListAlloc_def memory_defs)
  then have 4: "ps_step all_pass (?s 2 None Worker_Loop Reader_Waiting) (?s 2 None Worker_Exit Reader_Waiting)"
    using ps_step.worker_no_memory [of "?s 2 None Worker_Loop Reader_Waiting" "one_rec 2 0 True None False False" "\<lambda>n. False"]
    by (simp add: one_state_def)
  have r: "ps_reach all_pass (ps_init 2 [7] 0) (?s 2 None Worker_Exit Reader_Waiting)"
    by (rule ps_reach.step [OF ps_reach.step [OF ps_reach.step [OF ps_reach.step [OF one_created 1] 2] 3] 4])
  have a: "abandoned 0 (?s 2 None Worker_Exit Reader_Waiting)" using one_pop by (simp add: abandoned_def one_state_def)
  have "ps_creator (?s 2 None Worker_Exit Reader_Waiting) = Creator_Returned" by (simp add: one_state_def)
  with failed_worker_hangs_reader [OF a] a r show ?thesis by blast
qed

end
