(* ===== verification/Spec2Isabelle.thy ===== *)
theory Spec2Isabelle
  imports Circular_Buffer Linked_List Raft_Cluster Raft_Commit Raft_Replicate Filter_String Paged_Cache
begin

text \<open>
  A verification library for the Raft-replicated directory server of Lightwave, under
  \<open>src/lwraft\<close>.

  \<^bold>\<open>The program.\<close> The server keeps directory entries in a memory-mapped database and
  replicates every change to the servers of its cluster with Raft. A client's change runs in a
  transaction of its thread; the change logs of the transaction are packed into one Raft log,
  which is stored in a second database; the commit of the transaction waits until a majority of
  the servers has stored the log. Elections, the replication to one peer and the handlers of the
  requests of other servers run in threads of their own over one global state. A search looks up
  the items of its filter in the indices of the attributes, combines the candidate lists and
  tests and sends the candidates one by one.

  \<^bold>\<open>Conventions.\<close> A result of the C functions is an optional error, where \<open>None\<close> is 0. A
  failed assertion, a null dereference or an access outside a block is the outer \<open>None\<close> of a
  function that may have one, so a theorem that gives the result of such a function also says that
  nothing of this kind happens. Counters of the source are natural numbers with the wrap-around
  written out (\<open>wrap32\<close>, \<open>wrap64\<close>), bytes and ids of entries are words. Memory comes from a
  function of the size, which says whether an allocation succeeds. What other threads do while a
  lock is released is a function of the moment, which changes the state. Functions of libraries
  and of parts that are not modelled are fields of records of parameters; what is assumed of them
  is a hypothesis of the theorems, and the theorem after each shows an instance.

  \<^bold>\<open>Common structures\<close> (\<open>lwraft/common\<close>).
  \<^item> \<open>Prelude\<close>: errors, wrap-around, strings, list lemmas. \<open>Memory\<close>: the wrappers of \<open>memory.c\<close>.
  \<^item> \<open>Circular_Buffer\<close>: \<open>circularbuffer.c\<close> over one block of bytes. The buffer refines the list of
    its newest elements; the overflow check of its creation accepts a wrapped product.
  \<^item> \<open>Dl_Segment\<close>, \<open>Linked_List\<close>, \<open>Deque\<close>: \<open>linkedlist.c\<close> and \<open>deque.c\<close> over a heap of nodes. Every
    operation changes the list it represents as it should, and no cell outside it.

  \<^bold>\<open>Raft\<close> (\<open>lwraft/server/replication\<close>).
  \<^item> \<open>Raft_Log_Codec\<close>: the byte format of logs, from \<open>replentry.c\<close>. Packing and unpacking are inverse;
    a negative size field is not rejected.
  \<^item> \<open>Raft_State\<close>: the global state, the log databases, looking up and deleting logs, loading and
    persisting terms (\<open>replentry.c\<close>, \<open>thread.c\<close>). The loop for the previous log ends because the index
    decreases; deleting logs is exact.
  \<^item> \<open>Raft_Vote\<close>, \<open>Raft_Append\<close>: the handlers of \<open>raftldaprpc.c\<close> with every branch, and the critical
    sections of the election thread. \<open>Raft_Append\<close> shows what an accepted, a mismatching and an old
    request do to the log.
  \<^item> \<open>Raft_Cluster\<close>: a step relation over the servers, their threads and the messages. In a run in
    which votes are not forgotten and late grants not counted, at most one server leads in a term; two
    runs show that the code does not keep this discipline.
  \<^item> \<open>Raft_Peers\<close>: the membership, \<open>clusterSize\<close> in particular.
  \<^item> \<open>Raft_Prepare\<close>: the callbacks of the commit that wait for consensus. The wait is bounded by the
    retry counter of the code, 32 and one more, so at most 33 waits of the schedule are consulted.
  \<^item> \<open>Mdb_Txn\<close>, \<open>Mdb_Error\<close>, \<open>Raft_Commit\<close>: the transactions of a thread (\<open>mdb-store/txn.c\<close>,
    \<open>middle-layer/txn.c\<close>), the change logs they collect and the commit that calls the callbacks. The
    library transactions that are open are those the contexts hold, and what becomes durable was
    replicated by a majority.
  \<^item> \<open>Raft_Replicate\<close>: the leader's loop towards one peer. Against the model of the follower's
    handler it closes the gap between the logs. Its fuel is the number of rounds; the theorem gives a
    number that is enough.

  \<^bold>\<open>Search\<close> (\<open>lwraft/server/ldap-head\<close>, \<open>common\<close>, \<open>mdb-store\<close>, \<open>middle-layer\<close>).
  \<^item> \<open>Candidates\<close>: \<open>candidates.c\<close>, the merge loops over sorted ids and the combination of the results
    of two filters.
  \<^item> \<open>Ldap_Filter\<close>: testing an entry against a filter (\<open>filter.c\<close>). A filter is a tree; the fields
    that change are a function of the path of a node. The test is the three-valued one of RFC 4511.
  \<^item> \<open>Mdb_Index\<close>: writing and scanning the index of an attribute (\<open>indexwriteutil.c\<close>,
    \<open>indexreadutil.c\<close>) over the library's sorted records.
  \<^item> \<open>Search\<close>, \<open>Search_Build\<close>, \<open>Search_Result\<close>: \<open>search.c\<close>. A pass over the components of a
    conjunction changes only their nodes; the list of a filter lets through every entry that passes it,
    for every source of candidates with the contract of the locale \<open>candidate_source\<close>, which the
    indices fulfil. So the search sends exactly what a scan of all entries would.

  \<^item> \<open>Filter_String\<close>: the text of a filter, which stays inside the block allocated for it.
  \<^item> \<open>Paged_Cache\<close>: \<open>pscache.c\<close>, the threads of a cached paged search as a step relation. The pages
    are handed out completely and in order; a worker that fails leaves its readers waiting.

  \<^bold>\<open>Bounds.\<close> Theorems about sizes that the source keeps in a 32-bit \<open>int\<close> assume that they fit: the
  lists and blocks of the examples are far below \<open>2 ^ 31\<close> bytes. Beyond it the code wraps, as the
  theorems on the circular buffer and on unpacking show.

  \<^bold>\<open>Not modelled.\<close> The network and the encodings of LDAP, RPC and REST, logging, metrics and
  timers have no state of their own that the theorems could be about. Schema, syntaxes, access control
  and the plugins of operations are parameters of what calls them. The layers of the database library
  below a transaction and an index are its documented behaviour. The other services of the repository
  (the older directory server with its own replication, certificates, names, identity, the domain
  client and the user interfaces) are separate programs that are not part of the server under
  \<open>src/lwraft\<close>.
\<close>

end
